(* ===== verification/Sponge_Prelude.thy ===== *)
theory Sponge_Prelude
  imports Main "HOL-Library.Word"
begin

text \<open>
  Shared vocabulary of the development: the machine integers of the C++ sources, bytes and
  strings, exceptions and undefined behaviour as values, the parts of \<open>std::string\<close> the sources
  use, and the facts about words and lists that every component proof rests on.

  \<open>size_t\<close> and \<open>uint64_t\<close> are 64-bit words (the library is built for x86-64 Linux), so every
  addition and subtraction of the model wraps around exactly as the compiled code does.
\<close>

type_synonym byte = "8 word"
type_synonym bytes = "byte list"
type_synonym uint8_t = "8 word"
type_synonym uint16_t = "16 word"
type_synonym uint32_t = "32 word"
type_synonym uint64_t = "64 word"
type_synonym size_t = "64 word"

text \<open>
  What a call can do other than return: throw \<open>std::out_of_range\<close>, \<open>std::length_error\<close>,
  \<open>std::invalid_argument\<close> or \<open>std::runtime_error\<close>, throw a \<open>unix_error\<close> or a \<open>tagged_error\<close> of the name resolver with what was
  attempted and the error number, or run into undefined behaviour (popping an empty deque, reading
  past its end). A fallible operation returns \<open>cpp_error + 'a\<close>, with \<open>Inl\<close> for the failure.
\<close>

datatype cpp_error =
    OutOfRange string
  | LengthError string
  | InvalidArgument string
  | RuntimeError string
  | UnixError string int
  | GaiError string int
  | UndefinedBehaviour string

fun bindE :: "cpp_error + 'a \<Rightarrow> ('a \<Rightarrow> cpp_error + 'b) \<Rightarrow> cpp_error + 'b" where
  "bindE (Inl e) f = Inl e"
| "bindE (Inr x) f = f x"

text \<open>\<open>size()\<close> of a string, deque or vector.\<close>

definition csize :: "'a list \<Rightarrow> size_t" where
  "csize xs = of_nat (length xs)"

text \<open>
  \<open>std::string::substr(pos, n)\<close>: throws if \<open>pos > size()\<close>, and otherwise returns the
  \<open>min(n, size() - pos)\<close> characters from \<open>pos\<close> on. With one argument \<open>n\<close> is \<open>npos\<close>.
\<close>

definition npos :: size_t where
  "npos = - 1"

definition substr :: "bytes \<Rightarrow> size_t \<Rightarrow> size_t \<Rightarrow> cpp_error + bytes" where
  "substr s pos n =
     (if csize s < pos then Inl (OutOfRange ''basic_string::substr'')
      else Inr (take (unat (min n (csize s - pos))) (drop (unat pos) s)))"

definition substr_from :: "bytes \<Rightarrow> size_t \<Rightarrow> cpp_error + bytes" where
  "substr_from s pos = substr s pos npos"

text \<open>\<open>std::string::resize(n)\<close>: cut to n characters, or pad with zero characters.\<close>

definition resize :: "nat \<Rightarrow> bytes \<Rightarrow> bytes" where
  "resize n s = take n s @ replicate (n - length s) 0"

text \<open>The bytes \<open>[i, i + n)\<close> of a stream, the specification's view of a substring.\<close>

definition bslice :: "'a list \<Rightarrow> nat \<Rightarrow> nat \<Rightarrow> 'a list" where
  "bslice xs i n = take n (drop i xs)"

named_theorems word_nat \<comment> \<open>moves comparisons and arithmetic on words to \<open>nat\<close>\<close>

subsection \<open>Errors\<close>

lemma bindE_Inr [simp]: "bindE m Inr = m"
  by (cases m) auto

lemma bindE_cong:
  "m = m' \<Longrightarrow> (\<And>x. m' = Inr x \<Longrightarrow> f x = g x) \<Longrightarrow> bindE m f = bindE m' g"
  by (cases m') auto

lemma bindE_eq_Inr: "bindE m f = Inr y \<longleftrightarrow> (\<exists>x. m = Inr x \<and> f x = Inr y)"
  by (cases m) auto

subsection \<open>Lists\<close>

lemma take_min_length: "take (min k (length xs)) xs = take k xs"
  by (simp add: min_def)

lemma drop_min_length: "drop (min k (length xs)) xs = drop k xs"
  by (simp add: min_def)

subsection \<open>Words\<close>

lemma unat_lt_size [simp]: "unat (w :: 64 word) < 18446744073709551616"
  using unsigned_less [of w, where ?'a = nat] by simp

lemma unat_csize: "length xs < 2 ^ 64 \<Longrightarrow> unat (csize xs) = length xs"
  by (simp add: csize_def unat_of_nat)

lemma csize_Nil [simp]: "csize [] = 0"
  by (simp add: csize_def)

lemma csize_append: "csize (xs @ ys) = csize xs + csize ys"
  by (simp add: csize_def)

lemma csize_Cons: "csize (x # xs) = 1 + csize xs"
  by (simp add: csize_def)

lemma unat_csize_le: "unat (csize xs) \<le> length xs"
  by (simp add: csize_def unat_of_nat)

lemma unat_plus_nowrap:
  "unat (a :: 64 word) + unat b < 2 ^ 64 \<Longrightarrow> unat (a + b) = unat a + unat b"
  by (simp add: unat_word_ariths)

lemma unat_add_csize:
  "unat (k :: 64 word) + length xs < 2 ^ 64 \<Longrightarrow> unat (k + csize xs) = unat k + length xs"
  by (simp add: csize_def unat_word_ariths unat_of_nat)

lemma unat_minus_le:
  "(b :: 64 word) \<le> a \<Longrightarrow> unat (a - b) = unat a - unat b"
  by (rule unat_sub)

lemma unat_minus_nat:
  "unat (b :: 64 word) \<le> unat a \<Longrightarrow> unat (a - b) = unat a - unat b"
  by (rule unat_sub) (simp add: word_le_nat_alt)

lemma unat_Suc_lt: "(i :: 64 word) < n \<Longrightarrow> unat (i + 1) = Suc (unat i)"
proof -
  assume "i < n"
  then have "unat i < unat n" by (simp add: word_less_nat_alt)
  then have "unat i + 1 < 18446744073709551616" using unat_lt_size [of n] by linarith
  then show ?thesis by (simp add: unat_word_ariths)
qed

lemma unat_min: "unat (min a b) = min (unat a) (unat (b :: 64 word))"
  by (simp add: min_def word_le_nat_alt)

lemmas word_cmp_nat [word_nat] = word_less_nat_alt word_le_nat_alt
declare unat_csize [word_nat] unat_add_csize [word_nat] unat_minus_nat [word_nat]
  unat_plus_nowrap [word_nat] unat_min [word_nat]

subsection \<open>Substrings and slices\<close>

lemma length_slice: "i + n \<le> length xs \<Longrightarrow> length (bslice xs i n) = n"
  by (simp add: bslice_def)

lemma slice_0 [simp]: "bslice xs i 0 = []"
  by (simp add: bslice_def)

lemma slice_all [simp]: "bslice xs 0 (length xs) = xs"
  by (simp add: bslice_def)

lemma slice_append:
  "bslice xs i m @ bslice xs (i + m) n = bslice xs i (m + n)"
  by (simp add: bslice_def take_add add.commute)

lemma take_slice: "take m (bslice xs i n) = bslice xs i (min m n)"
  by (simp add: bslice_def min.commute)

lemma drop_slice: "drop m (bslice xs i n) = bslice xs (i + m) (n - m)"
  by (simp add: bslice_def drop_take add.commute)

lemma slice_slice: "i' + n' \<le> n \<Longrightarrow> bslice (bslice xs i n) i' n' = bslice xs (i + i') n'"
  by (simp add: bslice_def drop_take add.commute min_def)

lemma substr_Inr:
  assumes "length s < 2 ^ 64" and "unat pos \<le> length s"
  shows "substr s pos n = Inr (take (unat n) (drop (unat pos) s))"
proof -
  have len: "unat (csize s) = length s" using assms(1) by (rule unat_csize)
  have "\<not> csize s < pos" using assms(2) len by (simp add: word_less_nat_alt)
  moreover have "take (unat (min n (csize s - pos))) (drop (unat pos) s)
      = take (unat n) (drop (unat pos) s)"
    using assms(2) len
    by (cases "n \<le> csize s - pos") (auto simp: min_def unat_minus_nat word_le_nat_alt)
  ultimately show ?thesis by (simp add: substr_def)
qed

lemma substr_from_Inr:
  assumes "length s < 2 ^ 64" and "unat pos \<le> length s"
  shows "substr_from s pos = Inr (drop (unat pos) s)"
proof -
  have "length s \<le> unat npos" using assms(1) by (simp add: npos_def unsigned_minus_1_eq_mask mask_eq_exp_minus_1)
  then show ?thesis using assms by (simp add: substr_from_def substr_Inr)
qed

end
