(* ===== verification/Byte_Stream.thy ===== *)
theory Byte_Stream
  imports Sponge_Prelude
begin

text \<open>
  \<open>ByteStream\<close> (libsponge/byte_stream.hh, byte_stream.cc): the bounded in-order byte stream that
  carries application data into the sender and out of the receiver. The record has the private
  members of the class; the loops of \<open>write\<close> and \<open>pop_output\<close> are kept as loops and proved equal
  to a closed form. \<open>peek_output\<close> and \<open>pop_output\<close> have undefined behaviour when asked for more
  bytes than are buffered; \<open>read\<close> is proved never to reach it.
\<close>

record ByteStream =
  bts :: bytes
  b_size :: size_t
  read_count :: size_t
  write_count :: size_t
  end_flag :: bool
  bs_error :: bool

definition ByteStream_new :: "size_t \<Rightarrow> ByteStream" where
  "ByteStream_new capacity =
     \<lparr>bts = [], b_size = capacity, read_count = 0, write_count = 0, end_flag = False,
      bs_error = False\<rparr>"

definition set_error :: "ByteStream \<Rightarrow> ByteStream" where
  "set_error s = s\<lparr>bs_error := True\<rparr>"

definition error_of :: "ByteStream \<Rightarrow> bool" where
  "error_of s = bs_error s"

definition end_input :: "ByteStream \<Rightarrow> ByteStream" where
  "end_input s = s\<lparr>end_flag := True\<rparr>"

definition input_ended :: "ByteStream \<Rightarrow> bool" where
  "input_ended s = end_flag s"

definition buffer_size :: "ByteStream \<Rightarrow> size_t" where
  "buffer_size s = csize (bts s)"

definition buffer_empty :: "ByteStream \<Rightarrow> bool" where
  "buffer_empty s = (bts s = [])"

definition eof :: "ByteStream \<Rightarrow> bool" where
  "eof s = (end_flag s \<and> buffer_empty s)"

definition bytes_written :: "ByteStream \<Rightarrow> size_t" where
  "bytes_written s = write_count s"

definition bytes_read :: "ByteStream \<Rightarrow> size_t" where
  "bytes_read s = read_count s"

definition remaining_capacity :: "ByteStream \<Rightarrow> size_t" where
  "remaining_capacity s = b_size s - csize (bts s)"

text \<open>
  The \<open>while\<close> loop of \<open>write\<close>: \<open>i\<close> runs from 0 to \<open>len\<close>, one \<open>push_back(data[i])\<close> each time. The
  caller passes \<open>len \<le> data.size()\<close>, so \<open>data[i]\<close> is always in range.
\<close>

function write_loop :: "bytes \<Rightarrow> size_t \<Rightarrow> size_t \<Rightarrow> ByteStream \<Rightarrow> ByteStream" where
  "write_loop data i len s =
     (if i < len
      then write_loop data (i + 1) len
             (s\<lparr>bts := bts s @ [data ! unat i], write_count := write_count s + 1\<rparr>)
      else s)"
  by pat_completeness auto
termination
  by (relation "measure (\<lambda>(data, i, len, s). unat len - unat i)")
    (auto simp: unat_Suc_lt word_less_nat_alt)

definition ByteStream_write :: "bytes \<Rightarrow> ByteStream \<Rightarrow> size_t \<times> ByteStream" where
  "ByteStream_write data s =
     (let rem = remaining_capacity s;
          len = csize data;
          len = (if len > rem then rem else len)
      in (len, write_loop data 0 len s))"

definition peek_output :: "size_t \<Rightarrow> ByteStream \<Rightarrow> cpp_error + bytes" where
  "peek_output len s =
     (if csize (bts s) < len then Inl (UndefinedBehaviour ''deque iterator past the end'')
      else Inr (take (unat len) (bts s)))"

function pop_loop :: "size_t \<Rightarrow> size_t \<Rightarrow> ByteStream \<Rightarrow> cpp_error + ByteStream" where
  "pop_loop i len s =
     (if i < len
      then (case bts s of
              [] \<Rightarrow> Inl (UndefinedBehaviour ''pop_front on an empty deque'')
            | _ # q \<Rightarrow> pop_loop (i + 1) len (s\<lparr>bts := q, read_count := read_count s + 1\<rparr>))
      else Inr s)"
  by pat_completeness auto
termination
  by (relation "measure (\<lambda>(i, len, s). unat len - unat i)")
    (auto simp: unat_Suc_lt word_less_nat_alt)

definition pop_output :: "size_t \<Rightarrow> ByteStream \<Rightarrow> cpp_error + ByteStream" where
  "pop_output len s = pop_loop 0 len s"

definition ByteStream_read :: "size_t \<Rightarrow> ByteStream \<Rightarrow> cpp_error + (bytes \<times> ByteStream)" where
  "ByteStream_read len s =
     (let length = (if len > buffer_size s then buffer_size s else len)
      in bindE (peek_output length s) (\<lambda>str.
         bindE (pop_output length s) (\<lambda>s'. Inr (str, s'))))"

declare write_loop.simps [simp del] pop_loop.simps [simp del]

subsection \<open>The loops in closed form\<close>

lemma write_loop_eq:
  assumes "i \<le> len" and "unat len \<le> length data"
  shows "write_loop data i len s =
           s\<lparr>bts := bts s @ bslice data (unat i) (unat len - unat i),
             write_count := write_count s + (len - i)\<rparr>"
  using assms
proof (induction data i len s rule: write_loop.induct)
  case (1 data i len s)
  show ?case
  proof (cases "i < len")
    case True
    have i1: "unat (i + 1) = Suc (unat i)" using True by (rule unat_Suc_lt)
    have le: "i + 1 \<le> len" using True i1 by (simp add: word_less_nat_alt word_le_nat_alt)
    have lt: "unat i < length data" "unat i < unat len"
      using True "1.prems"(2) by (simp_all add: word_less_nat_alt)
    have "bslice data (unat i) (unat len - unat i) =
        data ! unat i # bslice data (Suc (unat i)) (unat len - Suc (unat i))"
      using lt by (simp add: bslice_def Cons_nth_drop_Suc [symmetric] Suc_diff_Suc [symmetric])
    then show ?thesis
      using "1.IH" [OF True le "1.prems"(2)] True i1
      by (simp add: write_loop.simps [of data i len s])
  next
    case False
    then have "i = len" using "1.prems"(1) by simp
    then show ?thesis by (subst write_loop.simps) simp
  qed
qed

lemma pop_loop_eq:
  assumes "i \<le> len" and "unat len - unat i \<le> length (bts s)"
  shows "pop_loop i len s =
           Inr (s\<lparr>bts := drop (unat len - unat i) (bts s),
                  read_count := read_count s + (len - i)\<rparr>)"
  using assms
proof (induction i len s rule: pop_loop.induct)
  case (1 i len s)
  show ?case
  proof (cases "i < len")
    case True
    have i1: "unat (i + 1) = Suc (unat i)" using True by (rule unat_Suc_lt)
    have le: "i + 1 \<le> len" using True i1 by (simp add: word_less_nat_alt word_le_nat_alt)
    have lt: "unat i < unat len" using True by (simp add: word_less_nat_alt)
    then obtain x q where q: "bts s = x # q"
      using "1.prems"(2) by (cases "bts s") auto
    have "drop (unat len - unat i) (bts s) = drop (unat len - Suc (unat i)) q"
      using lt q by (simp add: drop_Cons' )
    then show ?thesis
      using "1.IH" [OF True q le] "1.prems"(2) True i1 q lt
      by (simp add: pop_loop.simps [of i len s])
  next
    case False
    then have "i = len" using "1.prems"(1) by simp
    then show ?thesis by (subst pop_loop.simps) simp
  qed
qed

subsection \<open>The invariant and the behaviour of every operation\<close>

text \<open>
  The stream never holds more than its capacity, and the two counters differ by what is buffered
  (modulo \<open>2\<^sup>6\<^sup>4\<close>, as the counters themselves wrap).
\<close>

definition bs_inv :: "ByteStream \<Rightarrow> bool" where
  "bs_inv s \<longleftrightarrow> length (bts s) \<le> unat (b_size s) \<and> write_count s = read_count s + csize (bts s)"

abbreviation bs_room :: "ByteStream \<Rightarrow> nat" where
  "bs_room s \<equiv> unat (b_size s) - length (bts s)"

lemma bs_inv_length: "bs_inv s \<Longrightarrow> length (bts s) \<le> unat (b_size s)"
  by (simp add: bs_inv_def)

lemma bs_inv_lt: "bs_inv s \<Longrightarrow> length (bts s) < 18446744073709551616"
  unfolding bs_inv_def using unat_lt_size [of "b_size s"] by linarith

lemma unat_buffer_size: "bs_inv s \<Longrightarrow> unat (buffer_size s) = length (bts s)"
  using bs_inv_lt [of s] by (simp add: buffer_size_def unat_csize)

lemma unat_remaining_capacity: "bs_inv s \<Longrightarrow> unat (remaining_capacity s) = bs_room s"
  using bs_inv_lt [of s]
  by (simp add: remaining_capacity_def bs_inv_def unat_csize unat_minus_nat)

lemma ByteStream_write_eq:
  assumes "bs_inv s" and "length data < 2 ^ 64"
  shows "ByteStream_write data s =
    (of_nat (min (length data) (bs_room s)),
     s\<lparr>bts := bts s @ take (bs_room s) data,
       write_count := write_count s + of_nat (min (length data) (bs_room s))\<rparr>)"
proof -
  define len where "len = (if csize data > remaining_capacity s then remaining_capacity s else csize data)"
  have len: "unat len = min (length data) (bs_room s)"
    using assms by (auto simp: len_def word_less_nat_alt unat_csize unat_remaining_capacity min_def)
  have "write_loop data 0 len s =
      s\<lparr>bts := bts s @ bslice data 0 (unat len), write_count := write_count s + len\<rparr>"
    using len by (simp add: write_loop_eq)
  moreover have "bslice data 0 (unat len) = take (bs_room s) data"
    by (simp add: len bslice_def min_def)
  moreover have "len = of_nat (min (length data) (bs_room s))"
    by (simp add: len [symmetric])
  ultimately show ?thesis
    by (simp add: ByteStream_write_def Let_def len_def [symmetric])
qed

lemma ByteStream_read_eq:
  assumes "bs_inv s"
  shows "ByteStream_read len s =
    Inr (take (unat len) (bts s),
      s\<lparr>bts := drop (unat len) (bts s),
        read_count := read_count s + of_nat (min (unat len) (length (bts s)))\<rparr>)"
proof -
  define n where "n = (if len > buffer_size s then buffer_size s else len)"
  have n: "unat n = min (unat len) (length (bts s))"
    using assms by (auto simp: n_def word_less_nat_alt unat_buffer_size min_def)
  have "peek_output n s = Inr (take (unat len) (bts s))"
    using n bs_inv_lt [OF assms]
    by (auto simp: peek_output_def word_less_nat_alt unat_csize min_def split: if_splits)
  moreover have "pop_output n s =
      Inr (s\<lparr>bts := drop (unat n) (bts s), read_count := read_count s + n\<rparr>)"
    using n by (simp add: pop_output_def pop_loop_eq)
  moreover have "drop (unat n) (bts s) = drop (unat len) (bts s)"
    by (auto simp: n min_def)
  moreover have "n = of_nat (min (unat len) (length (bts s)))"
    by (simp add: n [symmetric])
  ultimately show ?thesis
    by (simp add: ByteStream_read_def Let_def n_def [symmetric])
qed

text \<open>Whatever the state, a read that returns takes what it returns from the buffer.\<close>

lemma pop_loop_length:
  "pop_loop i len s = Inr s' \<Longrightarrow> i \<le> len \<Longrightarrow> length (bts s') + (unat len - unat i) = length (bts s)"
proof (induction i len s rule: pop_loop.induct)
  case (1 i len s)
  show ?case
  proof (cases "i < len")
    case True
    have i1: "unat (i + 1) = Suc (unat i)" using True by (rule unat_Suc_lt)
    then have le: "i + 1 \<le> len" using True by (simp add: word_less_nat_alt word_le_nat_alt)
    obtain x q where q: "bts s = x # q"
      using "1.prems"(1) True by (cases "bts s") (auto simp: pop_loop.simps [of i len s])
    then show ?thesis
      using "1.IH" [OF True q _ le] "1.prems"(1) True i1
      by (auto simp: pop_loop.simps [of i len s] word_less_nat_alt)
  next
    case False
    then have "pop_loop i len s = Inr s" by (subst pop_loop.simps) simp
    then show ?thesis using "1.prems" False by simp
  qed
qed

lemma read_shrinks:
  assumes "ByteStream_read n s = Inr (x, s')"
  shows "length (bts s') \<le> length (bts s)" "x \<noteq> [] \<Longrightarrow> length (bts s') < length (bts s)"
proof -
  define m where "m = (if n > buffer_size s then buffer_size s else n)"
  have "peek_output m s = Inr x" "pop_loop 0 m s = Inr s'"
    using assms by (auto simp: ByteStream_read_def Let_def m_def pop_output_def bindE_eq_Inr)
  then have "x = take (unat m) (bts s)" "length (bts s') + unat m = length (bts s)"
    using pop_loop_length [of 0 m s s'] by (auto simp: peek_output_def split: if_splits)
  then show "length (bts s') \<le> length (bts s)" "x \<noteq> [] \<Longrightarrow> length (bts s') < length (bts s)"
    by auto
qed

lemma bs_inv_new [simp]: "bs_inv (ByteStream_new capacity)"
  by (simp add: bs_inv_def ByteStream_new_def)

lemma bs_inv_write:
  assumes "bs_inv s" and "length data < 2 ^ 64"
  shows "bs_inv (snd (ByteStream_write data s))"
  using assms by (auto simp: ByteStream_write_eq bs_inv_def csize_def min_def)

lemma bs_inv_end_input [simp]: "bs_inv (end_input s) = bs_inv s"
  by (simp add: end_input_def bs_inv_def)

lemma bs_inv_read:
  assumes "bs_inv s" and "ByteStream_read len s = Inr (d, s')"
  shows "bs_inv s'"
  using assms by (auto simp: ByteStream_read_eq bs_inv_def csize_def min_def)

text \<open>Reading and writing leave the error flag alone.\<close>

lemma write_loop_error: "bs_error (write_loop data i len s) = bs_error s"
proof (induction data i len s rule: write_loop.induct)
  case (1 data i len s)
  then show ?case by (cases "i < len") (simp_all add: write_loop.simps [of data i len s])
qed

lemma pop_loop_error: "pop_loop i len s = Inr s' \<Longrightarrow> bs_error s' = bs_error s"
proof (induction i len s rule: pop_loop.induct)
  case (1 i len s)
  then show ?case
    by (cases "i < len"; cases "bts s") (auto simp: pop_loop.simps [of i len s])
qed

lemma write_error [simp]: "bs_error (snd (ByteStream_write data s)) = bs_error s"
  by (simp add: ByteStream_write_def Let_def write_loop_error)

lemma read_error: "ByteStream_read n s = Inr (x, s') \<Longrightarrow> bs_error s' = bs_error s"
  by (auto simp: ByteStream_read_def Let_def bindE_eq_Inr pop_output_def pop_loop_error)

subsection \<open>The interface its clients rely on\<close>

text \<open>
  A byte channel accepts as much of a string as fits, in order, and hands back its oldest bytes on
  request. The run of a client is a list of operations; it yields the bytes the channel accepted,
  the bytes it delivered, and the final state.
\<close>

datatype chan_op = Put bytes | Get size_t

fun chan_run :: "(bytes \<Rightarrow> 's \<Rightarrow> size_t \<times> 's) \<Rightarrow> (size_t \<Rightarrow> 's \<Rightarrow> cpp_error + (bytes \<times> 's)) \<Rightarrow>
    chan_op list \<Rightarrow> 's \<Rightarrow> cpp_error + (bytes \<times> bytes \<times> 's)" where
  "chan_run put get [] s = Inr ([], [], s)"
| "chan_run put get (Put d # ops) s =
     (let (n, s') = put d s
      in bindE (chan_run put get ops s') (\<lambda>(a, r, t). Inr (take (unat n) d @ a, r, t)))"
| "chan_run put get (Get n # ops) s =
     bindE (get n s) (\<lambda>(d, s').
       bindE (chan_run put get ops s') (\<lambda>(a, r, t). Inr (a, d @ r, t)))"

definition op_fits :: "chan_op \<Rightarrow> bool" where
  "op_fits x = (case x of Put d \<Rightarrow> length d < 2 ^ 64 | Get _ \<Rightarrow> True)"

locale byte_channel =
  fixes ok :: "'s \<Rightarrow> bool"
    and buf :: "'s \<Rightarrow> bytes"
    and cap :: "'s \<Rightarrow> nat"
    and put :: "bytes \<Rightarrow> 's \<Rightarrow> size_t \<times> 's"
    and get :: "size_t \<Rightarrow> 's \<Rightarrow> cpp_error + (bytes \<times> 's)"
  assumes ok_bound: "ok s \<Longrightarrow> length (buf s) \<le> cap s"
    and put_ok: "ok s \<Longrightarrow> length d < 2 ^ 64 \<Longrightarrow> ok (snd (put d s))"
    and put_cap: "ok s \<Longrightarrow> length d < 2 ^ 64 \<Longrightarrow> cap (snd (put d s)) = cap s"
    and put_count: "ok s \<Longrightarrow> length d < 2 ^ 64 \<Longrightarrow>
      unat (fst (put d s)) = min (length d) (cap s - length (buf s))"
    and put_buf: "ok s \<Longrightarrow> length d < 2 ^ 64 \<Longrightarrow>
      buf (snd (put d s)) = buf s @ take (cap s - length (buf s)) d"
    and get_returns: "ok s \<Longrightarrow> \<exists>s'. get n s = Inr (take (unat n) (buf s), s') \<and> ok s' \<and>
      cap s' = cap s \<and> buf s' = drop (unat n) (buf s)"
begin

lemma put_all:
  assumes "ok s" and "length d < 2 ^ 64" and "length (buf s) + length d \<le> cap s"
  shows "buf (snd (put d s)) = buf s @ d"
  using put_buf [OF assms(1,2)] assms(3) by simp

lemma run_conserves:
  assumes "ok s" and "list_all op_fits ops"
  shows "\<exists>a r t. chan_run put get ops s = Inr (a, r, t) \<and> ok t \<and> cap t = cap s \<and>
           buf s @ a = r @ buf t"
  using assms
proof (induction ops arbitrary: s)
  case Nil
  then show ?case by simp
next
  case (Cons x ops)
  show ?case
  proof (cases x)
    case (Put d)
    obtain n s' where ns: "put d s = (n, s')" by (cases "put d s")
    have d: "length d < 2 ^ 64" using Cons.prems(2) Put by (simp add: op_fits_def)
    have s': "ok s'" "cap s' = cap s" "buf s' = buf s @ take (unat n) d"
      using put_ok put_cap put_buf put_count Cons.prems(1) d ns
      by (metis snd_conv, metis snd_conv, metis fst_conv snd_conv take_take append_take_drop_id
            min.commute take_all nle_le)
    then obtain a r t where "chan_run put get ops s' = Inr (a, r, t)" "ok t" "cap t = cap s'"
        "buf s' @ a = r @ buf t"
      using Cons.IH [of s'] Cons.prems(2) by auto
    with s' Put ns show ?thesis by auto
  next
    case (Get n)
    obtain s' where g: "get n s = Inr (take (unat n) (buf s), s')" "ok s'" "cap s' = cap s"
        "buf s' = drop (unat n) (buf s)"
      using get_returns Cons.prems(1) by blast
    then obtain a r t where "chan_run put get ops s' = Inr (a, r, t)" "ok t" "cap t = cap s'"
        "buf s' @ a = r @ buf t"
      using Cons.IH [of s'] Cons.prems(2) by auto
    moreover from this g have "buf s @ a = take (unat n) (buf s) @ r @ buf t"
      by (metis append_assoc append_take_drop_id)
    ultimately show ?thesis using g Get by auto
  qed
qed

end

lemma unat_write_count:
  assumes "bs_inv s" and "length d < 2 ^ 64"
  shows "unat (fst (ByteStream_write d s)) = min (length d) (bs_room s)"
  using assms by (simp add: ByteStream_write_eq unat_of_nat)

interpretation bs: byte_channel bs_inv bts "\<lambda>s. unat (b_size s)" ByteStream_write ByteStream_read
proof unfold_locales
  show "\<exists>s'. ByteStream_read n s = Inr (take (unat n) (bts s), s') \<and> bs_inv s' \<and>
      unat (b_size s') = unat (b_size s) \<and> bts s' = drop (unat n) (bts s)"
    if "bs_inv s" for s n
    using that bs_inv_read [OF that ByteStream_read_eq [OF that, of n]]
    by (simp add: ByteStream_read_eq)
qed (simp_all add: bs_inv_write unat_write_count, simp_all add: ByteStream_write_eq bs_inv_def)

subsection \<open>Properties\<close>

text \<open>
  (C23) A byte stream is a lossless bounded FIFO. Whatever sequence of writes and reads a client
  performs, no operation fails, and what was buffered at the start followed by every byte the
  stream accepted equals every byte it delivered followed by what it still buffers; the buffer
  never exceeds the capacity, and the capacity never changes.
\<close>

theorem bytestream_fifo:
  assumes "bs_inv s" and "list_all op_fits ops"
  shows "\<exists>a r t. chan_run ByteStream_write ByteStream_read ops s = Inr (a, r, t) \<and>
           bts s @ a = r @ bts t \<and> length (bts t) \<le> unat (b_size t) \<and>
           unat (b_size t) = unat (b_size s)"
  using bs.run_conserves [OF assms] bs.ok_bound by blast

theorem bytestream_fifo_witness:
  "\<exists>a r t. chan_run ByteStream_write ByteStream_read [Put [1, 2, 3], Get 2, Put [4]]
      (ByteStream_new 2) = Inr (a, r, t) \<and>
     bts (ByteStream_new 2) @ a = r @ bts t \<and> length (bts t) \<le> unat (b_size t) \<and>
     unat (b_size t) = unat (b_size (ByteStream_new 2))"
  by (rule bytestream_fifo) (simp_all add: op_fits_def)

text \<open>
  \<open>write\<close> accepts the longest prefix of the data that fits, appends it to the buffer,
  advances \<open>bytes_written\<close> by its length and returns that length; nothing else changes. The byte
  loop of the code is equal to this closed form.
\<close>

theorem bytestream_write_spec:
  assumes "bs_inv s" and "length data < 2 ^ 64"
  shows "ByteStream_write data s =
    (let n = min (length data) (unat (remaining_capacity s))
     in (of_nat n, s\<lparr>bts := bts s @ take n data, write_count := write_count s + of_nat n\<rparr>))"
proof -
  have "take (bs_room s) data = take (min (length data) (bs_room s)) data"
    by (simp add: min_def)
  then show ?thesis
    using assms by (simp add: ByteStream_write_eq unat_remaining_capacity Let_def)
qed

theorem bytestream_write_spec_witness:
  "ByteStream_write [1, 2, 3] (ByteStream_new 2) =
    (let n = min (length [1, 2, 3 :: byte]) (unat (remaining_capacity (ByteStream_new 2)))
     in (of_nat n, (ByteStream_new 2)\<lparr>bts := bts (ByteStream_new 2) @ take n [1, 2, 3],
           write_count := write_count (ByteStream_new 2) + of_nat n\<rparr>))"
  by (rule bytestream_write_spec) simp_all

text \<open>
  \<open>read(len)\<close> never runs into the undefined behaviour of \<open>peek_output\<close> and \<open>pop_output\<close>: it
  returns the first \<open>min(len, buffer_size())\<close> bytes, removes exactly those, and keeps the
  invariant, in particular \<open>bytes_written - bytes_read = buffer_size\<close>.
\<close>

theorem bytestream_read_spec:
  assumes "bs_inv s"
  shows "\<exists>s'. ByteStream_read len s = Inr (take (unat len) (bts s), s') \<and>
           bts s' = drop (unat len) (bts s) \<and> bs_inv s' \<and>
           bytes_written s' - bytes_read s' = buffer_size s' \<and>
           bytes_read s' = bytes_read s + of_nat (min (unat len) (length (bts s))) \<and>
           bytes_written s' = bytes_written s"
proof -
  have "bs_inv s'" if "ByteStream_read len s = Inr (take (unat len) (bts s), s')" for s'
    using bs_inv_read [OF assms that] .
  then show ?thesis
    using ByteStream_read_eq [OF assms, of len]
    by (auto simp: bytes_written_def bytes_read_def buffer_size_def bs_inv_def)
qed

theorem bytestream_read_spec_witness:
  "\<exists>s'. ByteStream_read 5 (snd (ByteStream_write [7, 8] (ByteStream_new 4))) =
      Inr (take (unat (5 :: size_t)) (bts (snd (ByteStream_write [7, 8] (ByteStream_new 4)))), s')"
  using bytestream_read_spec [OF bs_inv_write [OF bs_inv_new [of 4], of "[7, 8]"], of 5] by auto

text \<open>
  The header says that after \<open>end_input\<close> no more bytes can be written. The code does not
  enforce it: \<open>write\<close> never looks at the end flag, so on a stream whose input has ended it accepts
  exactly the bytes it would have accepted before.
\<close>

theorem write_ignores_end_input:
  "fst (ByteStream_write data (end_input s)) = fst (ByteStream_write data s) \<and>
   fst (ByteStream_write [1] (end_input (ByteStream_new 1))) = 1 \<and>
   input_ended (snd (ByteStream_write [1] (end_input (ByteStream_new 1))))"
  by (simp add: ByteStream_write_def remaining_capacity_def end_input_def ByteStream_new_def
      Let_def csize_def write_loop.simps input_ended_def)

end
