(* ===== verification/Std_Map.thy ===== *)
theory Std_Map
  imports Sponge_Prelude
begin

text \<open>
  \<open>std::map<K, V>\<close> as the sources use it: the reassembler keeps its out-of-order substrings in
  one, the sender its unacknowledged segments. A map is the list of its pairs in key order, which
  is the order in which an iterator visits them; \<open>insert\<close> leaves an existing key alone,
  \<open>operator[]\<close> with an assignment replaces it.
\<close>

type_synonym ('k, 'v) std_map = "('k \<times> 'v) list"

definition map_find :: "'k \<Rightarrow> ('k, 'v) std_map \<Rightarrow> 'v option" where
  "map_find k m = map_of m k"

fun map_insert :: "'k::linorder \<Rightarrow> 'v \<Rightarrow> ('k, 'v) std_map \<Rightarrow> ('k, 'v) std_map" where
  "map_insert k v [] = [(k, v)]"
| "map_insert k v ((a, b) # m) =
     (if k < a then (k, v) # (a, b) # m
      else if a < k then (a, b) # map_insert k v m
      else (a, b) # m)"

fun map_assign :: "'k::linorder \<Rightarrow> 'v \<Rightarrow> ('k, 'v) std_map \<Rightarrow> ('k, 'v) std_map" where
  "map_assign k v [] = [(k, v)]"
| "map_assign k v ((a, b) # m) =
     (if k < a then (k, v) # (a, b) # m
      else if a < k then (a, b) # map_assign k v m
      else (k, v) # m)"

definition key_sorted :: "('k::linorder, 'v) std_map \<Rightarrow> bool" where
  "key_sorted m = sorted_wrt (<) (map fst m)"

text \<open>
  The contract of an ordered map, over any representation \<open>'m\<close>: what a lookup returns after each
  update, and that the entries an iterator visits are the entries a lookup finds, by rising key.
\<close>

locale ordered_map =
  fixes find :: "'k::linorder \<Rightarrow> 'm \<Rightarrow> 'v option"
    and insert_new :: "'k \<Rightarrow> 'v \<Rightarrow> 'm \<Rightarrow> 'm"
    and assign :: "'k \<Rightarrow> 'v \<Rightarrow> 'm \<Rightarrow> 'm"
    and elems :: "'m \<Rightarrow> ('k \<times> 'v) list"
    and ok :: "'m \<Rightarrow> bool"
  assumes find_insert_new: "ok m \<Longrightarrow>
      find k (insert_new k' v m) = (if k = k' \<and> find k m = None then Some v else find k m)"
    and find_assign: "ok m \<Longrightarrow> find k (assign k' v m) = (if k = k' then Some v else find k m)"
    and ok_insert_new: "ok m \<Longrightarrow> ok (insert_new k v m)"
    and ok_assign: "ok m \<Longrightarrow> ok (assign k v m)"
    and elems_find: "ok m \<Longrightarrow> (k, v) \<in> set (elems m) \<longleftrightarrow> find k m = Some v"
    and elems_sorted: "ok m \<Longrightarrow> sorted_wrt (<) (map fst (elems m))"
begin

lemma elems_insert_new:
  assumes "ok m" and "find k m = None"
  shows "set (elems (insert_new k v m)) = insert (k, v) (set (elems m))"
proof -
  have "(a, b) \<in> set (elems (insert_new k v m)) \<longleftrightarrow> (a, b) \<in> insert (k, v) (set (elems m))" for a b
    using assms by (auto simp: elems_find ok_insert_new find_insert_new split: if_splits)
  then show ?thesis by auto
qed

lemma elems_assign:
  assumes "ok m"
  shows "set (elems (assign k v m)) = insert (k, v) {e \<in> set (elems m). fst e \<noteq> k}"
proof -
  have "(a, b) \<in> set (elems (assign k v m)) \<longleftrightarrow>
      (a, b) \<in> insert (k, v) {e \<in> set (elems m). fst e \<noteq> k}" for a b
    using assms by (auto simp: elems_find ok_assign find_assign split: if_splits)
  then show ?thesis by auto
qed

text \<open>
  The update the reassembler performs: keep the better of the old and the new value under a key.
  Whatever \<open>better\<close> means, the result holds the new value or one at least as good, and every
  other entry is untouched.
\<close>

lemma elems_keep_better:
  assumes "ok m"
    and m': "m' = (case find k m of Some w \<Rightarrow> (if better v w then assign k v m else m)
                   | None \<Rightarrow> insert_new k v m)"
  shows "ok m'"
    and "set (elems m') \<subseteq> insert (k, v) (set (elems m))"
    and "e \<in> set (elems m) \<Longrightarrow> e \<in> set (elems m') \<or> (fst e = k \<and> better v (snd e) \<and> (k, v) \<in> set (elems m'))"
    and "(k, v) \<in> set (elems m') \<or> (\<exists>w. (k, w) \<in> set (elems m) \<and> (k, w) \<in> set (elems m') \<and> \<not> better v w)"
proof -
  show "ok m'"
    using assms by (auto simp: ok_assign ok_insert_new split: option.splits)
  show "set (elems m') \<subseteq> insert (k, v) (set (elems m))"
    using assms by (auto simp: elems_insert_new elems_assign split: option.splits if_splits)
  show "e \<in> set (elems m') \<or> (fst e = k \<and> better v (snd e) \<and> (k, v) \<in> set (elems m'))"
    if "e \<in> set (elems m)"
    using assms that elems_find [OF assms(1), of "fst e" "snd e"]
    by (auto simp: elems_insert_new elems_assign split: option.splits)
  show "(k, v) \<in> set (elems m') \<or> (\<exists>w. (k, w) \<in> set (elems m) \<and> (k, w) \<in> set (elems m') \<and> \<not> better v w)"
    using assms by (auto simp: elems_insert_new elems_assign elems_find split: option.splits)
qed

end

subsection \<open>The list representation meets the contract\<close>

lemma key_sorted_Cons:
  "key_sorted ((k, v) # m) \<longleftrightarrow> (\<forall>e \<in> set m. k < fst e) \<and> key_sorted m"
  by (auto simp: key_sorted_def)

lemma key_sorted_Nil [simp]: "key_sorted []"
  by (simp add: key_sorted_def)

lemma set_map_insert:
  "set (map_insert k v m) \<subseteq> insert (k, v) (set m)"
  by (induction k v m rule: map_insert.induct) auto

lemma fst_map_insert: "e \<in> set (map_insert k v m) \<Longrightarrow> fst e = k \<or> e \<in> set m"
  using set_map_insert [of k v m] by auto

lemma key_sorted_map_insert: "key_sorted m \<Longrightarrow> key_sorted (map_insert k v m)"
  by (induction k v m rule: map_insert.induct)
    (auto simp: key_sorted_Cons dest!: fst_map_insert)

lemma set_map_assign:
  "set (map_assign k v m) \<subseteq> insert (k, v) (set m)"
  by (induction k v m rule: map_assign.induct) auto

lemma fst_map_assign: "e \<in> set (map_assign k v m) \<Longrightarrow> fst e = k \<or> e \<in> set m"
  using set_map_assign [of k v m] by auto

lemma key_sorted_map_assign: "key_sorted m \<Longrightarrow> key_sorted (map_assign k v m)"
  by (induction k v m rule: map_assign.induct)
    (auto simp: key_sorted_Cons dest!: fst_map_assign)

lemma map_insert_last: "\<forall>e \<in> set m. fst e < k \<Longrightarrow> map_insert k v m = m @ [(k, v)]"
  by (induction k v m rule: map_insert.induct) auto

lemma map_find_less:
  assumes "key_sorted ((a, b) # m)" and "k < a"
  shows "map_of m k = None"
proof -
  have "k \<notin> fst ` set m" using assms by (fastforce simp: key_sorted_Cons)
  then show ?thesis by (simp add: map_of_eq_None_iff)
qed

lemma map_find_insert:
  "key_sorted m \<Longrightarrow> map_find k (map_insert k' v m) =
     (if k = k' \<and> map_find k m = None then Some v else map_find k m)"
  by (induction k' v m rule: map_insert.induct)
    (auto simp: map_find_def key_sorted_Cons map_find_less)

lemma map_find_assign:
  "key_sorted m \<Longrightarrow> map_find k (map_assign k' v m) = (if k = k' then Some v else map_find k m)"
  by (induction k' v m rule: map_assign.induct)
    (auto simp: map_find_def key_sorted_Cons)

lemma key_sorted_distinct: "key_sorted m \<Longrightarrow> distinct (map fst m)"
  by (auto simp: key_sorted_def strict_sorted_iff)

lemma set_map_find: "key_sorted m \<Longrightarrow> (k, v) \<in> set m \<longleftrightarrow> map_find k m = Some v"
  by (simp add: map_find_def key_sorted_distinct)

interpretation smap: ordered_map map_find map_insert map_assign "\<lambda>m. m" key_sorted
  by unfold_locales
    (simp_all only: map_find_insert map_find_assign key_sorted_map_insert key_sorted_map_assign
       set_map_find, simp add: key_sorted_def)

lemma key_sorted_filter: "key_sorted m \<Longrightarrow> key_sorted (filter P m)"
  by (induction m) (auto simp: key_sorted_Cons)

end
