(* ===== verification/Stream_Reassembler.thy ===== *)
theory Stream_Reassembler
  imports Byte_Stream Std_Map
begin

text \<open>
  \<open>StreamReassembler\<close> (libsponge/stream_reassembler.hh, stream_reassembler.cc): accepts substrings
  of a stream in any order, with overlaps and duplicates, and writes the contiguous prefix into its
  \<open>ByteStream\<close>. The two \<open>for\<close> loops of \<open>push_substring\<close> over the \<open>std::map\<close> are the recursive
  functions \<open>reassemble_loop\<close> (write what has become contiguous, erase it, stop at the first gap)
  and \<open>tidy_loop\<close> (merge the entries that overlap). Positions are 64-bit words, as in the code.
\<close>

record StreamReassembler =
  sr_output :: ByteStream
  sr_capacity :: size_t
  read_ptr :: size_t
  write_ptr :: size_t
  eof_index :: size_t
  eof_f :: bool
  sr_stream :: "(size_t, bytes) std_map"

definition StreamReassembler_new :: "size_t \<Rightarrow> StreamReassembler" where
  "StreamReassembler_new capacity =
     \<lparr>sr_output = ByteStream_new capacity, sr_capacity = capacity, read_ptr = 0, write_ptr = 0,
      eof_index = capacity, eof_f = False, sr_stream = []\<rparr>"

fun reassemble_loop :: "(size_t, bytes) std_map \<Rightarrow> size_t \<Rightarrow> ByteStream \<Rightarrow>
    cpp_error + ((size_t, bytes) std_map \<times> size_t \<times> ByteStream)" where
  "reassemble_loop [] wp out = Inr ([], wp, out)"
| "reassemble_loop ((k, d) # m) wp out =
     (if k \<le> wp then
        if k + csize d > wp then
          bindE (substr_from d (wp - k)) (\<lambda>write_data.
            reassemble_loop m (k + csize d) (snd (ByteStream_write write_data out)))
        else
          bindE (reassemble_loop m wp out) (\<lambda>(m', wp', out'). Inr ((k, d) # m', wp', out'))
      else Inr ((k, d) # m, wp, out))"

text \<open>\<open>tidy_loop old m\<close>: \<open>old\<close> is the entry of \<open>old_it\<close>, \<open>m\<close> what \<open>iter\<close> still has to visit.\<close>

fun tidy_loop :: "size_t \<times> bytes \<Rightarrow> (size_t, bytes) std_map \<Rightarrow>
    cpp_error + (size_t, bytes) std_map" where
  "tidy_loop old [] = Inr [old]"
| "tidy_loop (ok, od) ((k, d) # m) =
     (if k < ok + csize od then
        if k + csize d \<le> ok + csize od then tidy_loop (ok, od) m
        else bindE (substr_from d ((ok + csize od) - k)) (\<lambda>s. tidy_loop (ok, od @ s) m)
      else bindE (tidy_loop (k, d) m) (\<lambda>m'. Inr ((ok, od) # m')))"

fun tidy :: "(size_t, bytes) std_map \<Rightarrow> cpp_error + (size_t, bytes) std_map" where
  "tidy [] = Inr []"
| "tidy (e # m) = tidy_loop e m"

text \<open>
  The window: bytes from \<open>read_ptr + _capacity\<close> on are cut off, and the end of the stream is only
  recorded for a substring that was not cut. The subtraction wraps when \<open>index\<close> is beyond the
  window, in which case nothing is cut.
\<close>

definition sr_trim :: "bytes \<Rightarrow> uint64_t \<Rightarrow> bool \<Rightarrow> StreamReassembler \<Rightarrow>
    cpp_error + (bytes \<times> StreamReassembler)" where
  "sr_trim data index is_eof r =
     (let rp = bytes_read (sr_output r);
          r = r\<lparr>read_ptr := rp\<rparr>
      in if index + csize data > rp + sr_capacity r
         then bindE (substr data 0 (rp + sr_capacity r - index)) (\<lambda>ndata. Inr (ndata, r))
         else if is_eof then Inr (data, r\<lparr>eof_index := index + csize data, eof_f := True\<rparr>)
         else Inr (data, r))"

definition sr_store :: "uint64_t \<Rightarrow> bytes \<Rightarrow> (size_t, bytes) std_map \<Rightarrow> (size_t, bytes) std_map" where
  "sr_store index ndata m =
     (case map_find index m of
        Some old \<Rightarrow> (if csize ndata > csize old then map_assign index ndata m else m)
      | None \<Rightarrow> map_insert index ndata m)"

definition push_substring ::
    "bytes \<Rightarrow> uint64_t \<Rightarrow> bool \<Rightarrow> StreamReassembler \<Rightarrow> cpp_error + StreamReassembler" where
  "push_substring data index is_eof r =
     bindE (sr_trim data index is_eof r) (\<lambda>(ndata, r).
     bindE (reassemble_loop (sr_store index ndata (sr_stream r)) (write_ptr r) (sr_output r))
       (\<lambda>(m, wp, out).
     bindE (tidy m) (\<lambda>m.
       Inr (r\<lparr>sr_stream := m, write_ptr := wp,
              sr_output := (if wp = eof_index r \<and> eof_f r then end_input out else out)\<rparr>))))"

fun unassembled_loop :: "(size_t, bytes) std_map \<Rightarrow> size_t \<Rightarrow> size_t \<Rightarrow> size_t" where
  "unassembled_loop [] wp unassem = unassem"
| "unassembled_loop ((k, d) # m) wp unassem =
     unassembled_loop m wp (if k > wp then unassem + csize d else unassem)"

definition unassembled_bytes :: "StreamReassembler \<Rightarrow> size_t" where
  "unassembled_bytes r = unassembled_loop (sr_stream r) (write_ptr r) 0"

definition sr_empty :: "StreamReassembler \<Rightarrow> bool" where
  "sr_empty r = (unassembled_bytes r = 0)"

subsection \<open>No substring request is ever out of range\<close>

lemma word_gap:
  assumes "(k :: size_t) \<le> w" and "w < k + c"
  shows "w - k < c"
  using assms by unat_arith

lemma substr_from_ok: "pos \<le> csize s \<Longrightarrow> \<exists>t. substr_from s pos = Inr t"
  by (simp add: substr_from_def substr_def not_less [symmetric])

lemma reassemble_loop_total: "\<exists>x. reassemble_loop m wp out = Inr x"
proof (induction m wp out rule: reassemble_loop.induct)
  case (2 k d m wp out)
  show ?case
  proof (cases "k \<le> wp")
    case kwp: True
    show ?thesis
    proof (cases "k + csize d > wp")
      case True
      obtain t where t: "substr_from d (wp - k) = Inr t"
        using substr_from_ok word_gap [OF kwp True] by fastforce
      show ?thesis using "2.IH"(1) [OF kwp True, of t] kwp True t by auto
    next
      case False
      then show ?thesis using "2.IH"(2) [OF kwp False] kwp by auto
    qed
  qed simp
qed simp

lemma tidy_loop_total: "\<exists>x. tidy_loop old m = Inr x"
proof (induction old m rule: tidy_loop.induct)
  case (2 ok od k d m)
  show ?case
  proof (cases "k < ok + csize od")
    case over: True
    show ?thesis
    proof (cases "k + csize d \<le> ok + csize od")
      case False
      obtain t where t: "substr_from d ((ok + csize od) - k) = Inr t"
        using substr_from_ok word_gap [of k "ok + csize od" "csize d"] over False by fastforce
      show ?thesis using "2.IH"(2) [OF over False, of t] over False t by auto
    qed (use over "2.IH"(1) in auto)
  next
    case False
    then show ?thesis using "2.IH"(3) by auto
  qed
qed simp

lemma tidy_total: "\<exists>x. tidy m = Inr x"
  by (cases m) (auto simp: tidy_loop_total)

lemma substr_0_ok: "\<exists>t. substr s 0 n = Inr t"
  by (simp add: substr_def)

subsection \<open>Entries, coverage and the underlying stream\<close>

text \<open>
  All positions are read as natural numbers here. \<open>S\<close> is the stream the peer sends; an entry
  agrees with it if its bytes are the bytes of \<open>S\<close> at its position.
\<close>

abbreviation lo :: "size_t \<times> bytes \<Rightarrow> nat" where
  "lo e \<equiv> unat (fst e)"

abbreviation hi :: "size_t \<times> bytes \<Rightarrow> nat" where
  "hi e \<equiv> unat (fst e) + length (snd e)"

definition cov :: "(size_t, bytes) std_map \<Rightarrow> nat set" where
  "cov m = (\<Union>e \<in> set m. {lo e..<hi e})"

definition agrees :: "bytes \<Rightarrow> size_t \<times> bytes \<Rightarrow> bool" where
  "agrees S e \<longleftrightarrow> hi e \<le> length S \<and> snd e = bslice S (lo e) (length (snd e))"

text \<open>An entry is settled for the write pointer \<open>w\<close> if it is used up or lies beyond a gap.\<close>

definition settled :: "nat \<Rightarrow> size_t \<times> bytes \<Rightarrow> bool" where
  "settled w e \<longleftrightarrow> hi e \<le> w \<or> w < lo e"

definition separated :: "(size_t, bytes) std_map \<Rightarrow> bool" where
  "separated m = sorted_wrt (\<lambda>e f. hi e \<le> lo f) m"

text \<open>The output stream carries \<open>S\<close>: it buffers exactly what was written and not yet read.\<close>

definition carries :: "bytes \<Rightarrow> ByteStream \<Rightarrow> bool" where
  "carries S out \<longleftrightarrow> bs_inv out \<and> unat (read_count out) \<le> unat (write_count out) \<and>
     unat (write_count out) \<le> length S \<and>
     bts out = bslice S (unat (read_count out)) (unat (write_count out) - unat (read_count out))"

lemma cov_Nil [simp]: "cov [] = {}"
  by (simp add: cov_def)

lemma cov_Cons [simp]: "cov (e # m) = {lo e..<hi e} \<union> cov m"
  by (simp add: cov_def)

lemma cov_memI: "e \<in> set m \<Longrightarrow> lo e \<le> x \<Longrightarrow> x < hi e \<Longrightarrow> x \<in> cov m"
  by (auto simp: cov_def)

lemma end_input_simps [simp]:
  "carries S (end_input out) = carries S out" "write_count (end_input out) = write_count out"
  "read_count (end_input out) = read_count out" "b_size (end_input out) = b_size out"
  "bts (end_input out) = bts out" "end_flag (end_input out)"
  by (simp_all add: end_input_def carries_def bs_inv_def)

lemma carries_inv: "carries S out \<Longrightarrow> bs_inv out"
  by (simp add: carries_def)

lemma carries_le: "carries S out \<Longrightarrow> unat (write_count out) \<le> length S"
  by (simp add: carries_def)

lemma carries_length:
  "carries S out \<Longrightarrow> length (bts out) = unat (write_count out) - unat (read_count out)"
  by (auto simp: carries_def length_slice)

lemma carries_write:
  assumes c: "carries S out" and S: "length S < 2 ^ 64"
    and d: "d = bslice S (unat (write_count out)) (length d)"
    and le: "unat (write_count out) + length d \<le> length S"
    and fits: "unat (write_count out) + length d \<le> unat (read_count out) + unat (b_size out)"
  defines "out' \<equiv> snd (ByteStream_write d out)"
  shows "carries S out'" "unat (write_count out') = unat (write_count out) + length d"
    "read_count out' = read_count out" "b_size out' = b_size out" "end_flag out' = end_flag out"
proof -
  have inv: "bs_inv out" using c by (simp add: carries_def)
  have len: "length d < 2 ^ 64" using le S by simp
  have room: "length d \<le> bs_room out"
    using fits c carries_length [OF c] by (simp add: carries_def)
  have out': "out' = out\<lparr>bts := bts out @ d, write_count := write_count out + csize d\<rparr>"
    using room by (simp add: out'_def ByteStream_write_eq [OF inv len] csize_def)
  show wc: "unat (write_count out') = unat (write_count out) + length d"
    using le S by (simp add: out' unat_add_csize)
  show "read_count out' = read_count out" "b_size out' = b_size out" "end_flag out' = end_flag out"
    by (simp_all add: out')
  have "bs_inv out'" using bs_inv_write [OF inv len] by (simp add: out'_def)
  moreover have "bts out @ d = bslice S (unat (read_count out))
      (unat (write_count out) - unat (read_count out) + length d)"
    using c slice_append [of S "unat (read_count out)" "unat (write_count out) - unat (read_count out)"
        "length d"] d
    by (simp add: carries_def)
  ultimately show "carries S out'"
    using c wc le by (simp add: carries_def out')
qed

lemma carries_read:
  assumes c: "carries S out" and r: "ByteStream_read n out = Inr (x, out')"
  defines "m \<equiv> min (unat n) (length (bts out))"
  shows "carries S out'" "x = bslice S (unat (read_count out)) m"
    "unat (read_count out') = unat (read_count out) + m" "write_count out' = write_count out"
    "b_size out' = b_size out" "end_flag out' = end_flag out"
proof -
  have inv: "bs_inv out" using c by (simp add: carries_def)
  have x: "x = take (unat n) (bts out)"
    and out': "out' = out\<lparr>bts := drop (unat n) (bts out),
                read_count := read_count out + of_nat m\<rparr>"
    using r by (simp_all add: ByteStream_read_eq [OF inv] m_def)
  show "write_count out' = write_count out" "b_size out' = b_size out" "end_flag out' = end_flag out"
    by (simp_all add: out')
  have le: "unat (read_count out) + m \<le> unat (write_count out)"
    using c carries_length [OF c] by (auto simp: carries_def m_def)
  then have lt: "unat (read_count out) + m < 18446744073709551616"
    using unat_lt_size [of "write_count out"] by linarith
  show rc: "unat (read_count out') = unat (read_count out) + m"
    using lt by (simp add: out' unat_word_ariths unat_of_nat)
  show "x = bslice S (unat (read_count out)) m"
    using c carries_length [OF c] by (simp add: x carries_def take_slice m_def)
  have "bs_inv out'" using bs_inv_read [OF inv r] .
  moreover have "drop (unat n) (bts out) = drop m (bts out)"
    by (simp add: m_def min_def)
  ultimately show "carries S out'"
    using c rc le by (simp add: carries_def out' drop_slice)
qed

subsection \<open>The two loops\<close>

lemma agrees_drop:
  assumes "agrees S (k, d)" and "unat k \<le> w" and "w \<le> unat k + length d"
  shows "drop (w - unat k) d = bslice S w (unat k + length d - w)"
proof -
  have d: "d = bslice S (unat k) (length d)" using assms(1) by (simp add: agrees_def)
  have "drop (w - unat k) d = drop (w - unat k) (bslice S (unat k) (length d))"
    using d by simp
  also have "\<dots> = bslice S w (unat k + length d - w)"
    using assms(2,3) by (simp add: drop_slice add.commute)
  finally show ?thesis .
qed

definition loop_post :: "bytes \<Rightarrow> (size_t, bytes) std_map \<Rightarrow> size_t \<Rightarrow> ByteStream \<Rightarrow>
    (size_t, bytes) std_map \<Rightarrow> size_t \<Rightarrow> ByteStream \<Rightarrow> bool" where
  "loop_post S m wp out m' wp' out' \<longleftrightarrow>
     carries S out' \<and> write_count out' = wp' \<and> read_count out' = read_count out \<and>
     b_size out' = b_size out \<and> end_flag out' = end_flag out \<and> unat wp \<le> unat wp' \<and>
     set m' \<subseteq> set m \<and> key_sorted m' \<and> (\<forall>e \<in> set m'. settled (unat wp') e) \<and>
     {0..<unat wp'} \<union> cov m' = {0..<unat wp} \<union> cov m"

text \<open>An entry that reaches from the write pointer or before it to beyond it: its rest is written.\<close>

lemma write_rest:
  assumes "agrees S (k, d)" and "length S < 2 ^ 64" and "carries S out"
    and "unat k \<le> unat (write_count out)" and "unat (write_count out) < unat k + length d"
    and "unat k + length d \<le> unat (read_count out) + unat (b_size out)"
  defines "rest \<equiv> drop (unat (write_count out) - unat k) d"
  defines "out' \<equiv> snd (ByteStream_write rest out)"
  shows "substr_from d (write_count out - k) = Inr rest" and "carries S out'" and "write_count out' = k + csize d"
    and "read_count out' = read_count out" and "b_size out' = b_size out" and "end_flag out' = end_flag out"
proof -
  have hi: "unat k + length d \<le> length S" using assms(1) by (simp add: agrees_def)
  have "unat (write_count out - k) = unat (write_count out) - unat k" using assms(4) by (simp add: unat_minus_nat)
  then show "substr_from d (write_count out - k) = Inr rest"
    using assms(2,4,5) hi by (simp add: substr_from_Inr rest_def)
  have rest: "rest = bslice S (unat (write_count out)) (unat k + length d - unat (write_count out))"
    using agrees_drop [OF assms(1)] assms(4,5) by (simp add: rest_def)
  have "length rest = unat k + length d - unat (write_count out)" using assms(4) by (simp add: rest_def)
  then have w: "carries S out'" "unat (write_count out') = unat k + length d" "read_count out' = read_count out"
      "b_size out' = b_size out" "end_flag out' = end_flag out"
    using carries_write [OF assms(3,2), of rest] assms(4-6) rest hi by (auto simp: out'_def)
  then show "carries S out'" "read_count out' = read_count out" "b_size out' = b_size out" "end_flag out' = end_flag out"
    by simp_all
  show "write_count out' = k + csize d"
    using w(2) hi assms(2) by (simp add: word_unat_eq_iff unat_add_csize)
qed

lemma reassemble_loop_correct:
  assumes "key_sorted m" and "\<forall>e \<in> set m. agrees S e" and "length S < 2 ^ 64"
    and "carries S out" and "write_count out = wp"
    and "\<forall>e \<in> set m. hi e \<le> unat (read_count out) + unat (b_size out)"
  shows "\<exists>m' wp' out'. reassemble_loop m wp out = Inr (m', wp', out') \<and>
           loop_post S m wp out m' wp' out'"
  using assms
proof (induction m wp out rule: reassemble_loop.induct)
  case (1 wp out)
  then show ?case by (simp add: loop_post_def)
next
  case (2 k d m wp out)
  have ag: "agrees S (k, d)" and hi: "unat k + length d \<le> length S"
    using "2.prems"(2) by (auto simp: agrees_def)
  have uk: "unat (k + csize d) = unat k + length d"
    using hi "2.prems"(3) by (simp add: unat_add_csize)
  have sorted_m: "key_sorted m" and above: "\<forall>e \<in> set m. unat k < lo e"
    using "2.prems"(1) by (auto simp: key_sorted_Cons word_less_nat_alt)
  consider (skip) "unat k + length d \<le> unat wp" | (wr) "unat k \<le> unat wp" "unat wp < unat k + length d"
    | (stop) "unat wp < unat k" by linarith
  then show ?case
  proof cases
    case skip
    then have c: "k \<le> wp" "\<not> wp < k + csize d"
      using uk by (auto simp: word_le_nat_alt word_less_nat_alt)
    obtain m' wp' out' where r: "reassemble_loop m wp out = Inr (m', wp', out')"
      and post: "loop_post S m wp out m' wp' out'"
      using "2.IH"(2) [OF c sorted_m] "2.prems" by auto
    have "loop_post S ((k, d) # m) wp out ((k, d) # m') wp' out'"
      using post skip above by (auto simp: loop_post_def key_sorted_Cons settled_def word_less_nat_alt)
    then show ?thesis using r c by auto
  next
    case wr
    then have c: "k \<le> wp" "wp < k + csize d"
      using uk by (auto simp: word_le_nat_alt word_less_nat_alt)
    let ?out = "snd (ByteStream_write (drop (unat wp - unat k) d) out)"
    note w = write_rest [OF ag "2.prems"(3,4), unfolded "2.prems"(5), OF wr]
    have top: "unat k + length d \<le> unat (read_count out) + unat (b_size out)" using "2.prems"(6) by auto
    obtain m' wp' out' where r: "reassemble_loop m (k + csize d) ?out = Inr (m', wp', out')"
      and post: "loop_post S m (k + csize d) ?out m' wp' out'"
      using "2.IH"(1) [OF c sorted_m _ "2.prems"(3) w(2) [OF top]] "2.prems"(2,6) w [OF top] by auto
    have "{0..<unat k + length d} = {0..<unat wp} \<union> {unat k..<unat k + length d}"
      using wr by auto
    then have "loop_post S ((k, d) # m) wp out m' wp' out'"
      using post w [OF top] uk wr by (auto simp: loop_post_def)
    then show ?thesis using r c w(1) [OF top] by auto
  next
    case stop
    then have "\<not> k \<le> wp" by (simp add: word_le_nat_alt)
    moreover have "loop_post S ((k, d) # m) wp out ((k, d) # m) wp out"
      using stop above "2.prems"(1,4,5) by (fastforce simp: loop_post_def settled_def)
    ultimately show ?thesis by simp
  qed
qed

definition tidy_post :: "bytes \<Rightarrow> nat \<Rightarrow> nat \<Rightarrow> (size_t, bytes) std_map \<Rightarrow> (size_t, bytes) std_map \<Rightarrow> bool" where
  "tidy_post S w B m m' \<longleftrightarrow> key_sorted m' \<and> separated m' \<and> cov m' = cov m \<and>
     (\<forall>e \<in> set m'. agrees S e \<and> settled w e \<and> hi e \<le> B)"

lemma separated_Cons: "separated (e # m) \<longleftrightarrow> (\<forall>f \<in> set m. hi e \<le> lo f) \<and> separated m"
  by (auto simp: separated_def)

lemma agrees_append:
  assumes "agrees S (k, d)" and "agrees S (k', d')"
    and "unat k \<le> unat k'" and "unat k' \<le> unat k + length d" and "unat k + length d \<le> unat k' + length d'"
  shows "agrees S (k, d @ drop (unat k + length d - unat k') d')"
proof -
  let ?t = "drop (unat k + length d - unat k') d'"
  have t: "?t = bslice S (unat k + length d) (unat k' + length d' - (unat k + length d))"
    using agrees_drop [OF assms(2,4,5)] .
  have d: "d = bslice S (unat k) (length d)" using assms(1) by (simp add: agrees_def)
  have len: "length ?t = unat k' + length d' - (unat k + length d)" using assms(3-5) by simp
  have eq: "d @ ?t = bslice S (unat k) (length (d @ ?t))"
    using slice_append [of S "unat k" "length d" "length ?t"] d t len by (metis length_append)
  have "unat k + length (d @ ?t) = unat k' + length d'" using assms(3-5) by simp
  then have "unat k + length (d @ ?t) \<le> length S" using assms(2) by (simp only: agrees_def fst_conv snd_conv)
  then show ?thesis using eq by (simp only: agrees_def fst_conv snd_conv)
qed

text \<open>An entry that starts inside another one and ends behind it: what sticks out is appended.\<close>

lemma extend_entry:
  assumes "agrees S (ok, od)" and "agrees S (k, d)" and "length S < 2 ^ 64"
    and "unat ok < unat k" and "unat k < unat ok + length od" and "unat ok + length od < unat k + length d"
    and "settled w (ok, od)" and "settled w (k, d)"
  defines "t \<equiv> drop (unat ok + length od - unat k) d"
  shows "substr_from d ((ok + csize od) - k) = Inr t" and "agrees S (ok, od @ t)"
    and "unat ok + length (od @ t) = unat k + length d" and "settled w (ok, od @ t)"
proof -
  have his: "unat ok + length od \<le> length S" "unat k + length d \<le> length S" using assms(1,2) by (auto simp: agrees_def)
  then have "unat (ok + csize od) = unat ok + length od" using assms(3) by (simp add: unat_add_csize)
  then have "unat ((ok + csize od) - k) = unat ok + length od - unat k" using assms(5) by (simp add: unat_minus_nat)
  then show "substr_from d ((ok + csize od) - k) = Inr t"
    using assms(3,6) his by (simp add: substr_from_Inr t_def)
  show "agrees S (ok, od @ t)" unfolding t_def using agrees_append [OF assms(1,2)] assms(4-6) by simp
  show "unat ok + length (od @ t) = unat k + length d" using assms(5,6) by (simp add: t_def)
  then show "settled w (ok, od @ t)" using assms(4-8) by (auto simp: settled_def)
qed

lemma tidy_loop_correct:
  assumes "key_sorted ((ok, od) # m)" and "length S < 2 ^ 64"
    and "\<forall>e \<in> set ((ok, od) # m). agrees S e \<and> settled w e \<and> hi e \<le> B"
  shows "\<exists>d' m'. tidy_loop (ok, od) m = Inr ((ok, d') # m') \<and> (\<forall>e \<in> set m'. fst e \<in> fst ` set m) \<and>
           tidy_post S w B ((ok, od) # m) ((ok, d') # m')"
  using assms
proof (induction "(ok, od)" m arbitrary: ok od rule: tidy_loop.induct)
  case 1
  then show ?case by (auto simp: tidy_post_def separated_def key_sorted_def)
next
  case (2 ok od k d m)
  have ago: "agrees S (ok, od)" and ag: "agrees S (k, d)" and so: "settled w (ok, od)"
    and sk: "settled w (k, d)"
    using "2.prems"(3) by auto
  then have his: "unat ok + length od \<le> length S" "unat k + length d \<le> length S"
    by (auto simp: agrees_def)
  have uo: "unat (ok + csize od) = unat ok + length od"
    and uk: "unat (k + csize d) = unat k + length d"
    using his "2.prems"(2) by (simp_all add: unat_add_csize)
  have ltk: "unat ok < unat k" and so_m: "key_sorted ((ok, x) # m)" and sk_m: "key_sorted ((k, d) # m)"
    for x using "2.prems"(1) by (auto simp: key_sorted_Cons word_less_nat_alt)
  consider (inside) "unat k < unat ok + length od" "unat k + length d \<le> unat ok + length od"
    | (extend) "unat k < unat ok + length od" "unat ok + length od < unat k + length d"
    | (apart) "unat ok + length od \<le> unat k" by linarith
  then show ?case
  proof cases
    case inside
    then have c: "k < ok + csize od" "k + csize d \<le> ok + csize od"
      using uo uk by (auto simp: word_le_nat_alt word_less_nat_alt)
    obtain d' m' where r: "tidy_loop (ok, od) m = Inr ((ok, d') # m')"
        "\<forall>e \<in> set m'. fst e \<in> fst ` set m" "tidy_post S w B ((ok, od) # m) ((ok, d') # m')"
      using "2.hyps"(1) [OF c so_m "2.prems"(2)] "2.prems"(3) by auto
    have "cov ((ok, od) # (k, d) # m) = cov ((ok, od) # m)"
      using inside ltk by auto
    then show ?thesis using r c by (auto simp: tidy_post_def)
  next
    case extend
    then have c: "k < ok + csize od" "\<not> k + csize d \<le> ok + csize od"
      using uo uk by (auto simp: word_le_nat_alt word_less_nat_alt)
    let ?t = "drop (unat ok + length od - unat k) d"
    note e = extend_entry [OF ago ag "2.prems"(2) ltk extend so sk]
    have "unat ok + length (od @ ?t) \<le> B" using e(3) "2.prems"(3) by simp
    then obtain d' m' where r: "tidy_loop (ok, od @ ?t) m = Inr ((ok, d') # m')"
        "\<forall>e \<in> set m'. fst e \<in> fst ` set m" "tidy_post S w B ((ok, od @ ?t) # m) ((ok, d') # m')"
      using "2.hyps"(2) [OF c, of ?t, OF so_m "2.prems"(2)] "2.prems"(3) e(2,4) by auto
    have "cov ((ok, od) # (k, d) # m) = cov ((ok, od @ ?t) # m)"
      using extend ltk e(3) by auto
    then show ?thesis using r c e(1) by (auto simp: tidy_post_def)
  next
    case apart
    then have c: "\<not> k < ok + csize od"
      using uo by (auto simp: word_le_nat_alt word_less_nat_alt)
    obtain d' m' where r: "tidy_loop (k, d) m = Inr ((k, d') # m')"
        "\<forall>e \<in> set m'. fst e \<in> fst ` set m" "tidy_post S w B ((k, d) # m) ((k, d') # m')"
      using "2.hyps"(3) [OF c sk_m "2.prems"(2)] "2.prems"(3) by auto
    have above: "\<forall>e \<in> set ((k, d') # m'). fst e \<in> fst ` set ((k, d) # m)" using r(2) by auto
    have keys: "\<forall>e \<in> set ((k, d') # m'). k \<le> fst e"
      using r(3) by (auto simp: tidy_post_def key_sorted_Cons)
    have "key_sorted ((ok, od) # (k, d') # m')"
      using keys r(3) ltk by (auto simp: tidy_post_def key_sorted_Cons word_less_nat_alt word_le_nat_alt)
    moreover have "separated ((ok, od) # (k, d') # m')"
      using keys r(3) apart by (auto simp: tidy_post_def separated_Cons word_le_nat_alt)
    ultimately have "tidy_post S w B ((ok, od) # (k, d) # m) ((ok, od) # (k, d') # m')"
      using r(3) "2.prems"(3) by (auto simp: tidy_post_def)
    then show ?thesis using r(1) c above by auto
  qed
qed

lemma tidy_correct:
  assumes "key_sorted m" and "length S < 2 ^ 64"
    and "\<forall>e \<in> set m. agrees S e \<and> settled w e \<and> hi e \<le> B"
  shows "\<exists>m'. tidy m = Inr m' \<and> tidy_post S w B m m'"
proof (cases m)
  case Nil
  then show ?thesis by (simp add: tidy_post_def separated_def)
next
  case (Cons e n)
  then show ?thesis
    using tidy_loop_correct [of "fst e" "snd e" n S w B] assms by auto
qed

lemma push_substring_total: "\<exists>r'. push_substring data index is_eof r = Inr r'"
proof -
  obtain nd r1 where t: "sr_trim data index is_eof r = Inr (nd, r1)"
    using substr_0_ok [of data "bytes_read (sr_output r) + sr_capacity r - index"]
    by (fastforce simp: sr_trim_def Let_def)
  obtain m wp out where l:
    "reassemble_loop (sr_store index nd (sr_stream r1)) (write_ptr r1) (sr_output r1) = Inr (m, wp, out)"
    using reassemble_loop_total by (metis prod_cases3)
  obtain m' where "tidy m = Inr m'" using tidy_total by blast
  then show ?thesis using t l by (simp add: push_substring_def)
qed

subsection \<open>The invariant, and what a push does to it\<close>

definition sr_window :: "StreamReassembler \<Rightarrow> nat" where
  "sr_window r = unat (read_count (sr_output r)) + unat (sr_capacity r)"

definition received :: "StreamReassembler \<Rightarrow> nat set" where
  "received r = {0..<unat (write_ptr r)} \<union> cov (sr_stream r)"

definition sr_inv :: "bytes \<Rightarrow> StreamReassembler \<Rightarrow> bool" where
  "sr_inv S r \<longleftrightarrow> length S + unat (sr_capacity r) < 2 ^ 64 \<and>
     carries S (sr_output r) \<and> b_size (sr_output r) = sr_capacity r \<and>
     write_ptr r = write_count (sr_output r) \<and>
     tidy_post S (unat (write_ptr r)) (sr_window r) (sr_stream r) (sr_stream r) \<and>
     (eof_f r \<longrightarrow> unat (eof_index r) = length S) \<and>
     (end_flag (sr_output r) \<longleftrightarrow> eof_f r \<and> unat (write_ptr r) = length S)"

lemma sr_inv_new:
  "length S + unat capacity < 2 ^ 64 \<Longrightarrow> sr_inv S (StreamReassembler_new capacity)"
  by (simp add: sr_inv_def StreamReassembler_new_def ByteStream_new_def carries_def bs_inv_def
      tidy_post_def separated_def)

lemma sr_window_new [simp]: "sr_window (StreamReassembler_new capacity) = unat capacity"
  by (simp add: sr_window_def StreamReassembler_new_def ByteStream_new_def)

text \<open>A substring the peer may send: a piece of \<open>S\<close>, marked \<open>eof\<close> only if it ends \<open>S\<close>.\<close>

definition substring_of :: "bytes \<Rightarrow> bytes \<Rightarrow> uint64_t \<Rightarrow> bool \<Rightarrow> bool" where
  "substring_of S data index is_eof \<longleftrightarrow> agrees S (index, data) \<and>
     (is_eof \<longrightarrow> unat index + length data = length S)"

lemma sr_trim_correct:
  assumes inv: "sr_inv S r" and sub: "substring_of S data index is_eof"
    and win: "unat index \<le> sr_window r"
  defines "n \<equiv> sr_window r - unat index"
  shows "sr_trim data index is_eof r =
    Inr (take n data,
         if length data \<le> n \<and> is_eof
         then r\<lparr>read_ptr := read_count (sr_output r), eof_index := index + csize data, eof_f := True\<rparr>
         else r\<lparr>read_ptr := read_count (sr_output r)\<rparr>)"
proof -
  have S: "length S + unat (sr_capacity r) < 2 ^ 64" and le: "unat index + length data \<le> length S"
    using inv sub by (auto simp: sr_inv_def substring_of_def agrees_def)
  have "unat (read_count (sr_output r)) \<le> length S"
    using inv by (auto simp: sr_inv_def carries_def)
  then have w: "unat (read_count (sr_output r) + sr_capacity r) = sr_window r"
    using S by (simp add: sr_window_def unat_plus_nowrap)
  have i: "unat (index + csize data) = unat index + length data"
    using le S by (simp add: unat_add_csize)
  have "unat (read_count (sr_output r) + sr_capacity r - index) = n"
    using w win by (simp add: n_def unat_minus_nat)
  moreover have "length data < 2 ^ 64" using le S by simp
  ultimately have "substr data 0 (read_count (sr_output r) + sr_capacity r - index) = Inr (take n data)"
    by (simp add: substr_Inr)
  then show ?thesis
    using w i win by (auto simp: sr_trim_def Let_def bytes_read_def word_less_nat_alt n_def)
qed

lemma sr_store_correct:
  assumes "key_sorted m" and "length d < 2 ^ 64" and "\<forall>e \<in> set m. length (snd e) < 2 ^ 64"
  shows "key_sorted (sr_store i d m)"
    and "set (sr_store i d m) \<subseteq> insert (i, d) (set m)"
    and "cov (sr_store i d m) = cov m \<union> {unat i..<unat i + length d}"
proof -
  note keep = smap.elems_keep_better [OF assms(1), where better = "\<lambda>v w. csize v > csize w"
      and k = i and v = d, OF sr_store_def]
  show "key_sorted (sr_store i d m)" by (rule keep(1))
  show sub: "set (sr_store i d m) \<subseteq> insert (i, d) (set m)" by (rule keep(2))
  have longer: "csize d > csize (snd e) \<longleftrightarrow> length d > length (snd e)" if "e \<in> set m" for e
    using that assms(2,3) by (simp add: word_less_nat_alt unat_csize)
  have "cov m \<subseteq> cov (sr_store i d m)"
  proof
    fix x assume "x \<in> cov m"
    then obtain e where e: "e \<in> set m" "x \<in> {lo e..<hi e}" by (auto simp: cov_def)
    with keep(3) [of e] longer [of e] show "x \<in> cov (sr_store i d m)"
      using cov_memI [of e "sr_store i d m" x] cov_memI [of "(i, d)" "sr_store i d m" x] by auto
  qed
  moreover have "{unat i..<unat i + length d} \<subseteq> cov (sr_store i d m)"
    using keep(4) longer cov_memI [of "(i, d)" "sr_store i d m"] cov_memI [of "(i, _)" "sr_store i d m"]
    by fastforce
  moreover have "cov (sr_store i d m) \<subseteq> cov m \<union> {unat i..<unat i + length d}"
    using sub by (force simp: cov_def)
  ultimately show "cov (sr_store i d m) = cov m \<union> {unat i..<unat i + length d}" by blast
qed

lemma agrees_le: "agrees S (k, d) \<Longrightarrow> unat k + length d \<le> length S"
  by (simp add: agrees_def)

lemma agrees_take:
  assumes "agrees S (k, d)"
  shows "agrees S (k, take n d)"
proof -
  have "take n d = bslice S (unat k) (min n (length d))"
    using assms take_slice [of n S "unat k" "length d"] by (simp add: agrees_def)
  moreover have "length (take n d) = min n (length d)" by simp
  ultimately show ?thesis using agrees_le [OF assms] by (simp only: agrees_def fst_conv snd_conv) simp
qed

lemma push_loops_correct:
  assumes inv: "sr_inv S r" and ag: "agrees S (index, nd)"
    and win: "unat index + length nd \<le> sr_window r"
  shows "\<exists>m' wp' out' m''.
    reassemble_loop (sr_store index nd (sr_stream r)) (write_ptr r) (sr_output r) = Inr (m', wp', out') \<and>
    tidy m' = Inr m'' \<and> carries S out' \<and> write_count out' = wp' \<and>
    read_count out' = read_count (sr_output r) \<and> b_size out' = sr_capacity r \<and>
    end_flag out' = end_flag (sr_output r) \<and> unat (write_ptr r) \<le> unat wp' \<and>
    tidy_post S (unat wp') (sr_window r) m'' m'' \<and>
    {0..<unat wp'} \<union> cov m'' = received r \<union> {unat index..<unat index + length nd}"
proof -
  let ?m = "sr_store index nd (sr_stream r)"
  have S: "length S < 2 ^ 64" and c: "carries S (sr_output r)" and bc: "b_size (sr_output r) = sr_capacity r"
    and wp: "write_count (sr_output r) = write_ptr r" and ks: "key_sorted (sr_stream r)"
    and old: "\<forall>e \<in> set (sr_stream r). agrees S e \<and> hi e \<le> sr_window r"
    using inv by (simp_all add: sr_inv_def tidy_post_def)
  have lens: "\<forall>e \<in> set (sr_stream r). length (snd e) < 2 ^ 64" "length nd < 2 ^ 64"
    using old agrees_le [OF ag] S by (fastforce dest: agrees_le)+
  note store = sr_store_correct [OF ks lens(2,1), of index]
  have m: "\<forall>e \<in> set ?m. agrees S e" "\<forall>e \<in> set ?m. hi e \<le> sr_window r"
    using store(2) old ag win by auto
  obtain m' wp' out' where l: "reassemble_loop ?m (write_ptr r) (sr_output r) = Inr (m', wp', out')"
    and post: "loop_post S ?m (write_ptr r) (sr_output r) m' wp' out'"
    using reassemble_loop_correct [OF store(1) m(1) S c wp] m(2) bc by (auto simp: sr_window_def)
  have "\<forall>e \<in> set m'. agrees S e \<and> settled (unat wp') e \<and> hi e \<le> sr_window r"
    using post m by (auto simp: loop_post_def)
  then obtain m'' where t: "tidy m' = Inr m''" and tp: "tidy_post S (unat wp') (sr_window r) m' m''"
    using tidy_correct [OF _ S] post by (meson loop_post_def)
  have "{0..<unat wp'} \<union> cov m'' = received r \<union> {unat index..<unat index + length nd}"
    using post tp store(3) by (auto simp: loop_post_def tidy_post_def received_def)
  then show ?thesis using l t post tp bc by (simp add: loop_post_def tidy_post_def)
qed

text \<open>The last statement of \<open>push_substring\<close> keeps the end-of-input flag right.\<close>

lemma push_end_flag:
  assumes "end_flag out \<longleftrightarrow> eof0 \<and> w0 = n" and "eof0 \<longrightarrow> eof1" and "w0 \<le> unat wp" and "unat wp \<le> n"
    and "eof1 \<longrightarrow> unat ei = n"
  shows "end_flag (if wp = ei \<and> eof1 then end_input out else out) \<longleftrightarrow> eof1 \<and> unat wp = n"
proof -
  have "end_flag (if wp = ei \<and> eof1 then end_input out else out) \<longleftrightarrow> (wp = ei \<and> eof1) \<or> end_flag out"
    by auto
  moreover have "w0 = n \<Longrightarrow> unat wp = n" using assms(3,4) by simp
  moreover have "eof1 \<Longrightarrow> wp = ei \<longleftrightarrow> unat wp = n" using assms(5) by (metis word_unat_eq_iff)
  ultimately show ?thesis using assms(1,2) by blast
qed

lemma push_substring_correct:
  assumes inv: "sr_inv S r" and sub: "substring_of S data index is_eof"
    and win: "unat index \<le> sr_window r"
  shows "\<exists>r'. push_substring data index is_eof r = Inr r' \<and> sr_inv S r' \<and>
     received r' = received r \<union> {unat index..<min (unat index + length data) (sr_window r)} \<and>
     sr_capacity r' = sr_capacity r \<and>
     read_count (sr_output r') = read_count (sr_output r) \<and>
     (eof_f r' \<longleftrightarrow> eof_f r \<or> (is_eof \<and> unat index + length data \<le> sr_window r))"
proof -
  define nd where "nd = take (sr_window r - unat index) data"
  define r1 where "r1 = (if length data \<le> sr_window r - unat index \<and> is_eof
         then r\<lparr>read_ptr := read_count (sr_output r), eof_index := index + csize data, eof_f := True\<rparr>
         else r\<lparr>read_ptr := read_count (sr_output r)\<rparr>)"
  have trim: "sr_trim data index is_eof r = Inr (nd, r1)"
    unfolding nd_def r1_def by (rule sr_trim_correct [OF inv sub win])
  have r1: "sr_output r1 = sr_output r" "sr_stream r1 = sr_stream r" "write_ptr r1 = write_ptr r"
      "sr_capacity r1 = sr_capacity r"
      "eof_f r1 \<longleftrightarrow> eof_f r \<or> (is_eof \<and> unat index + length data \<le> sr_window r)"
    using win by (auto simp: r1_def)
  have le: "unat index + length data \<le> length S" and S: "length S < 2 ^ 64"
    using sub inv by (simp_all add: substring_of_def agrees_le sr_inv_def)
  have ag: "agrees S (index, nd)" using sub agrees_take by (simp add: substring_of_def nd_def)
  have nd: "unat index + length nd = min (unat index + length data) (sr_window r)"
    using win by (simp add: nd_def)
  obtain m' wp' out' m'' where l: "reassemble_loop (sr_store index nd (sr_stream r)) (write_ptr r) (sr_output r)
        = Inr (m', wp', out')" "tidy m' = Inr m''"
    and out': "carries S out'" "write_count out' = wp'" "read_count out' = read_count (sr_output r)"
      "b_size out' = sr_capacity r" "end_flag out' = end_flag (sr_output r)"
    and wle: "unat (write_ptr r) \<le> unat wp'" and tp: "tidy_post S (unat wp') (sr_window r) m'' m''"
    and cv: "{0..<unat wp'} \<union> cov m'' = received r \<union> {unat index..<unat index + length nd}"
    using push_loops_correct [OF inv ag] nd by auto
  define out'' where "out'' = (if wp' = eof_index r1 \<and> eof_f r1 then end_input out' else out')"
  define r' where "r' = r1\<lparr>sr_stream := m'', write_ptr := wp', sr_output := out''\<rparr>"
  have run: "push_substring data index is_eof r = Inr r'"
    using trim l r1 by (simp add: push_substring_def r'_def out''_def)
  have "unat (index + csize data) = unat index + length data" using le S by (simp add: unat_add_csize)
  then have eof1: "eof_f r1 \<longrightarrow> unat (eof_index r1) = length S"
    using inv sub by (auto simp: r1_def sr_inv_def substring_of_def split: if_splits)
  have out'': "carries S out''" "write_count out'' = wp'" "read_count out'' = read_count (sr_output r)"
      "b_size out'' = sr_capacity r"
    using out' by (simp_all add: out''_def)
  have "end_flag out' \<longleftrightarrow> eof_f r \<and> unat (write_ptr r) = length S"
    using inv out'(5) by (simp add: sr_inv_def)
  then have "end_flag out'' \<longleftrightarrow> eof_f r1 \<and> unat wp' = length S"
    unfolding out''_def using wle carries_le [OF out'(1)] out'(2) r1(5) eof1
    by (intro push_end_flag) auto
  then have "sr_inv S r'"
    using inv out'' eof1 tp r1 by (simp add: sr_inv_def r'_def sr_window_def)
  then show ?thesis
    using run out'' r1 cv nd by (simp add: r'_def received_def)
qed

subsection \<open>What the invariant says\<close>

lemma sr_inv_carries: "sr_inv S r \<Longrightarrow> carries S (sr_output r)"
  by (simp add: sr_inv_def)

lemma sr_inv_wp: "sr_inv S r \<Longrightarrow> write_count (sr_output r) = write_ptr r"
  by (simp add: sr_inv_def)

lemma sr_inv_b_size: "sr_inv S r \<Longrightarrow> b_size (sr_output r) = sr_capacity r"
  by (simp add: sr_inv_def)

lemma sr_inv_tidy:
  "sr_inv S r \<Longrightarrow> tidy_post S (unat (write_ptr r)) (sr_window r) (sr_stream r) (sr_stream r)"
  unfolding sr_inv_def by blast

lemma sr_inv_settled:
  "sr_inv S r \<Longrightarrow> e \<in> set (sr_stream r) \<Longrightarrow> settled (unat (write_ptr r)) e"
  unfolding sr_inv_def tidy_post_def by blast

lemma write_ptr_gap: "sr_inv S r \<Longrightarrow> unat (write_ptr r) \<notin> received r"
  by (fastforce simp: received_def cov_def settled_def dest: sr_inv_settled)

lemma write_ptr_least:
  assumes "sr_inv S r"
  shows "unat (write_ptr r) = (LEAST n. n \<notin> received r)"
proof (rule Least_equality [symmetric])
  show "unat (write_ptr r) \<notin> received r" using assms by (rule write_ptr_gap)
  show "unat (write_ptr r) \<le> n" if "n \<notin> received r" for n
    using that by (auto simp: received_def not_less [symmetric])
qed

lemma unassembled_loop_eq:
  "unassembled_loop m wp acc = acc + of_nat (sum_list (map (\<lambda>e. length (snd e)) (filter (\<lambda>e. wp < fst e) m)))"
  by (induction m wp acc rule: unassembled_loop.induct) (auto simp: csize_def)

lemma card_cov_separated:
  "separated m \<Longrightarrow> card (cov m) = sum_list (map (\<lambda>e. length (snd e)) m)"
proof (induction m)
  case (Cons e m)
  have "finite (cov m)" by (simp add: cov_def)
  moreover have "{lo e..<hi e} \<inter> cov m = {}"
    using Cons.prems by (fastforce simp: separated_Cons cov_def)
  ultimately show ?case
    using Cons by (simp add: card_Un_disjoint separated_Cons)
qed simp

lemma separated_filter: "separated m \<Longrightarrow> separated (filter P m)"
  by (simp add: separated_def sorted_wrt_filter)

lemma received_beyond:
  assumes "sr_inv S r"
  shows "received r - {0..<unat (write_ptr r)} = cov (filter (\<lambda>e. write_ptr r < fst e) (sr_stream r))"
proof -
  have "n \<in> cov (filter (\<lambda>e. write_ptr r < fst e) (sr_stream r))"
    if n: "n \<in> cov (sr_stream r)" "unat (write_ptr r) \<le> n" for n
  proof -
    obtain e where e: "e \<in> set (sr_stream r)" "lo e \<le> n" "n < hi e" using n(1) by (auto simp: cov_def)
    moreover have "unat (write_ptr r) < lo e"
      using sr_inv_settled [OF assms e(1)] e n(2) by (auto simp: settled_def)
    ultimately show ?thesis by (intro cov_memI [of e]) (simp_all add: word_less_nat_alt)
  qed
  moreover have "n \<in> cov (sr_stream r) \<and> unat (write_ptr r) \<le> n"
    if n: "n \<in> cov (filter (\<lambda>e. write_ptr r < fst e) (sr_stream r))" for n
  proof -
    obtain e where "e \<in> set (sr_stream r)" "write_ptr r < fst e" "lo e \<le> n" "n < hi e"
      using n by (auto simp: cov_def)
    then show ?thesis using cov_memI by (auto simp: word_less_nat_alt)
  qed
  ultimately show ?thesis by (fastforce simp: received_def)
qed

lemma received_bounds:
  assumes "sr_inv S r"
  shows "received r \<subseteq> {0..<length S}" "received r - {0..<unat (write_ptr r)} \<subseteq> {unat (write_ptr r)..<sr_window r}"
proof -
  have "\<forall>e \<in> set (sr_stream r). hi e \<le> length S \<and> hi e \<le> sr_window r"
    using assms agrees_le by (fastforce simp: sr_inv_def tidy_post_def)
  moreover have "unat (write_ptr r) \<le> length S"
    using assms carries_le by (auto simp: sr_inv_def)
  ultimately show "received r \<subseteq> {0..<length S}"
      "received r - {0..<unat (write_ptr r)} \<subseteq> {unat (write_ptr r)..<sr_window r}"
    by (fastforce simp: received_def cov_def)+
qed

lemma unat_unassembled:
  assumes "sr_inv S r"
  shows "unat (unassembled_bytes r) = card (received r - {0..<unat (write_ptr r)})"
proof -
  let ?m = "filter (\<lambda>e. write_ptr r < fst e) (sr_stream r)"
  have "separated ?m" using assms by (simp add: sr_inv_def tidy_post_def separated_filter)
  then have eq: "unassembled_bytes r = of_nat (card (received r - {0..<unat (write_ptr r)}))"
    by (simp add: unassembled_bytes_def unassembled_loop_eq received_beyond [OF assms] card_cov_separated)
  have "card (received r - {0..<unat (write_ptr r)}) \<le> card {0..<length S}"
    using received_bounds(1) [OF assms] by (intro card_mono) auto
  then have "card (received r - {0..<unat (write_ptr r)}) < 2 ^ 64"
    using assms by (simp add: sr_inv_def)
  then show ?thesis by (simp add: eq unat_of_nat)
qed

lemma sr_capacity_bound:
  assumes "sr_inv S r"
  shows "length (bts (sr_output r)) + unat (unassembled_bytes r) \<le> unat (sr_capacity r)"
proof -
  have len: "length (bts (sr_output r)) = unat (write_ptr r) - unat (read_count (sr_output r))"
    using carries_length [OF sr_inv_carries [OF assms]] by (simp add: sr_inv_wp [OF assms])
  have "length (bts (sr_output r)) \<le> unat (sr_capacity r)"
    using bs_inv_length [OF carries_inv [OF sr_inv_carries [OF assms]]]
    by (simp add: sr_inv_b_size [OF assms])
  moreover have "card (received r - {0..<unat (write_ptr r)}) \<le> sr_window r - unat (write_ptr r)"
    using card_mono [OF _ received_bounds(2) [OF assms]] by simp
  moreover have "unat (read_count (sr_output r)) \<le> unat (write_ptr r)"
    using sr_inv_carries [OF assms] by (simp add: carries_def sr_inv_wp [OF assms])
  ultimately show ?thesis
    using len by (simp add: unat_unassembled [OF assms] sr_window_def)
qed

lemma tidy_post_mono: "tidy_post S w B m n \<Longrightarrow> B \<le> B' \<Longrightarrow> tidy_post S w B' m n"
  by (fastforce simp: tidy_post_def)

lemma sr_inv_read:
  assumes "sr_inv S r" and "ByteStream_read n (sr_output r) = Inr (x, out)"
  shows "sr_inv S (r\<lparr>sr_output := out\<rparr>)"
proof -
  have c: "carries S (sr_output r)" using assms(1) by (rule sr_inv_carries)
  note rd = carries_read [OF c assms(2)]
  have "tidy_post S (unat (write_ptr r)) (sr_window (r\<lparr>sr_output := out\<rparr>)) (sr_stream r) (sr_stream r)"
    by (rule tidy_post_mono [OF sr_inv_tidy [OF assms(1)]]) (simp add: sr_window_def rd(3))
  then show ?thesis using assms(1) rd(1,4,5,6) by (simp add: sr_inv_def)
qed

lemma reassemble_loop_error:
  "reassemble_loop m wp out = Inr (m', wp', out') \<Longrightarrow> bs_error out' = bs_error out"
  by (induction m wp out arbitrary: m' wp' out' rule: reassemble_loop.induct)
     (fastforce simp: bindE_eq_Inr split: if_splits)+

lemma push_substring_error:
  assumes "push_substring data index is_eof r = Inr r'"
  shows "bs_error (sr_output r') = bs_error (sr_output r)"
proof -
  obtain nd r1 m wp out where "sr_trim data index is_eof r = Inr (nd, r1)"
      "reassemble_loop (sr_store index nd (sr_stream r1)) (write_ptr r1) (sr_output r1) = Inr (m, wp, out)"
      "bs_error (sr_output r') = bs_error out"
    using assms by (fastforce simp: push_substring_def bindE_eq_Inr end_input_def)
  then show ?thesis
    using reassemble_loop_error by (fastforce simp: sr_trim_def Let_def bindE_eq_Inr split: if_splits)
qed

subsection \<open>The interface the receiver relies on\<close>

fun push_all :: "(bytes \<Rightarrow> uint64_t \<Rightarrow> bool \<Rightarrow> 'r \<Rightarrow> cpp_error + 'r) \<Rightarrow>
    (bytes \<times> uint64_t \<times> bool) list \<Rightarrow> 'r \<Rightarrow> cpp_error + 'r" where
  "push_all push [] r = Inr r"
| "push_all push ((d, i, e) # ps) r = bindE (push d i e r) (push_all push ps)"

definition piece_range :: "nat \<Rightarrow> bytes \<times> uint64_t \<times> bool \<Rightarrow> nat set" where
  "piece_range lim p = (case p of (d, i, e) \<Rightarrow> {unat i..<min (unat i + length d) lim})"

definition piece_of :: "bytes \<Rightarrow> nat \<Rightarrow> bytes \<times> uint64_t \<times> bool \<Rightarrow> bool" where
  "piece_of S lim p = (case p of (d, i, e) \<Rightarrow> substring_of S d i e \<and> unat i \<le> lim)"

definition piece_ends :: "nat \<Rightarrow> bytes \<times> uint64_t \<times> bool \<Rightarrow> bool" where
  "piece_ends lim p = (case p of (d, i, e) \<Rightarrow> e \<and> unat i + length d \<le> lim)"

text \<open>
  A reassembler of the stream \<open>S\<close>: a push adds the positions of the piece that lie below the window
  limit to the positions received, and the length of the assembled prefix is the first position
  that is missing.
\<close>

locale reassembly =
  fixes ok :: "bytes \<Rightarrow> 'r \<Rightarrow> bool"
    and push :: "bytes \<Rightarrow> uint64_t \<Rightarrow> bool \<Rightarrow> 'r \<Rightarrow> cpp_error + 'r"
    and got :: "'r \<Rightarrow> nat set"
    and lim :: "'r \<Rightarrow> nat"
    and ends :: "'r \<Rightarrow> bool"
    and prefix_len :: "'r \<Rightarrow> nat"
  assumes push_law: "ok S r \<Longrightarrow> substring_of S d i e \<Longrightarrow> unat i \<le> lim r \<Longrightarrow>
      \<exists>r'. push d i e r = Inr r' \<and> ok S r' \<and> lim r' = lim r \<and>
        got r' = got r \<union> {unat i..<min (unat i + length d) (lim r)} \<and>
        (ends r' \<longleftrightarrow> ends r \<or> (e \<and> unat i + length d \<le> lim r))"
    and prefix_law: "ok S r \<Longrightarrow> prefix_len r = (LEAST n. n \<notin> got r)"
begin

lemma push_all_law:
  assumes "ok S r" and "\<forall>p \<in> set ps. piece_of S (lim r) p"
  shows "\<exists>r'. push_all push ps r = Inr r' \<and> ok S r' \<and> lim r' = lim r \<and>
           got r' = got r \<union> (\<Union>p \<in> set ps. piece_range (lim r) p) \<and>
           (ends r' \<longleftrightarrow> ends r \<or> (\<exists>p \<in> set ps. piece_ends (lim r) p))"
  using assms
proof (induction ps arbitrary: r)
  case Nil
  then show ?case by simp
next
  case (Cons p ps)
  obtain d i e where p: "p = (d, i, e)" by (cases p)
  obtain r1 where r1: "push d i e r = Inr r1" "ok S r1" "lim r1 = lim r"
      "got r1 = got r \<union> {unat i..<min (unat i + length d) (lim r)}"
      "ends r1 \<longleftrightarrow> ends r \<or> (e \<and> unat i + length d \<le> lim r)"
    using push_law [OF Cons.prems(1)] Cons.prems(2) p by (force simp: piece_of_def)
  obtain r' where "push_all push ps r1 = Inr r'" "ok S r'" "lim r' = lim r1"
      "got r' = got r1 \<union> (\<Union>p \<in> set ps. piece_range (lim r1) p)"
      "ends r' \<longleftrightarrow> ends r1 \<or> (\<exists>p \<in> set ps. piece_ends (lim r1) p)"
    using Cons.IH [OF r1(2)] Cons.prems(2) r1(3) by auto
  then show ?case using r1 p by (auto simp: piece_range_def piece_ends_def)
qed

lemma push_all_order:
  assumes "ok S r" and "\<forall>p \<in> set ps. piece_of S (lim r) p" and "set qs = set ps"
  shows "\<exists>r1 r2. push_all push ps r = Inr r1 \<and> push_all push qs r = Inr r2 \<and> ok S r1 \<and> ok S r2 \<and>
           got r1 = got r2 \<and> prefix_len r1 = prefix_len r2 \<and> (ends r1 \<longleftrightarrow> ends r2)"
proof -
  obtain r1 where r1: "push_all push ps r = Inr r1" "ok S r1"
      "got r1 = got r \<union> (\<Union>p \<in> set ps. piece_range (lim r) p)"
      "ends r1 \<longleftrightarrow> ends r \<or> (\<exists>p \<in> set ps. piece_ends (lim r) p)"
    using push_all_law [OF assms(1,2)] by blast
  obtain r2 where r2: "push_all push qs r = Inr r2" "ok S r2"
      "got r2 = got r \<union> (\<Union>p \<in> set qs. piece_range (lim r) p)"
      "ends r2 \<longleftrightarrow> ends r \<or> (\<exists>p \<in> set qs. piece_ends (lim r) p)"
    using push_all_law [OF assms(1), of qs] assms(2,3) by blast
  have "got r1 = got r2" using r1(3) r2(3) assms(3) by simp
  moreover from this have "prefix_len r1 = prefix_len r2"
    using prefix_law [OF r1(2)] prefix_law [OF r2(2)] by simp
  moreover have "ends r1 \<longleftrightarrow> ends r2" using r1(4) r2(4) assms(3) by simp
  ultimately show ?thesis using r1(1,2) r2(1,2) by blast
qed

end

interpretation sr: reassembly sr_inv push_substring received sr_window eof_f "\<lambda>r. unat (write_ptr r)"
proof unfold_locales
  show "\<exists>r'. push_substring d i e r = Inr r' \<and> sr_inv S r' \<and> sr_window r' = sr_window r \<and>
        received r' = received r \<union> {unat i..<min (unat i + length d) (sr_window r)} \<and>
        (eof_f r' \<longleftrightarrow> eof_f r \<or> (e \<and> unat i + length d \<le> sr_window r))"
    if "sr_inv S r" "substring_of S d i e" "unat i \<le> sr_window r" for S r d i e
    using push_substring_correct [OF that] by (auto simp: sr_window_def)
qed (rule write_ptr_least)

subsection \<open>Runs\<close>

text \<open>
  A run of the reassembler: pieces of \<open>S\<close> are pushed and the reader takes bytes out of the output
  stream, in any order. \<open>dl\<close> is everything the reader has been given so far.
\<close>

inductive sr_run :: "bytes \<Rightarrow> size_t \<Rightarrow> bytes \<Rightarrow> StreamReassembler \<Rightarrow> bool" for S capacity where
  run_new: "sr_run S capacity [] (StreamReassembler_new capacity)"
| run_push: "sr_run S capacity dl r \<Longrightarrow> substring_of S d i e \<Longrightarrow> unat i \<le> sr_window r \<Longrightarrow>
    push_substring d i e r = Inr r' \<Longrightarrow> sr_run S capacity dl r'"
| run_read: "sr_run S capacity dl r \<Longrightarrow> ByteStream_read n (sr_output r) = Inr (x, out) \<Longrightarrow>
    sr_run S capacity (dl @ x) (r\<lparr>sr_output := out\<rparr>)"

lemma sr_run_inv:
  assumes "sr_run S capacity dl r" and "length S + unat capacity < 2 ^ 64"
  shows "sr_inv S r \<and> dl = take (unat (read_count (sr_output r))) S"
  using assms
proof (induction rule: sr_run.induct)
  case run_new
  then show ?case
    by (auto simp: sr_inv_new) (simp add: StreamReassembler_new_def ByteStream_new_def)
next
  case (run_push dl r d i e r')
  then have "sr_inv S r" by simp
  then obtain r1 where "push_substring d i e r = Inr r1" "sr_inv S r1"
      "read_count (sr_output r1) = read_count (sr_output r)"
    using push_substring_correct run_push.hyps(2,3) by blast
  then show ?case using run_push by simp
next
  case (run_read dl r n x out)
  then have inv: "sr_inv S r" and dl: "dl = take (unat (read_count (sr_output r))) S" by auto
  note rd = carries_read [OF sr_inv_carries [OF inv] run_read.hyps(2)]
  have "dl @ x = take (unat (read_count out)) S"
    by (simp only: dl rd(2,3)) (simp add: bslice_def take_add)
  then show ?case using sr_inv_read [OF inv run_read.hyps(2)] by simp
qed

lemma sr_inv_prefix:
  assumes "sr_inv S r"
  shows "take (unat (read_count (sr_output r))) S @ bts (sr_output r) = take (unat (write_ptr r)) S"
proof -
  let ?rc = "unat (read_count (sr_output r))" and ?wp = "unat (write_ptr r)"
  have "bts (sr_output r) = bslice S ?rc (?wp - ?rc)" and "?rc \<le> ?wp"
    using sr_inv_carries [OF assms] by (auto simp: carries_def sr_inv_wp [OF assms])
  then show ?thesis using take_add [of ?rc "?wp - ?rc" S] by (simp add: bslice_def)
qed

lemma sr_inv_ended:
  "sr_inv S r \<Longrightarrow> input_ended (sr_output r) \<longleftrightarrow> eof_f r \<and> unat (write_ptr r) = length S"
  by (simp add: sr_inv_def input_ended_def)

subsection \<open>Well-formedness under arbitrary input\<close>

text \<open>
  What holds of a reassembler whatever is pushed, also pieces that contradict each other or wrap around:
  the map is one, the output stream is well-formed and has the capacity of the reassembler.
\<close>

definition sr_wf :: "StreamReassembler \<Rightarrow> bool" where
  "sr_wf r \<longleftrightarrow> key_sorted (sr_stream r) \<and> bs_inv (sr_output r) \<and> b_size (sr_output r) = sr_capacity r"

lemma write_wf:
  assumes "bs_inv s"
  shows "bs_inv (snd (ByteStream_write data s)) \<and> b_size (snd (ByteStream_write data s)) = b_size s"
proof -
  define len where "len = (if csize data > remaining_capacity s then remaining_capacity s else csize data)"
  have len: "unat len \<le> length data" "unat len \<le> bs_room s"
    using assms unat_csize_le [of data] by (auto simp: len_def word_less_nat_alt unat_remaining_capacity not_less)
  have "snd (ByteStream_write data s) = s\<lparr>bts := bts s @ bslice data 0 (unat len), write_count := write_count s + len\<rparr>"
    using len(1) by (simp add: ByteStream_write_def Let_def len_def [symmetric] write_loop_eq)
  moreover have "length (bts s) + unat len \<le> unat (b_size s)" using len(2) bs_inv_length [OF assms] by linarith
  ultimately show ?thesis using assms len(1) by (simp add: bs_inv_def csize_def bslice_def min_def)
qed

lemma reassemble_loop_wf:
  "reassemble_loop m wp out = Inr (m', wp', out') \<Longrightarrow> key_sorted m \<Longrightarrow> bs_inv out \<Longrightarrow>
   key_sorted m' \<and> fst ` set m' \<subseteq> fst ` set m \<and> bs_inv out' \<and> b_size out' = b_size out"
proof (induction m wp out arbitrary: m' wp' out' rule: reassemble_loop.induct)
  case (2 k d m wp out)
  have m: "key_sorted m" "\<forall>e \<in> set m. k < fst e" using "2.prems"(2) by (simp_all add: key_sorted_Cons)
  show ?case
  proof (cases "k \<le> wp")
    case le: True
    show ?thesis
    proof (cases "wp < k + csize d")
      case True
      then obtain t where t: "reassemble_loop m (k + csize d) (snd (ByteStream_write t out)) = Inr (m', wp', out')"
        using "2.prems"(1) le by (auto simp: bindE_eq_Inr)
      note w = write_wf [OF "2.prems"(3), of t]
      show ?thesis using "2.IH"(1) [OF le True t m(1) conjunct1 [OF w]] conjunct2 [OF w] by auto
    next
      case False
      then obtain n where n: "reassemble_loop m wp out = Inr (n, wp', out')" "m' = (k, d) # n"
        using "2.prems"(1) le by (auto simp: bindE_eq_Inr)
      note ih = "2.IH"(2) [OF le False n(1) m(1) "2.prems"(3)]
      have "k < fst e" if "e \<in> set n" for e using ih m(2) that by fastforce
      then show ?thesis using ih n(2) by (auto simp: key_sorted_Cons)
    qed
  qed (use "2.prems" in auto)
qed simp

lemma tidy_loop_wf:
  "tidy_loop old m = Inr m' \<Longrightarrow> key_sorted (old # m) \<Longrightarrow> key_sorted m' \<and> fst ` set m' \<subseteq> fst ` set (old # m)"
proof (induction old m arbitrary: m' rule: tidy_loop.induct)
  case (2 ok od k d m)
  have m: "key_sorted ((k, d) # m)" "ok < k" "\<forall>e \<in> set m. ok < fst e" and skip: "\<And>x. key_sorted ((ok, x) # m)"
    using "2.prems"(2) by (auto simp: key_sorted_Cons)
  show ?case
  proof (cases "k < ok + csize od")
    case True
    have "\<exists>x. key_sorted m' \<and> fst ` set m' \<subseteq> fst ` set ((ok, x) # m)"
    proof (cases "k + csize d \<le> ok + csize od")
      case inside: True
      then show ?thesis using "2.IH"(1) [OF True inside _ skip] "2.prems"(1) True by auto
    next
      case outside: False
      then obtain t where "tidy_loop (ok, od @ t) m = Inr m'" using "2.prems"(1) True by (auto simp: bindE_eq_Inr)
      then show ?thesis using "2.IH"(2) [OF True outside _ skip] by blast
    qed
    then show ?thesis by auto
  next
    case False
    then obtain n where n: "tidy_loop (k, d) m = Inr n" "m' = (ok, od) # n" using "2.prems"(1) by (auto simp: bindE_eq_Inr)
    note ih = "2.IH"(3) [OF False n(1) m(1)]
    have "ok < fst e" if "e \<in> set n" for e using ih m(2,3) that by fastforce
    then show ?thesis using ih n(2) by (auto simp: key_sorted_Cons)
  qed
qed simp

lemma sr_store_wf: "key_sorted m \<Longrightarrow> key_sorted (sr_store index d m)"
  by (simp add: sr_store_def key_sorted_map_insert key_sorted_map_assign split: option.split)

lemma tidy_wf: "tidy m = Inr m' \<Longrightarrow> key_sorted m \<Longrightarrow> key_sorted m'"
  by (cases m) (auto dest: tidy_loop_wf)

lemma push_substring_wf:
  assumes "sr_wf r" and "push_substring data index is_eof r = Inr r'"
  shows "sr_wf r' \<and> sr_capacity r' = sr_capacity r"
proof -
  obtain nd r1 m wp out n where t: "sr_trim data index is_eof r = Inr (nd, r1)"
    and l: "reassemble_loop (sr_store index nd (sr_stream r1)) (write_ptr r1) (sr_output r1) = Inr (m, wp, out)"
    and n: "tidy m = Inr n"
    and r': "r' = r1\<lparr>sr_stream := n, write_ptr := wp, sr_output := (if wp = eof_index r1 \<and> eof_f r1 then end_input out else out)\<rparr>"
    using assms(2) by (fastforce simp: push_substring_def bindE_eq_Inr)
  have r1: "sr_stream r1 = sr_stream r" "sr_output r1 = sr_output r" "sr_capacity r1 = sr_capacity r"
    using t by (auto simp: sr_trim_def Let_def bindE_eq_Inr split: if_splits)
  note lw = reassemble_loop_wf [OF l]
  have "key_sorted (sr_store index nd (sr_stream r1))" "bs_inv (sr_output r1)" "b_size (sr_output r1) = sr_capacity r1"
    using assms(1) r1 sr_store_wf by (simp_all add: sr_wf_def)
  then show ?thesis using lw tidy_wf [OF n] r1 r' by (simp add: sr_wf_def)
qed

text \<open>Any sequence of pushes and reads.\<close>

inductive sr_reach :: "size_t \<Rightarrow> StreamReassembler \<Rightarrow> bool" for capacity where
  reach_new: "sr_reach capacity (StreamReassembler_new capacity)"
| reach_push: "sr_reach capacity r \<Longrightarrow> push_substring data index is_eof r = Inr r' \<Longrightarrow> sr_reach capacity r'"
| reach_read: "sr_reach capacity r \<Longrightarrow> ByteStream_read n (sr_output r) = Inr (x, out) \<Longrightarrow> sr_reach capacity (r\<lparr>sr_output := out\<rparr>)"

lemma sr_reach_wf: "sr_reach capacity r \<Longrightarrow> sr_wf r \<and> sr_capacity r = capacity"
proof (induction rule: sr_reach.induct)
  case reach_new
  then show ?case by (simp add: sr_wf_def StreamReassembler_new_def) (simp add: ByteStream_new_def)
next
  case (reach_push r data index is_eof r')
  then show ?case using push_substring_wf by auto
next
  case (reach_read r n x out)
  then have inv: "bs_inv (sr_output r)" by (simp add: sr_wf_def)
  have "b_size out = b_size (sr_output r)" using reach_read(2) ByteStream_read_eq [OF inv, of n] by auto
  then show ?case using reach_read bs_inv_read [OF inv reach_read(2)] by (simp add: sr_wf_def)
qed

subsection \<open>Beyond the window\<close>

lemma reassemble_loop_settled:
  "\<forall>e \<in> set m. settled (unat wp) e \<and> hi e < 2 ^ 64 \<Longrightarrow> reassemble_loop m wp out = Inr (m, wp, out)"
proof (induction m wp out rule: reassemble_loop.induct)
  case (2 k d m wp out)
  have hi: "unat k + length d < 2 ^ 64" and se: "settled (unat wp) (k, d)" using 2(3) by auto
  have "unat (k + csize d) = unat k + length d"
    using hi unat_csize [of d] unat_plus_nowrap [of k "csize d"] by simp
  then have "k \<le> wp \<Longrightarrow> \<not> wp < k + csize d"
    using se by (simp add: settled_def word_le_nat_alt word_less_nat_alt not_less)
  then show ?case using 2 by auto
qed simp

lemma tidy_loop_separated:
  "separated (old # m) \<Longrightarrow> \<forall>e \<in> set (old # m). hi e < 2 ^ 64 \<Longrightarrow> tidy_loop old m = Inr (old # m)"
proof (induction old m rule: tidy_loop.induct)
  case (2 ok od k d m)
  have hi: "unat ok + length od < 2 ^ 64" and sep: "unat ok + length od \<le> unat k" using 2 by (auto simp: separated_Cons)
  have "unat (ok + csize od) = unat ok + length od"
    using hi unat_csize [of od] unat_plus_nowrap [of ok "csize od"] by simp
  then have "\<not> k < ok + csize od" using sep by (simp add: word_less_nat_alt)
  then show ?case using 2(3-5) by (auto simp: separated_Cons)
qed simp

lemma tidy_separated: "separated m \<Longrightarrow> \<forall>e \<in> set m. hi e < 2 ^ 64 \<Longrightarrow> tidy m = Inr m"
  by (cases m) (simp_all add: tidy_loop_separated del: tidy_loop.simps)

text \<open>The length passed to \<open>substr\<close> wraps around, so that nothing is cut.\<close>

lemma sr_trim_beyond:
  assumes inv: "sr_inv S r" and out: "sr_window r < unat index" and fit: "unat index + length data < 2 ^ 64"
  shows "sr_trim data index is_eof r = Inr (data, r\<lparr>read_ptr := bytes_read (sr_output r)\<rparr>)"
proof -
  let ?w = "bytes_read (sr_output r) + sr_capacity r"
  have w: "unat ?w = sr_window r"
    using out fit unat_plus_nowrap [of "read_count (sr_output r)" "sr_capacity r"]
    by (simp add: sr_window_def bytes_read_def)
  have d: "unat (csize data) = length data" using fit by (intro unat_csize) simp
  have "unat (index + csize data) = unat index + length data" using fit d unat_plus_nowrap [of index "csize data"] by simp
  then have "index + csize data > ?w" using out w by (simp add: word_less_nat_alt)
  moreover have "unat (?w - index) = 2 ^ 64 - (unat index - sr_window r)"
    using out w by (simp add: unat_sub_if_size word_size) 
  then have "csize data \<le> ?w - index" using d fit out by (simp add: word_le_nat_alt)
  ultimately show ?thesis using d by (simp add: sr_trim_def Let_def substr_def min_def)
qed

lemma write_ptr_in_window:
  assumes "sr_inv S r"
  shows "unat (write_ptr r) \<le> sr_window r"
proof -
  note c = sr_inv_carries [OF assms]
  have "length (bts (sr_output r)) \<le> unat (sr_capacity r)"
    using carries_inv [OF c] assms unfolding bs_inv_def sr_inv_def by metis
  then show ?thesis using carries_length [OF c] sr_inv_wp [OF assms] by (simp add: sr_window_def)
qed

lemma push_beyond:
  assumes inv: "sr_inv S r" and out: "sr_window r < unat index" and fit: "unat index + length data < 2 ^ 64"
  shows "push_substring data index is_eof r =
    Inr (r\<lparr>read_ptr := bytes_read (sr_output r), sr_stream := sr_stream r @ [(index, data)]\<rparr>)"
proof -
  let ?m = "sr_stream r @ [(index, data)]"
  have post: "tidy_post S (unat (write_ptr r)) (sr_window r) (sr_stream r) (sr_stream r)"
    using inv unfolding sr_inv_def by blast
  note wp = write_ptr_in_window [OF inv]
  have e: "separated (sr_stream r)" "\<forall>e \<in> set (sr_stream r). settled (unat (write_ptr r)) e \<and> hi e \<le> sr_window r"
    using post by (auto simp: tidy_post_def)
  have less: "\<forall>e \<in> set (sr_stream r). fst e < index" using e(2) out by (force simp: word_less_nat_alt)
  then have store: "sr_store index data (sr_stream r) = ?m"
    by (auto simp: sr_store_def map_find_def map_insert_last split: option.splits dest!: map_of_SomeD)
  have all: "\<forall>e \<in> set ?m. settled (unat (write_ptr r)) e \<and> hi e < 2 ^ 64"
    using e(2) out fit wp by (auto simp: settled_def)
  have "separated ?m" using e out by (force simp: separated_def sorted_wrt_append)
  then have t: "tidy ?m = Inr ?m" using all by (intro tidy_separated) auto
  have "write_ptr r = eof_index r \<and> eof_f r \<Longrightarrow> end_input (sr_output r) = sr_output r"
    using inv by (auto simp: sr_inv_def end_input_def)
  then show ?thesis
    unfolding push_substring_def sr_trim_beyond [OF assms]
    by (auto simp: store reassemble_loop_settled [OF all] t)
qed

subsection \<open>Properties\<close>

text \<open>
  (C15) Functional correctness of \<open>push_substring\<close>. The state abstracts to the set of stream
  positions received. Pushing a piece of the stream \<open>S\<close> that starts inside the window adds exactly
  the positions of the piece below \<open>bytes_read + capacity\<close>; the assembled prefix always reaches to
  the first position not received, so every newly contiguous byte is written at once; the end of
  input is signalled exactly when the end is known and everything before it is assembled.
\<close>

theorem push_substring_spec:
  assumes "sr_inv S r" and "substring_of S data index is_eof" and "unat index \<le> sr_window r"
  shows "\<exists>r'. push_substring data index is_eof r = Inr r' \<and> sr_inv S r' \<and>
     received r' = received r \<union> {unat index..<min (unat index + length data) (sr_window r)} \<and>
     unat (bytes_written (sr_output r')) = (LEAST n. n \<notin> received r') \<and>
     (input_ended (sr_output r') \<longleftrightarrow>
        (eof_f r \<or> is_eof \<and> unat index + length data \<le> sr_window r) \<and>
        unat (bytes_written (sr_output r')) = length S)"
proof -
  obtain r' where r': "push_substring data index is_eof r = Inr r'" "sr_inv S r'"
      "received r' = received r \<union> {unat index..<min (unat index + length data) (sr_window r)}"
      "eof_f r' \<longleftrightarrow> eof_f r \<or> (is_eof \<and> unat index + length data \<le> sr_window r)"
    using sr.push_law [OF assms] by blast
  then show ?thesis
    using sr.prefix_law [OF r'(2)] sr_inv_ended [OF r'(2)] sr_inv_wp [OF r'(2)]
    by (auto simp: bytes_written_def)
qed

theorem push_substring_spec_witness:
  "\<exists>r'. push_substring [98, 99] 1 True (StreamReassembler_new 2) = Inr r' \<and> sr_inv [97, 98, 99] r' \<and>
     received r' = received (StreamReassembler_new 2) \<union>
       {unat (1 :: uint64_t)..<min (unat (1 :: uint64_t) + length [98, 99 :: byte])
          (sr_window (StreamReassembler_new 2))}"
proof -
  have "sr_inv [97, 98, 99] (StreamReassembler_new 2)" by (simp add: sr_inv_new)
  moreover have "substring_of [97, 98, 99] [98, 99] 1 True"
    by (simp add: substring_of_def agrees_def bslice_def)
  moreover have "unat (1 :: uint64_t) \<le> sr_window (StreamReassembler_new 2)" by simp
  ultimately show ?thesis using push_substring_spec by blast
qed

text \<open>
  (C16) The reader sees a prefix of the stream. In every run of pushes of pieces of \<open>S\<close> that start inside
  the window, that is at an index of at most \<open>bytes_read + capacity\<close>, and of reads, however the pieces
  overlap, repeat or arrive out of order, what the reader was given followed by what is still buffered
  is the prefix of \<open>S\<close> up to the first position not received; and once the input has ended it is all
  of \<open>S\<close>. The receiver drops segments that start beyond the window before it pushes; for such pieces the
  property fails.
\<close>

theorem reassembler_delivers_prefix:
  assumes "sr_run S capacity dl r" and "length S + unat capacity < 2 ^ 64"
  shows "dl @ bts (sr_output r) = take (LEAST n. n \<notin> received r) S \<and>
         (input_ended (sr_output r) \<longrightarrow> dl @ bts (sr_output r) = S)"
proof -
  have inv: "sr_inv S r" and dl: "dl = take (unat (read_count (sr_output r))) S"
    using sr_run_inv [OF assms] by auto
  show ?thesis
    using sr_inv_prefix [OF inv] sr.prefix_law [OF inv] sr_inv_ended [OF inv] dl by auto
qed

theorem reassembler_delivers_prefix_witness:
  "\<exists>r. push_all push_substring [([98, 99], 1, True), ([97], 0, False)] (StreamReassembler_new 8) = Inr r \<and>
     [] @ bts (sr_output r) = take (LEAST n. n \<notin> received r) [97, 98, 99]"
proof -
  have n0: "sr_run [97, 98, 99] 8 [] (StreamReassembler_new 8)" by (rule run_new)
  obtain r1 where r1: "push_substring [98, 99] 1 True (StreamReassembler_new 8) = Inr r1"
    using push_substring_total by blast
  obtain r2 where r2: "push_substring [97] 0 False r1 = Inr r2"
    using push_substring_total by blast
  have "sr_run [97, 98, 99] 8 [] r1"
    by (rule run_push [OF n0 _ _ r1])
      (simp_all add: substring_of_def agrees_def bslice_def sr_window_def StreamReassembler_new_def)
  then have "sr_run [97, 98, 99] 8 [] r2"
    by (rule run_push [OF _ _ _ r2]) (simp_all add: substring_of_def agrees_def bslice_def)
  then show ?thesis
    using reassembler_delivers_prefix [of "[97, 98, 99]" 8 "[]" r2] r1 r2 by simp
qed

text \<open>
  (C17) Arrival order and duplicates do not matter: pushing the same pieces in any other order, any
  number of times each, assembles the same prefix, ends the input in the same cases and has received
  the same positions.
\<close>

theorem reassembler_order_insensitive:
  assumes "sr_inv S r" and "\<forall>p \<in> set ps. piece_of S (sr_window r) p" and "set qs = set ps"
  shows "\<exists>r1 r2. push_all push_substring ps r = Inr r1 \<and> push_all push_substring qs r = Inr r2 \<and>
           received r1 = received r2 \<and>
           bytes_written (sr_output r1) = bytes_written (sr_output r2) \<and>
           (input_ended (sr_output r1) \<longleftrightarrow> input_ended (sr_output r2))"
proof -
  obtain r1 r2 where r: "push_all push_substring ps r = Inr r1" "push_all push_substring qs r = Inr r2"
      "sr_inv S r1" "sr_inv S r2" "received r1 = received r2"
      "unat (write_ptr r1) = unat (write_ptr r2)" "eof_f r1 \<longleftrightarrow> eof_f r2"
    using sr.push_all_order [OF assms] by blast
  then have "write_ptr r1 = write_ptr r2" by (simp add: word_unat_eq_iff)
  then show ?thesis
    using r sr_inv_wp sr_inv_ended by (metis bytes_written_def)
qed

theorem reassembler_order_insensitive_witness:
  "\<exists>r1 r2. push_all push_substring [([97], 0, False), ([98, 99], 1, True)] (StreamReassembler_new 8) = Inr r1 \<and>
     push_all push_substring [([98, 99], 1, True), ([97], 0, False), ([98, 99], 1, True)]
       (StreamReassembler_new 8) = Inr r2 \<and>
     received r1 = received r2"
proof -
  let ?ps = "[([97], 0, False), ([98, 99], 1, True)] :: (bytes \<times> uint64_t \<times> bool) list"
  let ?qs = "[([98, 99], 1, True), ([97], 0, False), ([98, 99], 1, True)] :: (bytes \<times> uint64_t \<times> bool) list"
  have "sr_inv [97, 98, 99] (StreamReassembler_new 8)" by (simp add: sr_inv_new)
  moreover have "\<forall>p \<in> set ?ps. piece_of [97, 98, 99] (sr_window (StreamReassembler_new 8)) p"
    by (simp add: piece_of_def substring_of_def agrees_def bslice_def)
  moreover have "set ?qs = set ?ps" by auto
  ultimately show ?thesis using reassembler_order_insensitive by blast
qed

text \<open>
  (C18) Memory bound and accounting. In every run of pushes of pieces of \<open>S\<close> that start inside the window,
  and of reads, the bytes waiting in the output stream and the unassembled bytes together do not exceed
  the capacity, and \<open>unassembled_bytes\<close> counts every received position beyond the prefix once, however
  often it was pushed. Pieces that start beyond the window are excluded; they break the bound.
\<close>

theorem reassembler_within_capacity:
  assumes run: "sr_run S capacity dl r" and len: "length S + unat capacity < 2 ^ 64"
  shows "unat (buffer_size (sr_output r)) + unat (unassembled_bytes r) \<le> unat capacity \<and>
         unat (unassembled_bytes r) = card (received r - {0..<unat (bytes_written (sr_output r))}) \<and>
         (sr_empty r \<longleftrightarrow> received r = {0..<unat (bytes_written (sr_output r))})"
proof -
  have inv: "sr_inv S r" using sr_run_inv [OF assms] by simp
  have "sr_reach capacity r" using run by (induction rule: sr_run.induct) (auto intro: sr_reach.intros)
  then have cap: "sr_capacity r = capacity" using sr_reach_wf by blast
  have "finite (received r)"
    using received_bounds(1) [OF inv] finite_subset by blast
  moreover have "{0..<unat (write_ptr r)} \<subseteq> received r" by (simp add: received_def)
  moreover have "sr_empty r \<longleftrightarrow> unat (unassembled_bytes r) = 0"
    by (simp add: sr_empty_def unat_eq_0)
  ultimately show ?thesis
    using sr_capacity_bound [OF inv] unat_unassembled [OF inv] cap
      unat_buffer_size [OF carries_inv [OF sr_inv_carries [OF inv]]] sr_inv_wp [OF inv]
    by (auto simp: bytes_written_def)
qed

theorem reassembler_within_capacity_witness:
  "\<exists>r. push_substring [98, 99] 1 True (StreamReassembler_new 2) = Inr r \<and> unassembled_bytes r = 1 \<and>
     unat (buffer_size (sr_output r)) + unat (unassembled_bytes r) \<le> 2 \<and>
     unat (unassembled_bytes r) = card (received r - {0..<unat (bytes_written (sr_output r))})"
proof -
  have "case push_substring [98, 99] 1 True (StreamReassembler_new 2) of Inr r \<Rightarrow> unassembled_bytes r = 1 | Inl _ \<Rightarrow> False"
    by code_simp
  then obtain r where r: "push_substring [98, 99] 1 True (StreamReassembler_new 2) = Inr r" "unassembled_bytes r = 1"
    by (auto split: sum.splits)
  have "sr_run [97, 98, 99] 2 [] r"
    by (rule run_push [OF run_new _ _ r(1)]) (simp_all add: substring_of_def agrees_def bslice_def)
  from reassembler_within_capacity [OF this] r show ?thesis by simp
qed

text \<open>
  (C19) A reassembler is well-formed whatever is pushed into it, pieces that contradict each other, wrap
  around or lie outside the window included: the stored substrings are in a map, in strictly ascending
  order; the output stream never holds more than its capacity, which never changes, and its counters
  agree with its contents; and the next push, whatever it is, returns.
\<close>
theorem reassembler_wellformed:
  assumes "sr_reach capacity r"
  shows "sorted_wrt (<) (map fst (sr_stream r)) \<and> sr_capacity r = capacity \<and> b_size (sr_output r) = capacity \<and>
    length (bts (sr_output r)) \<le> unat capacity \<and>
    bytes_written (sr_output r) = bytes_read (sr_output r) + buffer_size (sr_output r) \<and>
    (\<exists>r'. push_substring data index is_eof r = Inr r')"
  using sr_reach_wf [OF assms] push_substring_total [of data index is_eof r]
  by (auto simp: sr_wf_def key_sorted_def bs_inv_def bytes_written_def bytes_read_def buffer_size_def)

theorem reassembler_wellformed_witness:
  "\<exists>r. push_substring [1, 2] 18446744073709551615 True (StreamReassembler_new 3) = Inr r \<and>
     sorted_wrt (<) (map fst (sr_stream r)) \<and> length (bts (sr_output r)) \<le> 3"
proof -
  obtain r where r: "push_substring [1, 2] 18446744073709551615 True (StreamReassembler_new 3) = Inr r"
    using push_substring_total by blast
  from reassembler_wellformed [OF reach_push [OF reach_new r]] r show ?thesis by auto
qed

text \<open>
  \<open>push_substring\<close> returns for every state and every argument: none of its three \<open>substr\<close>
  calls is ever out of range, even when positions wrap around.
\<close>

theorem push_substring_never_throws:
  "\<exists>r'. push_substring data index is_eof r = Inr r'"
  by (rule push_substring_total)

text \<open>
  (C36) Substrings beyond the window are not discarded. In every valid state, for every \<open>index\<close> past
  \<open>bytes_read + capacity\<close> the length passed to \<open>substr\<close> wraps around to a huge number, so that a substring
  of any length is stored whole and counted as unassembled, whatever the capacity; only its end of stream
  is dropped.
\<close>
theorem beyond_window_is_stored:
  assumes "sr_inv S r" and "sr_window r < unat index" and "unat index + length data < 2 ^ 64"
  shows "\<exists>r'. push_substring data index is_eof r = Inr r' \<and> sr_stream r' = sr_stream r @ [(index, data)] \<and>
     unassembled_bytes r' = unassembled_bytes r + csize data \<and> sr_output r' = sr_output r \<and>
     eof_f r' = eof_f r"
proof -
  have "write_ptr r < index"
    using write_ptr_in_window [OF assms(1)] assms(2) by (simp add: word_less_nat_alt)
  then show ?thesis
    by (simp add: push_beyond [OF assms] unassembled_bytes_def unassembled_loop_eq csize_def)
qed

theorem beyond_window_is_stored_witness:
  "\<exists>r'. push_substring [122, 122, 122] 4 False (StreamReassembler_new 2) = Inr r' \<and> unassembled_bytes r' = 3 \<and> sr_capacity (StreamReassembler_new 2) = 2"
proof -
  have "unassembled_bytes (StreamReassembler_new 2) = 0" "sr_capacity (StreamReassembler_new 2) = 2"
    by (simp_all add: unassembled_bytes_def StreamReassembler_new_def)
  then show ?thesis
    using beyond_window_is_stored [OF sr_inv_new [of "[]" 2], of 4 "[122, 122, 122]" False] by (auto simp: csize_def)
qed

text \<open>
  Bytes stored in this way can be lost. With capacity 2, a byte is pushed at index 4; after \<open>ab\<close> is pushed
  and read and \<open>cd\<close> is pushed, the byte at 4 is handed to the full output stream, which drops it: the
  write pointer says 5 bytes were assembled, the output stream has only 4.
\<close>

theorem window_wrap_loses_bytes:
  "(case push_all push_substring [([122], 4, False), ([97, 98], 0, False)] (StreamReassembler_new 2) of
      Inl _ \<Rightarrow> False
    | Inr r \<Rightarrow> unassembled_bytes r = 1 \<and>
        (case ByteStream_read 2 (sr_output r) of
           Inl _ \<Rightarrow> False
         | Inr (x, out) \<Rightarrow> x = [97, 98] \<and>
            (case push_substring [99, 100] 2 False (r\<lparr>sr_output := out\<rparr>) of
               Inl _ \<Rightarrow> False
             | Inr r' \<Rightarrow> write_ptr r' = 5 \<and> bytes_written (sr_output r') = 4 \<and>
                 unassembled_bytes r' = 0)))"
  by code_simp

text \<open>
  A duplicate of data that is already assembled stays in the map for good: \<open>empty()\<close> reports
  that no substring is stored, yet the internal map still holds the two duplicate bytes.
\<close>

theorem stale_duplicates_are_kept:
  "(case push_all push_substring [([97, 98], 0, False), ([97, 98], 0, False)] (StreamReassembler_new 8) of
      Inl _ \<Rightarrow> False
    | Inr r \<Rightarrow> sr_empty r \<and> sr_stream r = [(0, [97, 98])])"
  by code_simp

end
