(* ===== verification/Buffers.thy ===== *)
theory Buffers
  imports Sponge_Prelude
begin

text \<open>
  \<open>Buffer\<close>, \<open>BufferList\<close> and \<open>BufferViewList\<close> (libsponge/util/buffer.hh, buffer.cc): read-only byte
  strings that discard bytes from the front without copying. A \<open>Buffer\<close> shares its storage with its
  copies; nobody writes to the storage, so sharing is not observable and the storage is a value of
  the record. \<open>None\<close> is the null \<open>shared_ptr\<close>.
\<close>

record Buffer =
  storage :: "bytes option"
  starting_offset :: size_t

definition Buffer_empty :: Buffer where
  "Buffer_empty = \<lparr>storage = None, starting_offset = 0\<rparr>"

definition Buffer_of :: "bytes \<Rightarrow> Buffer" where
  "Buffer_of s = \<lparr>storage = Some s, starting_offset = 0\<rparr>"

text \<open>\<open>str()\<close>: the view \<open>{data + offset, size - offset}\<close>; the offset never passes the size.\<close>

definition buf_str :: "Buffer \<Rightarrow> bytes" where
  "buf_str b =
     (case storage b of
        None \<Rightarrow> []
      | Some s \<Rightarrow> take (unat (csize s - starting_offset b)) (drop (unat (starting_offset b)) s))"

definition buf_size :: "Buffer \<Rightarrow> size_t" where
  "buf_size b = csize (buf_str b)"

definition buf_at :: "Buffer \<Rightarrow> size_t \<Rightarrow> cpp_error + uint8_t" where
  "buf_at b n =
     (if n < csize (buf_str b) then Inr (buf_str b ! unat n)
      else Inl (OutOfRange ''basic_string_view::at''))"

definition buf_copy :: "Buffer \<Rightarrow> bytes" where
  "buf_copy b = buf_str b"

definition buf_remove_prefix :: "size_t \<Rightarrow> Buffer \<Rightarrow> cpp_error + Buffer" where
  "buf_remove_prefix n b =
     (if n > csize (buf_str b) then Inl (OutOfRange ''Buffer::remove_prefix'')
      else
        let b = b\<lparr>starting_offset := starting_offset b + n\<rparr>
        in Inr (case storage b of
                  None \<Rightarrow> b
                | Some s \<Rightarrow> if starting_offset b = csize s then b\<lparr>storage := None\<rparr> else b))"

record BufferList =
  buffers :: "Buffer list"

definition BufferList_empty :: BufferList where
  "BufferList_empty = \<lparr>buffers = []\<rparr>"

definition BufferList_of :: "Buffer \<Rightarrow> BufferList" where
  "BufferList_of b = \<lparr>buffers = [b]\<rparr>"

fun append_loop :: "Buffer list \<Rightarrow> BufferList \<Rightarrow> BufferList" where
  "append_loop [] l = l"
| "append_loop (b # bs) l = append_loop bs (l\<lparr>buffers := buffers l @ [b]\<rparr>)"

definition bl_append :: "BufferList \<Rightarrow> BufferList \<Rightarrow> BufferList" where
  "bl_append other l = append_loop (buffers other) l"

definition BufferList_of_string :: "bytes \<Rightarrow> BufferList" where
  "BufferList_of_string s = bl_append (BufferList_of (Buffer_of s)) BufferList_empty"

definition bl_to_Buffer :: "BufferList \<Rightarrow> cpp_error + Buffer" where
  "bl_to_Buffer l =
     (case buffers l of
        [] \<Rightarrow> Inr Buffer_empty
      | [b] \<Rightarrow> Inr b
      | _ \<Rightarrow> Inl (RuntimeError
           ''BufferList: please use concatenate() to combine a multi-Buffer BufferList into one Buffer''))"

fun concat_loop :: "Buffer list \<Rightarrow> bytes \<Rightarrow> bytes" where
  "concat_loop [] ret = ret"
| "concat_loop (b # bs) ret = concat_loop bs (ret @ buf_str b)"

definition bl_concatenate :: "BufferList \<Rightarrow> bytes" where
  "bl_concatenate l = concat_loop (buffers l) []"

fun size_loop :: "Buffer list \<Rightarrow> size_t \<Rightarrow> size_t" where
  "size_loop [] ret = ret"
| "size_loop (b # bs) ret = size_loop bs (ret + buf_size b)"

definition bl_size :: "BufferList \<Rightarrow> size_t" where
  "bl_size l = size_loop (buffers l) 0"

text \<open>The loop ends at once after the partial removal, which sets \<open>n\<close> to 0.\<close>

fun bl_remove_loop :: "size_t \<Rightarrow> Buffer list \<Rightarrow> cpp_error + Buffer list" where
  "bl_remove_loop n [] = (if n > 0 then Inl (OutOfRange ''BufferList::remove_prefix'') else Inr [])"
| "bl_remove_loop n (b # bs) =
     (if n > 0 then
        if n < csize (buf_str b) then bindE (buf_remove_prefix n b) (\<lambda>b'. Inr (b' # bs))
        else bl_remove_loop (n - csize (buf_str b)) bs
      else Inr (b # bs))"

definition bl_remove_prefix :: "size_t \<Rightarrow> BufferList \<Rightarrow> cpp_error + BufferList" where
  "bl_remove_prefix n l = bindE (bl_remove_loop n (buffers l)) (\<lambda>bs. Inr \<lparr>buffers = bs\<rparr>)"

text \<open>A \<open>BufferViewList\<close> holds views; a view is the string it shows.\<close>

record BufferViewList =
  views :: "bytes list"

definition BufferViewList_of_string :: "bytes \<Rightarrow> BufferViewList" where
  "BufferViewList_of_string s = \<lparr>views = [s]\<rparr>"

definition BufferViewList_of :: "BufferList \<Rightarrow> BufferViewList" where
  "BufferViewList_of l = \<lparr>views = map buf_str (buffers l)\<rparr>"

fun bvl_remove_loop :: "size_t \<Rightarrow> bytes list \<Rightarrow> cpp_error + bytes list" where
  "bvl_remove_loop n [] = (if n > 0 then Inl (OutOfRange ''BufferListView::remove_prefix'') else Inr [])"
| "bvl_remove_loop n (v # vs) =
     (if n > 0 then
        if n < csize v then Inr (drop (unat n) v # vs)
        else bvl_remove_loop (n - csize v) vs
      else Inr (v # vs))"

definition bvl_remove_prefix :: "size_t \<Rightarrow> BufferViewList \<Rightarrow> cpp_error + BufferViewList" where
  "bvl_remove_prefix n l = bindE (bvl_remove_loop n (views l)) (\<lambda>vs. Inr \<lparr>views = vs\<rparr>)"

fun view_size_loop :: "bytes list \<Rightarrow> size_t \<Rightarrow> size_t" where
  "view_size_loop [] ret = ret"
| "view_size_loop (v # vs) ret = view_size_loop vs (ret + csize v)"

definition bvl_size :: "BufferViewList \<Rightarrow> size_t" where
  "bvl_size l = view_size_loop (views l) 0"

text \<open>An \<open>iovec\<close> is a pointer to the bytes and their number.\<close>

definition bvl_as_iovecs :: "BufferViewList \<Rightarrow> (bytes \<times> size_t) list" where
  "bvl_as_iovecs l = map (\<lambda>x. (x, csize x)) (views l)"

subsection \<open>The common interface: a byte string that can lose a prefix\<close>

locale prefix_view =
  fixes ok :: "'b \<Rightarrow> bool"
    and str :: "'b \<Rightarrow> bytes"
    and size_of :: "'b \<Rightarrow> size_t"
    and remove :: "size_t \<Rightarrow> 'b \<Rightarrow> cpp_error + 'b"
  assumes size_law: "ok b \<Longrightarrow> unat (size_of b) = length (str b)"
    and remove_law: "ok b \<Longrightarrow> unat n \<le> length (str b) \<Longrightarrow>
      \<exists>b'. remove n b = Inr b' \<and> ok b' \<and> str b' = drop (unat n) (str b)"
    and remove_too_much: "ok b \<Longrightarrow> length (str b) < unat n \<Longrightarrow> \<exists>w. remove n b = Inl (OutOfRange w)"
begin

lemma remove_iff: "ok b \<Longrightarrow> (\<exists>b'. remove n b = Inr b') \<longleftrightarrow> unat n \<le> length (str b)"
  by (metis Inl_Inr_False not_less remove_law remove_too_much)

lemma remove_twice:
  assumes "ok b" and "unat m + unat n \<le> length (str b)"
  shows "\<exists>b1 b2 b3. remove m b = Inr b1 \<and> remove n b1 = Inr b2 \<and> remove (m + n) b = Inr b3 \<and>
           ok b2 \<and> ok b3 \<and> str b2 = str b3"
proof -
  obtain b1 where b1: "remove m b = Inr b1" "ok b1" "str b1 = drop (unat m) (str b)"
    using remove_law [OF assms(1), of m] assms(2) by auto
  obtain b2 where b2: "remove n b1 = Inr b2" "ok b2" "str b2 = drop (unat n) (str b1)"
    using remove_law [OF b1(2), of n, unfolded b1(3)] assms(2) b1(3) by fastforce
  have "unat m + unat n < 2 ^ 64"
    using assms(2) size_law [OF assms(1)] unat_lt_size [of "size_of b"] by simp
  then have "unat (m + n) = unat m + unat n" by (rule unat_plus_nowrap)
  then obtain b3 where "remove (m + n) b = Inr b3" "ok b3" "str b3 = drop (unat m + unat n) (str b)"
    using remove_law [OF assms(1), of "m + n"] assms(2) by auto
  then show ?thesis using b1 b2 by (simp add: add.commute)
qed

end

subsection \<open>Buffer\<close>

definition buf_ok :: "Buffer \<Rightarrow> bool" where
  "buf_ok b = (case storage b of
     None \<Rightarrow> True
   | Some s \<Rightarrow> length s < 2 ^ 64 \<and> unat (starting_offset b) \<le> length s)"

lemma buf_str_eq:
  "buf_ok b \<Longrightarrow> buf_str b = (case storage b of None \<Rightarrow> [] | Some s \<Rightarrow> drop (unat (starting_offset b)) s)"
  by (auto simp: buf_str_def buf_ok_def unat_minus_nat unat_csize split: option.splits)

lemma buf_str_lt: "buf_ok b \<Longrightarrow> length (buf_str b) < 18446744073709551616"
  by (auto simp: buf_str_eq buf_ok_def split: option.splits)

lemma unat_buf_size: "buf_ok b \<Longrightarrow> unat (csize (buf_str b)) = length (buf_str b)"
  using buf_str_lt [of b] by (simp add: unat_csize)

lemma buf_remove_law:
  assumes ok: "buf_ok b" and n: "unat n \<le> length (buf_str b)"
  shows "\<exists>b'. buf_remove_prefix n b = Inr b' \<and> buf_ok b' \<and> buf_str b' = drop (unat n) (buf_str b)"
proof (cases "storage b")
  case None
  then have "n = 0" using n ok by (simp add: buf_str_eq unat_eq_0)
  then show ?thesis using None by (simp add: buf_remove_prefix_def buf_ok_def buf_str_def)
next
  case (Some s)
  have s: "length s < 2 ^ 64" "unat (starting_offset b) + unat n \<le> length s"
    using ok n Some by (auto simp: buf_ok_def buf_str_eq [OF ok])
  have off: "unat (starting_offset b + n) = unat (starting_offset b) + unat n"
    using s by (simp add: unat_plus_nowrap)
  define b' where "b' = (if starting_offset b + n = csize s
     then b\<lparr>starting_offset := starting_offset b + n, storage := None\<rparr>
     else b\<lparr>starting_offset := starting_offset b + n\<rparr>)"
  have "\<not> n > csize (buf_str b)" using n unat_buf_size [OF ok] by (simp add: word_less_nat_alt)
  then have run: "buf_remove_prefix n b = Inr b'"
    using Some by (simp add: buf_remove_prefix_def b'_def)
  have full: "starting_offset b + n = csize s \<Longrightarrow> unat (starting_offset b) + unat n = length s"
    using off s(1) unat_csize by metis
  have ok': "buf_ok b'" using s off Some by (auto simp: b'_def buf_ok_def)
  have "buf_str b' = drop (unat n) (buf_str b)"
    unfolding buf_str_eq [OF ok'] buf_str_eq [OF ok]
    using full off Some by (auto simp: b'_def add.commute)
  then show ?thesis using run ok' by blast
qed

interpretation bufv: prefix_view buf_ok buf_str buf_size buf_remove_prefix
proof unfold_locales
  show "\<exists>w. buf_remove_prefix n b = Inl (OutOfRange w)"
    if "buf_ok b" "length (buf_str b) < unat n" for b n
    using that by (simp add: buf_remove_prefix_def word_less_nat_alt unat_buf_size)
qed (auto simp: buf_size_def unat_buf_size buf_remove_law)

lemma buf_ok_of [simp]: "buf_ok (Buffer_of s) \<longleftrightarrow> length s < 2 ^ 64"
  by (simp add: buf_ok_def Buffer_of_def)

lemma buf_ok_empty [simp]: "buf_ok Buffer_empty"
  by (simp add: buf_ok_def Buffer_empty_def)

lemma buf_str_of [simp]: "length s < 2 ^ 64 \<Longrightarrow> buf_str (Buffer_of s) = s"
  by (simp add: buf_str_eq) (simp add: Buffer_of_def)

lemma buf_str_empty [simp]: "buf_str Buffer_empty = []"
  by (simp add: buf_str_def Buffer_empty_def)

lemma buf_at_eq: "buf_ok b \<Longrightarrow> unat n < length (buf_str b) \<Longrightarrow> buf_at b n = Inr (buf_str b ! unat n)"
  by (simp add: buf_at_def word_less_nat_alt unat_buf_size)

subsection \<open>Lists of views\<close>

lemma view_size_loop_eq: "view_size_loop vs r = r + csize (concat vs)"
  by (induction vs r rule: view_size_loop.induct) (auto simp: csize_def)

lemma unat_ge_csize:
  "length v < 2 ^ 64 \<Longrightarrow> \<not> n < csize v \<Longrightarrow> unat (n - csize v) = unat n - length v \<and> length v \<le> unat n"
  by (simp add: word_less_nat_alt unat_csize unat_minus_nat)

lemma bvl_remove_loop_ok:
  "length (concat vs) < 2 ^ 64 \<Longrightarrow> unat n \<le> length (concat vs) \<Longrightarrow>
   \<exists>vs'. bvl_remove_loop n vs = Inr vs' \<and> concat vs' = drop (unat n) (concat vs)"
proof (induction n vs rule: bvl_remove_loop.induct)
  case (2 n v vs)
  have v: "length v < 2 ^ 64" using 2(2) by simp
  consider "n = 0" | "0 < n" "n < csize v" | "0 < n" "\<not> n < csize v"
    by (auto simp: word_gt_0)
  then show ?case
  proof cases
    case 2
    then have "unat n < length v" using v by (simp add: word_less_nat_alt unat_csize)
    then show ?thesis using 2 by simp
  next
    case 3
    then show ?thesis using 2 unat_ge_csize [OF v 3(2)] by simp
  qed simp
qed (auto simp: unat_eq_0)

lemma bvl_remove_loop_throws:
  "length (concat vs) < 2 ^ 64 \<Longrightarrow> length (concat vs) < unat n \<Longrightarrow>
   \<exists>w. bvl_remove_loop n vs = Inl (OutOfRange w)"
proof (induction n vs rule: bvl_remove_loop.induct)
  case (2 n v vs)
  have v: "length v < 2 ^ 64" using 2(2) by simp
  have n: "0 < n" "\<not> n < csize v" using 2(3) v by (auto simp: word_less_nat_alt unat_csize)
  then show ?case using 2 unat_ge_csize [OF v n(2)] by simp
qed (auto simp: word_less_nat_alt)

definition bvl_ok :: "BufferViewList \<Rightarrow> bool" where
  "bvl_ok l \<longleftrightarrow> length (concat (views l)) < 2 ^ 64"

definition bvl_str :: "BufferViewList \<Rightarrow> bytes" where
  "bvl_str l = concat (views l)"

interpretation viewv: prefix_view bvl_ok bvl_str bvl_size bvl_remove_prefix
proof unfold_locales
  show "unat (bvl_size b) = length (bvl_str b)" if "bvl_ok b" for b
    using that by (simp add: bvl_ok_def bvl_str_def bvl_size_def view_size_loop_eq unat_csize)
  show "\<exists>b'. bvl_remove_prefix n b = Inr b' \<and> bvl_ok b' \<and> bvl_str b' = drop (unat n) (bvl_str b)"
    if "bvl_ok b" "unat n \<le> length (bvl_str b)" for b n
    using bvl_remove_loop_ok [of "views b" n] that
    by (force simp: bvl_ok_def bvl_str_def bvl_remove_prefix_def)
  show "\<exists>w. bvl_remove_prefix n b = Inl (OutOfRange w)"
    if "bvl_ok b" "length (bvl_str b) < unat n" for b n
    using bvl_remove_loop_throws [of "views b" n] that
    by (auto simp: bvl_ok_def bvl_str_def bvl_remove_prefix_def)
qed

subsection \<open>Lists of buffers: the views of a list behave like a list of views\<close>

definition bl_ok :: "BufferList \<Rightarrow> bool" where
  "bl_ok l \<longleftrightarrow> (\<forall>b\<in>set (buffers l). buf_ok b) \<and> length (concat (map buf_str (buffers l))) < 2 ^ 64"

lemma append_loop_eq: "buffers (append_loop bs l) = buffers l @ bs"
  by (induction bs l rule: append_loop.induct) auto

lemma concat_loop_eq: "concat_loop bs r = r @ concat (map buf_str bs)"
  by (induction bs r rule: concat_loop.induct) auto

lemma size_loop_eq: "size_loop bs r = view_size_loop (map buf_str bs) r"
  by (induction bs r rule: size_loop.induct) (auto simp: buf_size_def)

lemma bl_concatenate_eq: "bl_concatenate l = concat (map buf_str (buffers l))"
  by (simp add: bl_concatenate_def concat_loop_eq)

lemma bl_remove_loop_views:
  "\<forall>b\<in>set bs. buf_ok b \<Longrightarrow>
   (case bl_remove_loop n bs of
      Inl e \<Rightarrow> \<exists>w w'. e = OutOfRange w \<and> bvl_remove_loop n (map buf_str bs) = Inl (OutOfRange w')
    | Inr bs' \<Rightarrow> (\<forall>b\<in>set bs'. buf_ok b) \<and> bvl_remove_loop n (map buf_str bs) = Inr (map buf_str bs'))"
proof (induction n bs rule: bl_remove_loop.induct)
  case (2 n b bs)
  have b: "buf_ok b" using 2(2) by simp
  show ?case
  proof (cases "0 < n \<and> n < csize (buf_str b)")
    case True
    then have "unat n \<le> length (buf_str b)"
      using unat_buf_size [OF b] by (simp add: word_less_nat_alt)
    then obtain b' where "buf_remove_prefix n b = Inr b'" "buf_ok b'" "buf_str b' = drop (unat n) (buf_str b)"
      using bufv.remove_law [OF b] by blast
    then show ?thesis using True 2(2) by simp
  qed (use 2 in \<open>auto split: sum.splits\<close>)
qed auto

lemma bl_remove_prefix_views:
  assumes "bl_ok l"
  shows "case bl_remove_prefix n l of
      Inl e \<Rightarrow> \<exists>w w'. e = OutOfRange w \<and> bvl_remove_prefix n (BufferViewList_of l) = Inl (OutOfRange w')
    | Inr l' \<Rightarrow> (\<forall>b\<in>set (buffers l'). buf_ok b) \<and>
        bvl_remove_prefix n (BufferViewList_of l) = Inr (BufferViewList_of l')"
  using bl_remove_loop_views [of "buffers l" n] assms
  by (auto simp: bl_ok_def bl_remove_prefix_def bvl_remove_prefix_def BufferViewList_of_def
      split: sum.splits)

lemma bl_view_ok: "bl_ok l \<Longrightarrow> bvl_ok (BufferViewList_of l)"
  by (simp add: bl_ok_def bvl_ok_def BufferViewList_of_def)

lemma bl_view_str: "bvl_str (BufferViewList_of l) = bl_concatenate l"
  by (simp add: bvl_str_def BufferViewList_of_def bl_concatenate_eq)

lemma bl_ok_iff: "bl_ok l \<longleftrightarrow> (\<forall>b\<in>set (buffers l). buf_ok b) \<and> length (bl_concatenate l) < 2 ^ 64"
  by (simp add: bl_ok_def bl_concatenate_eq)

interpretation listv: prefix_view bl_ok bl_concatenate bl_size bl_remove_prefix
proof unfold_locales
  show "unat (bl_size l) = length (bl_concatenate l)" if "bl_ok l" for l
    using viewv.size_law [OF bl_view_ok [OF that]]
    by (simp add: bvl_str_def bl_concatenate_eq bl_size_def size_loop_eq bvl_size_def BufferViewList_of_def)
  show "\<exists>l'. bl_remove_prefix n l = Inr l' \<and> bl_ok l' \<and>
      bl_concatenate l' = drop (unat n) (bl_concatenate l)"
    if "bl_ok l" "unat n \<le> length (bl_concatenate l)" for l n
    using viewv.remove_law [OF bl_view_ok, of l n] bl_remove_prefix_views [of l n] that
    by (auto simp: bl_view_str bl_ok_iff bvl_str_def bl_concatenate_eq BufferViewList_of_def
        split: sum.splits)
  show "\<exists>w. bl_remove_prefix n l = Inl (OutOfRange w)"
    if "bl_ok l" "length (bl_concatenate l) < unat n" for l n
    using viewv.remove_too_much [OF bl_view_ok, of l n] bl_remove_prefix_views [of l n] that
    by (auto simp: bl_view_str split: sum.splits)
qed

lemma bl_concatenate_append:
  "bl_concatenate (bl_append other l) = bl_concatenate l @ bl_concatenate other"
  by (simp add: bl_append_def append_loop_eq bl_concatenate_eq)

subsection \<open>Properties\<close>

text \<open>
  (C33) Discarding a prefix of a \<open>BufferList\<close>. For a list of well-formed buffers, \<open>remove_prefix(n)\<close>
  returns exactly when n is at most the list's size; the list then shows the old bytes without the
  first n, is again well formed, and its \<open>size()\<close> is the number of bytes it shows. Otherwise it
  throws \<open>out_of_range\<close>.
\<close>
theorem bufferlist_remove_prefix:
  assumes "bl_ok l"
  shows "if unat n \<le> length (bl_concatenate l)
         then \<exists>l'. bl_remove_prefix n l = Inr l' \<and> bl_ok l' \<and>
                bl_concatenate l' = drop (unat n) (bl_concatenate l) \<and>
                unat (bl_size l') = length (bl_concatenate l) - unat n
         else \<exists>w. bl_remove_prefix n l = Inl (OutOfRange w)"
  using listv.remove_law [OF assms, of n] listv.remove_too_much [OF assms, of n] listv.size_law
  by (auto simp: not_le)

theorem bufferlist_remove_prefix_witness:
  "\<exists>l'. bl_remove_prefix 3 \<lparr>buffers = [Buffer_of [1, 2], Buffer_of [3, 4, 5]]\<rparr> = Inr l' \<and> bl_concatenate l' = [4, 5]"
  using bufferlist_remove_prefix [of "\<lparr>buffers = [Buffer_of [1, 2], Buffer_of [3, 4, 5]]\<rparr>" 3]
  by (auto simp: bl_ok_def bl_concatenate_eq)

text \<open>
  A \<open>BufferViewList\<close> tracks the \<open>BufferList\<close> it was built from: discarding n bytes from the
  views of a list gives the views of the list with n bytes discarded, and one throws exactly when
  the other does.
\<close>
theorem bufferviewlist_simulates_bufferlist:
  assumes "bl_ok l"
  shows "case bl_remove_prefix n l of
           Inl e \<Rightarrow> \<exists>w w'. e = OutOfRange w \<and>
             bvl_remove_prefix n (BufferViewList_of l) = Inl (OutOfRange w')
         | Inr l' \<Rightarrow> bl_ok l' \<and> bvl_remove_prefix n (BufferViewList_of l) = Inr (BufferViewList_of l')"
proof (cases "bl_remove_prefix n l")
  case (Inl e)
  then show ?thesis using bl_remove_prefix_views [OF assms, of n] by simp
next
  case (Inr l')
  then have "bl_ok l'"
    using listv.remove_iff [OF assms, of n] listv.remove_law [OF assms, of n] by auto
  then show ?thesis using bl_remove_prefix_views [OF assms, of n] Inr by simp
qed

theorem bufferviewlist_simulates_bufferlist_witness:
  "bvl_remove_prefix 3 (BufferViewList_of \<lparr>buffers = [Buffer_of [1, 2], Buffer_of [3, 4, 5]]\<rparr>) =
   Inr (BufferViewList_of \<lparr>buffers = [\<lparr>storage = Some [3, 4, 5], starting_offset = 1\<rparr>]\<rparr>)"
proof -
  have "bl_remove_prefix 3 \<lparr>buffers = [Buffer_of [1, 2], Buffer_of [3, 4, 5]]\<rparr> =
     Inr \<lparr>buffers = [\<lparr>storage = Some [3, 4, 5], starting_offset = 1\<rparr>]\<rparr>"
    by code_simp
  then show ?thesis
    using bufferviewlist_simulates_bufferlist [of "\<lparr>buffers = [Buffer_of [1, 2], Buffer_of [3, 4, 5]]\<rparr>" 3]
    by (simp add: bl_ok_def)
qed

end
