(* ===== verification/Net_Parser.thy ===== *)
theory Net_Parser
  imports Buffers
begin

text \<open>
  \<open>NetParser\<close> and \<open>NetUnparser\<close> (libsponge/util/parser.hh, parser.cc): integers in network byte
  order, read from a \<open>Buffer\<close> and written to a string. The C++ templates over the integer type are
  definitions polymorphic in the word length; \<open>sizeof(T)\<close> is \<open>LENGTH('a) div 8\<close>.
\<close>

unbundle bit_operations_syntax

datatype ParseResult =
    NoError
  | BadChecksum
  | PacketTooShort
  | WrongIPVersion
  | HeaderTooShort
  | TruncatedPacket
  | Unsupported

text \<open>
  The table of names has six entries; the seventh enumerator indexes past its end.
\<close>

definition ParseResult_names :: "string list" where
  "ParseResult_names =
     [''NoError'', ''BadChecksum'', ''PacketTooShort'', ''WrongIPVersion'', ''HeaderTooShort'',
      ''TruncatedPacket'']"

fun ParseResult_index :: "ParseResult \<Rightarrow> nat" where
  "ParseResult_index NoError = 0"
| "ParseResult_index BadChecksum = 1"
| "ParseResult_index PacketTooShort = 2"
| "ParseResult_index WrongIPVersion = 3"
| "ParseResult_index HeaderTooShort = 4"
| "ParseResult_index TruncatedPacket = 5"
| "ParseResult_index Unsupported = 6"

definition as_string :: "ParseResult \<Rightarrow> cpp_error + string" where
  "as_string r =
     (if ParseResult_index r < length ParseResult_names
      then Inr (ParseResult_names ! ParseResult_index r)
      else Inl (UndefinedBehaviour ''as_string: read past the end of _names''))"

record NetParser =
  np_buffer :: Buffer
  np_error :: ParseResult

definition NetParser_new :: "Buffer \<Rightarrow> NetParser" where
  "NetParser_new b = \<lparr>np_buffer = b, np_error = NoError\<rparr>"

definition np_set_error :: "ParseResult \<Rightarrow> NetParser \<Rightarrow> NetParser" where
  "np_set_error r p = p\<lparr>np_error := r\<rparr>"

definition np_failed :: "NetParser \<Rightarrow> bool" where
  "np_failed p \<longleftrightarrow> np_error p \<noteq> NoError"

definition check_size :: "size_t \<Rightarrow> NetParser \<Rightarrow> NetParser" where
  "check_size n p = (if n > buf_size (np_buffer p) then np_set_error PacketTooShort p else p)"

text \<open>The loop of \<open>_parse_int\<close>; the first argument counts the iterations left.\<close>

fun parse_int_loop :: "nat \<Rightarrow> size_t \<Rightarrow> Buffer \<Rightarrow> 'a::len word \<Rightarrow> cpp_error + 'a word" where
  "parse_int_loop 0 i b ret = Inr ret"
| "parse_int_loop (Suc k) i b ret =
     bindE (buf_at b i) (\<lambda>x. parse_int_loop k (i + 1) b (push_bit 8 ret + ucast x))"

definition parse_int :: "NetParser \<Rightarrow> cpp_error + ('a::len word \<times> NetParser)" where
  "parse_int p =
     (let p = check_size (of_nat (LENGTH('a) div 8)) p
      in if np_failed p then Inr (0, p)
         else
           bindE (parse_int_loop (LENGTH('a) div 8) 0 (np_buffer p) 0) (\<lambda>ret.
           bindE (buf_remove_prefix (of_nat (LENGTH('a) div 8)) (np_buffer p)) (\<lambda>b.
           Inr (ret, p\<lparr>np_buffer := b\<rparr>))))"

definition np_u32 :: "NetParser \<Rightarrow> cpp_error + (uint32_t \<times> NetParser)" where
  "np_u32 p = parse_int p"

definition np_u16 :: "NetParser \<Rightarrow> cpp_error + (uint16_t \<times> NetParser)" where
  "np_u16 p = parse_int p"

definition np_u8 :: "NetParser \<Rightarrow> cpp_error + (uint8_t \<times> NetParser)" where
  "np_u8 p = parse_int p"

definition np_remove_prefix :: "size_t \<Rightarrow> NetParser \<Rightarrow> cpp_error + NetParser" where
  "np_remove_prefix n p =
     (let p = check_size n p
      in if np_failed p then Inr p
         else bindE (buf_remove_prefix n (np_buffer p)) (\<lambda>b. Inr (p\<lparr>np_buffer := b\<rparr>)))"

fun unparse_loop :: "nat \<Rightarrow> nat \<Rightarrow> 'a::len word \<Rightarrow> bytes \<Rightarrow> bytes" where
  "unparse_loop len 0 val s = s"
| "unparse_loop len (Suc k) val s =
     unparse_loop len k val (s @ [ucast (drop_bit ((len - (len - Suc k) - 1) * 8) val AND 0xff)])"

definition unparse_int :: "bytes \<Rightarrow> 'a::len word \<Rightarrow> bytes" where
  "unparse_int s val = unparse_loop (LENGTH('a) div 8) (LENGTH('a) div 8) val s"

definition nu_u32 :: "uint32_t \<Rightarrow> bytes \<Rightarrow> bytes" where
  "nu_u32 val s = unparse_int s val"

definition nu_u16 :: "uint16_t \<Rightarrow> bytes \<Rightarrow> bytes" where
  "nu_u16 val s = unparse_int s val"

definition nu_u8 :: "uint8_t \<Rightarrow> bytes \<Rightarrow> bytes" where
  "nu_u8 val s = unparse_int s val"

subsection \<open>Big-endian numbers\<close>

text \<open>The specification: k bytes, most significant first, and the number they stand for.\<close>

fun be_bytes :: "nat \<Rightarrow> nat \<Rightarrow> bytes" where
  "be_bytes 0 v = []"
| "be_bytes (Suc k) v = of_nat (v div 256 ^ k) # be_bytes k v"

definition be_value :: "bytes \<Rightarrow> nat" where
  "be_value bs = foldl (\<lambda>a b. a * 256 + unat b) 0 bs"

lemma length_be_bytes [simp]: "length (be_bytes k v) = k"
  by (induction k) auto

lemma unat_byte: "unat (of_nat n :: 8 word) = n mod 256"
  by (simp add: unat_of_nat)

lemma foldl_be_bytes:
  "foldl (\<lambda>a b. a * 256 + unat b) a (be_bytes k v) = a * 256 ^ k + v mod 256 ^ k"
proof (induction k arbitrary: a)
  case (Suc k)
  have "v mod 256 ^ Suc k = 256 ^ k * (v div 256 ^ k mod 256) + v mod 256 ^ k"
    by (simp add: mod_mult2_eq mult.commute [of 256])
  then show ?case by (simp add: Suc unat_byte) (simp add: algebra_simps)
qed simp

lemma be_value_bytes: "be_value (be_bytes k v) = v mod 256 ^ k"
  by (simp add: be_value_def foldl_be_bytes)

lemma byte_of_shift:
  "(ucast (drop_bit (m * 8) val AND 0xff) :: 8 word) = of_nat (unat (val :: 'a::len word) div 256 ^ m)"
proof -
  have "(0xff :: 'a word) = mask 8" by (simp add: mask_eq_exp_minus_1)
  then have "(ucast (w AND 0xff) :: 8 word) = ucast w" for w :: "'a word"
    by (simp only: take_bit_eq_mask [symmetric])
       (auto simp: bit_eq_iff bit_simps dest: bit_imp_le_length)
  moreover have "unat (drop_bit (m * 8) val) = unat val div 256 ^ m"
    by (simp only: unat_drop_bit_eq) (simp add: drop_bit_eq_div power_mult mult.commute [of m])
  ultimately show ?thesis by (metis of_nat_unat)
qed

lemma unparse_loop_eq:
  "k \<le> len \<Longrightarrow> unparse_loop len k val s = s @ be_bytes k (unat val)"
  by (induction len k val s rule: unparse_loop.induct) (auto simp: byte_of_shift)

lemma unparse_int_eq:
  "unparse_int s (val :: 'a::len word) = s @ be_bytes (LENGTH('a) div 8) (unat val)"
  by (simp add: unparse_int_def unparse_loop_eq)

lemma parse_int_loop_eq:
  assumes "buf_ok b"
  shows "unat i + k \<le> length (buf_str b) \<Longrightarrow>
    parse_int_loop k i b (of_nat a :: 'a::len word) =
      Inr (of_nat (foldl (\<lambda>a b. a * 256 + unat b) a (bslice (buf_str b) (unat i) k)))"
proof (induction k arbitrary: i a)
  case (Suc k)
  have i: "unat (i + 1) = unat i + 1"
    using Suc.prems buf_str_lt [OF assms] unat_plus_nowrap [of i 1] by simp
  have x: "buf_at b i = Inr (buf_str b ! unat i)"
    using Suc.prems by (simp add: buf_at_eq [OF assms])
  have step: "push_bit 8 (of_nat a :: 'a word) + ucast (buf_str b ! unat i) =
      of_nat (a * 256 + unat (buf_str b ! unat i))"
    by (simp add: push_bit_eq_mult mult.commute)
  have cut: "bslice (buf_str b) (unat i) (Suc k) = buf_str b ! unat i # bslice (buf_str b) (unat i + 1) k"
    using Suc.prems by (simp add: bslice_def Cons_nth_drop_Suc [symmetric])
  show ?case
    using Suc.IH [of "i + 1" "a * 256 + unat (buf_str b ! unat i)"] Suc.prems i
    by (simp add: x step cut)
qed (simp add: bslice_def)

subsection \<open>One step of the parser\<close>

text \<open>The buffer after a successful removal; used only where the removal succeeds.\<close>

definition buf_drop :: "nat \<Rightarrow> Buffer \<Rightarrow> Buffer" where
  "buf_drop n b = (case buf_remove_prefix (of_nat n) b of Inr b' \<Rightarrow> b' | Inl _ \<Rightarrow> b)"

lemma buf_drop:
  assumes "buf_ok b" and "n \<le> length (buf_str b)"
  shows "buf_remove_prefix (of_nat n) b = Inr (buf_drop n b)"
    and "buf_ok (buf_drop n b)"
    and "buf_str (buf_drop n b) = drop n (buf_str b)"
proof -
  have "unat (of_nat n :: size_t) = n"
    using assms buf_str_lt [of b] by (simp add: unat_of_nat)
  then obtain b' where "buf_remove_prefix (of_nat n) b = Inr b'" "buf_ok b'" "buf_str b' = drop n (buf_str b)"
    using bufv.remove_law [OF assms(1), of "of_nat n"] assms(2) by auto
  then show "buf_remove_prefix (of_nat n) b = Inr (buf_drop n b)" "buf_ok (buf_drop n b)"
    "buf_str (buf_drop n b) = drop n (buf_str b)"
    by (simp_all add: buf_drop_def)
qed

lemma check_size_eq:
  assumes "buf_ok (np_buffer p)"
  shows "check_size n p =
    (if length (buf_str (np_buffer p)) < unat n then np_set_error PacketTooShort p else p)"
  using bufv.size_law [OF assms] by (simp add: check_size_def word_less_nat_alt)

lemma len_lt [simp]: "LENGTH('a::len) < 2 ^ 64 \<Longrightarrow> unat (of_nat (LENGTH('a) div 8) :: size_t) = LENGTH('a) div 8"
  by (simp add: unat_of_nat)

lemma parse_int_ok:
  assumes ok: "buf_ok b" and len: "LENGTH('a::len) div 8 \<le> length (buf_str b)" and w: "LENGTH('a) < 2 ^ 64"
  shows "parse_int (NetParser_new b) =
    Inr (of_nat (be_value (take (LENGTH('a) div 8) (buf_str b))) :: 'a word,
         NetParser_new (buf_drop (LENGTH('a) div 8) b))"
proof -
  have "parse_int_loop (LENGTH('a) div 8) 0 b (0 :: 'a word) =
      Inr (of_nat (be_value (take (LENGTH('a) div 8) (buf_str b))))"
    using parse_int_loop_eq [OF ok, of 0 "LENGTH('a) div 8" 0, where ?'a = 'a] len
    by (simp add: be_value_def bslice_def)
  then show ?thesis
    using len w ok by (simp add: parse_int_def NetParser_new_def check_size_eq np_failed_def buf_drop)
qed

lemma parse_int_short:
  assumes "buf_ok (np_buffer p)" and "LENGTH('a::len) < 2 ^ 64"
    and "np_failed p \<or> length (buf_str (np_buffer p)) < LENGTH('a) div 8"
  shows "parse_int p = Inr (0 :: 'a word, check_size (of_nat (LENGTH('a) div 8)) p)"
    and "np_failed (check_size (of_nat (LENGTH('a) div 8)) p)"
  using assms by (auto simp: parse_int_def check_size_eq np_failed_def np_set_error_def)

lemma NetParser_new_eq: "\<not> np_failed p \<Longrightarrow> p = NetParser_new (np_buffer p)"
  by (simp add: np_failed_def NetParser_new_def)

lemma np_remove_prefix_ok:
  assumes "buf_ok b" and "unat n \<le> length (buf_str b)"
  shows "np_remove_prefix n (NetParser_new b) = Inr (NetParser_new (buf_drop (unat n) b))"
  using buf_drop(1) [OF assms(1), of "unat n"] assms
  by (simp add: np_remove_prefix_def check_size_eq NetParser_new_def np_failed_def)

lemma np_remove_prefix_short:
  assumes "buf_ok (np_buffer p)" and "np_failed p \<or> length (buf_str (np_buffer p)) < unat n"
  shows "np_remove_prefix n p = Inr (check_size n p)" and "np_failed (check_size n p)"
  using assms by (auto simp: np_remove_prefix_def check_size_eq np_failed_def np_set_error_def)

lemma check_size_buffer [simp]: "np_buffer (check_size n p) = np_buffer p"
  by (simp add: check_size_def np_set_error_def)

lemma parse_int_total:
  assumes ok: "buf_ok (np_buffer p)" and w: "LENGTH('a::len) < 2 ^ 64"
  shows "\<exists>v :: 'a word. \<exists>p'. parse_int p = Inr (v, p') \<and> buf_ok (np_buffer p')"
proof (cases "np_failed p \<or> length (buf_str (np_buffer p)) < LENGTH('a) div 8")
  case True
  then show ?thesis using parse_int_short(1) [OF ok w] ok by simp
next
  case False
  then have "p = NetParser_new (np_buffer p)" by (intro NetParser_new_eq) simp
  then show ?thesis
    using parse_int_ok [OF ok _ w] False buf_drop(2) [OF ok, of "LENGTH('a) div 8"]
    by (metis NetParser.select_convs(1) NetParser_new_def not_less)
qed

lemma np_remove_prefix_total:
  assumes ok: "buf_ok (np_buffer p)"
  shows "\<exists>p'. np_remove_prefix n p = Inr p' \<and> buf_ok (np_buffer p')"
proof (cases "np_failed p \<or> length (buf_str (np_buffer p)) < unat n")
  case True
  then show ?thesis using np_remove_prefix_short(1) [OF ok] ok by simp
next
  case False
  then have "p = NetParser_new (np_buffer p)" by (intro NetParser_new_eq) simp
  then show ?thesis
    using np_remove_prefix_ok [OF ok, of n] False buf_drop(2) [OF ok, of "unat n"]
    by (metis NetParser.select_convs(1) NetParser_new_def not_less)
qed

subsection \<open>Properties\<close>

text \<open>
  (C26) What \<open>_parse_int\<close> returns, for every integer type. If the parser has an error or fewer bytes
  than the type needs are left, it returns 0, leaves the buffer alone and is in an error state
  afterwards (\<open>PacketTooShort\<close> if the bytes are missing). Otherwise it returns the big-endian value
  of the next bytes and consumes exactly those. It never throws.
\<close>
theorem parse_int_spec:
  assumes ok: "buf_ok (np_buffer p)" and w: "LENGTH('a::len) < 2 ^ 64"
  defines "n \<equiv> LENGTH('a) div 8" and "s \<equiv> buf_str (np_buffer p)"
  shows "\<exists>v :: 'a word. \<exists>p'. parse_int p = Inr (v, p') \<and> buf_ok (np_buffer p') \<and>
    (if np_failed p \<or> length s < n
     then v = 0 \<and> np_buffer p' = np_buffer p \<and>
          np_error p' = (if length s < n then PacketTooShort else np_error p)
     else v = of_nat (be_value (take n s)) \<and> buf_str (np_buffer p') = drop n s \<and> \<not> np_failed p')"
proof (cases "np_failed p \<or> length s < n")
  case True
  then show ?thesis
    using parse_int_short(1) [OF ok w] ok w
    by (auto simp: n_def s_def check_size_eq np_set_error_def)
next
  case False
  then have p: "p = NetParser_new (np_buffer p)" by (intro NetParser_new_eq) simp
  have le: "LENGTH('a) div 8 \<le> length (buf_str (np_buffer p))" using False by (simp add: n_def s_def)
  show ?thesis
    using parse_int_ok [OF ok le w] p False buf_drop [OF ok le]
    by (auto simp: n_def s_def NetParser_new_def np_failed_def)
qed

theorem parse_int_spec_witness:
  "\<exists>v :: 16 word. \<exists>p'. parse_int (NetParser_new (Buffer_of [1, 2, 3])) = Inr (v, p') \<and> v = 258 \<and>
     buf_str (np_buffer p') = [3]"
  using parse_int_spec [of "NetParser_new (Buffer_of [1, 2, 3])", where ?'a = 16]
  by (auto simp: NetParser_new_def np_failed_def be_value_def)

text \<open>
  Round trip of the network byte order, for every integer type of whole bytes: writing a value
  with \<open>NetUnparser\<close> and reading it back with \<open>NetParser\<close> gives the value, without an error, and
  leaves exactly the bytes that follow.
\<close>
theorem unparse_parse_roundtrip:
  fixes val :: "'a::len word"
  assumes "8 dvd LENGTH('a)" and "LENGTH('a) < 2 ^ 64" and "length (unparse_int [] val @ rest) < 2 ^ 64"
  shows "\<exists>p'. parse_int (NetParser_new (Buffer_of (unparse_int [] val @ rest))) = Inr (val, p') \<and>
    np_error p' = NoError \<and> buf_str (np_buffer p') = rest"
proof -
  define n where "n = LENGTH('a) div 8"
  have "(256::nat) ^ n = 2 ^ LENGTH('a)"
    using assms(1) power_mult [of "2::nat" 8 n] by (simp add: n_def)
  then have v: "(of_nat (unat val mod 256 ^ n) :: 'a word) = val" by simp
  show ?thesis
    using parse_int_ok [of "Buffer_of (unparse_int [] val @ rest)", where ?'a = 'a]
      buf_drop(3) [of "Buffer_of (unparse_int [] val @ rest)" n] assms v
    by (simp add: unparse_int_eq be_value_bytes flip: n_def) (simp add: NetParser_new_def)
qed

theorem unparse_parse_roundtrip_witness:
  "\<exists>p'. parse_int (NetParser_new (Buffer_of (unparse_int [] (0x01020304 :: 32 word) @ [9]))) =
          Inr (0x01020304 :: 32 word, p') \<and>
     np_error p' = NoError \<and> buf_str (np_buffer p') = [9]"
  by (rule unparse_parse_roundtrip) (simp_all add: unparse_int_eq)

text \<open>
  \<open>as_string\<close> has a name for every \<open>ParseResult\<close> except \<open>Unsupported\<close>, for which it reads past
  the end of its table of names.
\<close>
theorem as_string_unsupported_past_end:
  "(\<exists>e. as_string r = Inl e) \<longleftrightarrow> r = Unsupported"
  by (cases r) (simp_all add: as_string_def ParseResult_names_def)

end
