(* ===== verification/Internet_Checksum.thy ===== *)
theory Internet_Checksum
  imports Net_Parser
begin

text \<open>
  \<open>InternetChecksum\<close> (libsponge/util/util.hh, util.cc): the 16-bit one's complement checksum of
  RFC 1071, accumulated in a 32-bit register and folded at the end.
\<close>

record InternetChecksum =
  ck_sum :: uint32_t
  ck_parity :: bool

definition InternetChecksum_new :: "uint32_t \<Rightarrow> InternetChecksum" where
  "InternetChecksum_new initial_sum = \<lparr>ck_sum = initial_sum, ck_parity = False\<rparr>"

fun ck_add :: "bytes \<Rightarrow> InternetChecksum \<Rightarrow> InternetChecksum" where
  "ck_add [] c = c"
| "ck_add (x # data) c =
     (let val = (ucast x :: uint16_t);
          val = (if \<not> ck_parity c then push_bit 8 val else val)
      in ck_add data (c\<lparr>ck_sum := ck_sum c + ucast val, ck_parity := \<not> ck_parity c\<rparr>))"

lemma fold_step_unat:
  "unat (drop_bit 16 ret + (ret AND 0xffff) :: uint32_t) = unat ret div 65536 + unat ret mod 65536"
proof -
  have m: "ret AND 0xffff = take_bit 16 ret"
    by (simp add: take_bit_eq_mask mask_eq_exp_minus_1)
  have lo: "unat (ret AND 0xffff) = unat ret mod 65536"
    by (simp only: m unsigned_take_bit_eq) (simp add: take_bit_eq_mod)
  have hi: "unat (drop_bit 16 ret) = unat ret div 65536"
    by (simp only: unat_drop_bit_eq) (simp add: drop_bit_eq_div)
  have "unat ret div 65536 < 65536" using unsigned_less [of ret, where ?'a = nat] by simp
  moreover have "unat ret mod 65536 < 65536" by simp
  ultimately have "unat ret div 65536 + unat ret mod 65536 < 4294967296" by linarith
  then show ?thesis by (simp add: unat_word_ariths lo hi)
qed

function fold_carries :: "uint32_t \<Rightarrow> uint32_t" where
  "fold_carries ret =
     (if ret > 0xffff then fold_carries (drop_bit 16 ret + (ret AND 0xffff)) else ret)"
  by auto
termination
proof (relation "measure unat")
  fix ret :: uint32_t
  assume "ret > 0xffff"
  then have "65536 \<le> unat ret" by (simp add: word_less_nat_alt)
  then have "unat ret div 65536 * 65536 + unat ret mod 65536 = unat ret" "1 \<le> unat ret div 65536"
    by auto
  then show "(drop_bit 16 ret + (ret AND 0xffff), ret) \<in> measure unat"
    unfolding in_measure fold_step_unat by linarith
qed simp

declare fold_carries.simps [simp del]

definition ck_value :: "InternetChecksum \<Rightarrow> uint16_t" where
  "ck_value c = ucast (NOT (fold_carries (ck_sum c)))"

subsection \<open>The register holds the sum of the 16-bit words\<close>

text \<open>
  The specification's sum: bytes at even positions count 256-fold; the flag says whether the first
  byte is at an odd position.
\<close>

fun word_sum :: "bool \<Rightarrow> bytes \<Rightarrow> nat" where
  "word_sum odd_pos [] = 0"
| "word_sum odd_pos (x # xs) = (if odd_pos then unat x else 256 * unat x) + word_sum (\<not> odd_pos) xs"

lemma word_sum_append:
  "word_sum q (xs @ ys) = word_sum q xs + word_sum (q \<noteq> odd (length xs)) ys"
  by (induction q xs rule: word_sum.induct) auto

lemma unat_low_byte: "unat (ucast x :: uint16_t) = unat (x :: byte)"
  using unsigned_less [of x, where ?'a = nat] by (simp add: unsigned_ucast_eq take_bit_nat_eq_self)

lemma unat_high_byte: "unat (push_bit 8 (ucast x) :: uint16_t) = 256 * unat (x :: byte)"
proof -
  have "unat x < 256" using unsigned_less [of x, where ?'a = nat] by simp
  then show ?thesis by (simp add: push_bit_eq_mult unat_word_ariths unat_low_byte)
qed

lemma ck_add_eq:
  "ck_add data c = c\<lparr>ck_sum := ck_sum c + of_nat (word_sum (ck_parity c) data),
                     ck_parity := (ck_parity c \<noteq> odd (length data))\<rparr>"
proof (induction data c rule: ck_add.induct)
  case (2 x data c)
  have "(ucast (push_bit 8 (ucast x) :: uint16_t) :: uint32_t) = of_nat (256 * unat x)"
    using unat_high_byte [of x] by (metis of_nat_unat)
  moreover have "(ucast (ucast x :: uint16_t) :: uint32_t) = of_nat (unat x)"
    using unat_low_byte [of x] by (metis of_nat_unat)
  ultimately show ?case
    using 2 [OF refl refl] by (cases "ck_parity c") (auto simp: add.assoc)
qed simp

lemma ck_add_append: "ck_add (xs @ ys) c = ck_add ys (ck_add xs c)"
  by (induction xs c rule: ck_add.induct) (auto simp: Let_def)

subsection \<open>Folding the carries is reduction modulo 65535\<close>

lemma fold_nat: "65536 \<le> n \<Longrightarrow> (n div 65536 + n mod 65536 - 1) mod 65535 = (n - 1) mod (65535::nat)"
proof -
  assume "65536 \<le> n"
  then have q: "1 \<le> n div 65536" by auto
  have "n = n div 65536 * 65536 + n mod 65536" by simp
  then have "n - 1 = (n div 65536 + n mod 65536 - 1) + 65535 * (n div 65536)" using q by linarith
  then show ?thesis by (metis mod_mult_self2)
qed

lemma unat_fold_carries:
  "unat (fold_carries r) = (if r = 0 then 0 else (unat r - 1) mod 65535 + 1)"
proof (induction r rule: fold_carries.induct)
  case (1 r)
  show ?case
  proof (cases "r > 0xffff")
    case True
    then have big: "65536 \<le> unat r" by (simp add: word_less_nat_alt)
    let ?s = "drop_bit 16 r + (r AND 0xffff)"
    have "unat ?s \<noteq> 0" unfolding fold_step_unat using big by auto
    then have "?s \<noteq> 0" "r \<noteq> 0" using True by auto
    then show ?thesis
      using 1 [OF True] True fold_nat [OF big]
      by (simp add: fold_carries.simps [of r] fold_step_unat)
  next
    case False
    then have "unat r \<le> 65535" by (simp add: word_less_nat_alt not_less)
    moreover have "r = 0 \<or> 1 \<le> unat r" by (metis unat_0_iff less_one not_less)
    ultimately show ?thesis using False by (auto simp: fold_carries.simps [of r])
  qed
qed

lemma unat_ck_value: "unat (ck_value c) = 65535 - unat (fold_carries (ck_sum c))"
proof -
  let ?f = "fold_carries (ck_sum c)"
  have "(unat (ck_sum c) - 1) mod 65535 < 65535" by simp
  then have f: "unat ?f \<le> 65535" by (auto simp: unat_fold_carries)
  have "NOT ?f = - 1 - ?f" by (simp add: not_eq_complement)
  then have "unat (NOT ?f) = 4294967295 - unat ?f" 
    by (simp add: unat_sub unsigned_minus_1_eq_mask mask_eq_exp_minus_1)
  also have "\<dots> = (65535 - unat ?f) + 65535 * 65536" using f by linarith
  finally have "unat (NOT ?f) mod 65536 = (65535 - unat ?f) mod 65536" by (simp only: mod_mult_self1)
  then show ?thesis by (simp only: ck_value_def unsigned_ucast_eq) (simp add: take_bit_eq_mod)
qed

lemma ck_value_zero: "ck_value c = 0 \<longleftrightarrow> ck_sum c \<noteq> 0 \<and> 65535 dvd unat (ck_sum c)"
proof -
  let ?s = "unat (ck_sum c)"
  have lt: "(?s - 1) mod 65535 < 65535" by simp
  have "ck_value c = 0 \<longleftrightarrow> unat (ck_value c) = 0" by (simp add: unat_eq_0)
  also have "\<dots> \<longleftrightarrow> ck_sum c \<noteq> 0 \<and> (?s - 1) mod 65535 = 65534"
    using lt by (auto simp: unat_ck_value unat_fold_carries)
  also have "\<dots> \<longleftrightarrow> ck_sum c \<noteq> 0 \<and> 65535 dvd ?s"
  proof (cases "ck_sum c = 0")
    case False
    then obtain m where "?s = Suc m" by (metis unat_0_iff not0_implies_Suc)
    then show ?thesis using False by (auto simp: dvd_eq_mod_eq_0 mod_Suc)
  qed simp
  finally show ?thesis .
qed

lemma ck_sum_add:
  "ck_sum (ck_add data (InternetChecksum_new i)) = i + of_nat (word_sum False data)"
  by (simp add: ck_add_eq InternetChecksum_new_def)

lemma unat_ck_sum_add:
  assumes "unat i + word_sum False data < 2 ^ 32"
  shows "unat (ck_sum (ck_add data (InternetChecksum_new i))) = unat i + word_sum False data"
proof -
  have "i + of_nat (word_sum False data) = of_nat (unat i + word_sum False data)" by simp
  then show ?thesis using assms unat_of_nat [of "unat i + word_sum False data", where ?'a = 32]
    by (simp only: ck_sum_add) simp
qed

text \<open>Putting the complement of a sum into the sum makes it a positive multiple of 65535.\<close>

lemma complement_completes:
  assumes "unat (ck_sum c) = s" and "s' = s + unat (ck_value c)"
  shows "0 < s' \<and> 65535 dvd s'"
proof (cases "ck_sum c = 0")
  case True
  then show ?thesis using assms by (simp add: unat_ck_value unat_fold_carries)
next
  case False
  then obtain k where s: "s = Suc k" using assms(1) by (metis not0_implies_Suc unat_0_iff)
  have "k mod 65535 < 65535" by simp
  then have v: "unat (ck_value c) + k mod 65535 + 1 = 65535"
    using False assms(1) s by (simp add: unat_ck_value unat_fold_carries)
  have "k = 65535 * (k div 65535) + k mod 65535" by simp
  then have "s' = 65535 * (k div 65535 + 1)" unfolding assms(2) s distrib_left using v by linarith
  then show ?thesis using s assms(2) by simp
qed

text \<open>A checksum field at an even offset of a message; \<open>f\<close> is its value.\<close>

lemma word_sum_field:
  assumes "even (length pre)"
  shows "word_sum False (pre @ be_bytes 2 f @ post) = word_sum False (pre @ [0, 0] @ post) + f mod 65536"
proof -
  have "256 * (f div 256 mod 256) + f mod 256 = f mod (256 * 256)"
    by (simp only: mod_mult2_eq)
  then show ?thesis
    using assms by (simp add: word_sum_append numeral_2_eq_2 unat_byte)
qed

lemma unat_u16_lt: "unat (w :: uint16_t) < 65536"
  using unsigned_less [of w, where ?'a = nat] by simp

lemma ck_verifies:
  assumes "even (length pre)" and "unat i + word_sum False (pre @ [0, 0] @ post) + 65535 < 2 ^ 32"
  defines "v \<equiv> ck_value (ck_add (pre @ [0, 0] @ post) (InternetChecksum_new i))"
  shows "ck_value (ck_add (pre @ be_bytes 2 (unat v) @ post) (InternetChecksum_new i)) = 0"
proof -
  let ?s = "unat i + word_sum False (pre @ [0, 0] @ post)"
  let ?msg = "pre @ be_bytes 2 (unat v) @ post"
  have v: "unat v < 65536" by (rule unat_u16_lt)
  have zero: "unat (ck_sum (ck_add (pre @ [0, 0] @ post) (InternetChecksum_new i))) = ?s"
    by (rule unat_ck_sum_add) (use assms(2) in linarith)
  have msg: "unat i + word_sum False ?msg = ?s + unat v"
    using word_sum_field [OF assms(1), of "unat v" post] v by simp
  have bound: "unat i + word_sum False ?msg < 2 ^ 32"
    unfolding msg using assms(2) v by simp
  have "0 < ?s + unat v \<and> 65535 dvd ?s + unat v"
    using complement_completes [OF zero refl] by (simp only: v_def)
  then show ?thesis
    using unat_ck_sum_add [OF bound] unfolding msg ck_value_zero by (metis less_irrefl unat_0)
qed

subsection \<open>Properties\<close>

text \<open>
  (C25) \<open>value()\<close> is the Internet checksum: it is the 16-bit complement of the one's complement sum of
  the big-endian 16-bit words fed to \<open>add\<close> (an odd last byte padded with zero) plus the initial sum,
  however the data were split over calls to \<open>add\<close>, as long as the 32-bit register does not overflow.
  The one's complement sum of a positive total is its representative in 1..65535 modulo 65535.
\<close>
theorem checksum_value_spec:
  assumes "unat i + word_sum False (a @ b) < 2 ^ 32"
  defines "t \<equiv> unat i + word_sum False (a @ b)"
  shows "unat (ck_value (ck_add b (ck_add a (InternetChecksum_new i)))) =
           65535 - (if t = 0 then 0 else (t - 1) mod 65535 + 1)"
proof -
  have s: "unat (ck_sum (ck_add (a @ b) (InternetChecksum_new i))) = t"
    unfolding t_def by (rule unat_ck_sum_add [OF assms(1)])
  then have "ck_sum (ck_add (a @ b) (InternetChecksum_new i)) = 0 \<longleftrightarrow> t = 0"
    using unat_0_iff by metis
  then show ?thesis by (simp add: unat_ck_value unat_fold_carries s flip: ck_add_append)
qed

theorem checksum_value_spec_witness:
  "unat (ck_value (ck_add [0xff] (ck_add [0xff, 0xff, 0x01] (InternetChecksum_new 2)))) = 65022"
  using checksum_value_spec [of 2 "[0xff, 0xff, 0x01]" "[0xff]"] by (simp del: ck_add.simps)

text \<open>
  (C24) A receiver that runs the checksum over a message whose checksum field was filled in by the
  sender gets 0: for a field at an even offset, computing \<open>value()\<close> with the field zero and writing
  the result there in network byte order makes the checksum of the whole message 0.
\<close>
theorem checksum_verifies:
  assumes "even (length pre)" and "unat i + word_sum False (pre @ [0, 0] @ post) + 65535 < 2 ^ 32"
  shows "ck_value (ck_add
           (nu_u16 (ck_value (ck_add (pre @ [0, 0] @ post) (InternetChecksum_new i))) pre @ post)
           (InternetChecksum_new i)) = 0"
  using ck_verifies [OF assms] by (simp add: nu_u16_def unparse_int_eq)

theorem checksum_verifies_witness:
  "ck_value (ck_add
     (nu_u16 (ck_value (ck_add ([0x45, 0] @ [0, 0] @ [7]) (InternetChecksum_new 9))) [0x45, 0] @ [7])
     (InternetChecksum_new 9)) = 0"
  by (rule checksum_verifies) simp_all

end
