(* ===== verification/Wrapping_Integers.thy ===== *)
theory Wrapping_Integers
  imports Sponge_Prelude
begin

text \<open>
  \<open>WrappingInt32\<close> (libsponge/wrapping_integers.hh, wrapping_integers.cc): 32-bit TCP sequence
  numbers relative to an initial sequence number, and their translation to and from 64-bit absolute
  sequence numbers. The class has one member, the raw 32-bit value.
\<close>

unbundle bit_operations_syntax

datatype WrappingInt32 = WrappingInt32 (raw_value: uint32_t)

text \<open>\<open>operator-(WrappingInt32, WrappingInt32)\<close> returns the difference as an \<open>int32_t\<close>.\<close>

definition wi_diff :: "WrappingInt32 \<Rightarrow> WrappingInt32 \<Rightarrow> int" where
  "wi_diff a b = sint (raw_value a - raw_value b)"

definition wi_eq :: "WrappingInt32 \<Rightarrow> WrappingInt32 \<Rightarrow> bool" where
  "wi_eq a b = (raw_value a = raw_value b)"

definition wi_neq :: "WrappingInt32 \<Rightarrow> WrappingInt32 \<Rightarrow> bool" where
  "wi_neq a b = (\<not> wi_eq a b)"

definition wi_plus :: "WrappingInt32 \<Rightarrow> uint32_t \<Rightarrow> WrappingInt32" where
  "wi_plus a b = WrappingInt32 (raw_value a + b)"

definition wi_minus :: "WrappingInt32 \<Rightarrow> uint32_t \<Rightarrow> WrappingInt32" where
  "wi_minus a b = wi_plus a (- b)"

definition wrap :: "uint64_t \<Rightarrow> WrappingInt32 \<Rightarrow> WrappingInt32" where
  "wrap n isn =
     (let i = ucast (n AND 0xFFFFFFFF) :: uint32_t;
          r = i + raw_value isn
      in WrappingInt32 r)"

definition unwrap :: "WrappingInt32 \<Rightarrow> WrappingInt32 \<Rightarrow> uint64_t \<Rightarrow> uint64_t" where
  "unwrap n isn checkpoint =
     (let m = wrap checkpoint isn;
          mm = raw_value m;
          nn = raw_value n;
          offset = nn - mm
      in if offset < push_bit 31 1 \<or> checkpoint < push_bit 32 1 - ucast offset
         then checkpoint + ucast offset
         else checkpoint - push_bit 32 1 + ucast offset)"

subsection \<open>Both directions on natural numbers\<close>

lemma unat_low_half: "unat (ucast (n AND 0xFFFFFFFF) :: uint32_t) = unat (n :: uint64_t) mod 2 ^ 32"
proof -
  have "(0xFFFFFFFF :: uint64_t) = mask 32" by (simp add: mask_eq_exp_minus_1)
  then have "n AND 0xFFFFFFFF = take_bit 32 n" by (simp add: take_bit_eq_mask)
  then have "unat (ucast (n AND 0xFFFFFFFF) :: uint32_t) = take_bit 32 (unat n)"
    by (simp add: unsigned_ucast_eq unsigned_take_bit_eq)
  then show ?thesis by (simp add: take_bit_eq_mod)
qed

lemma unat_wrap: "unat (raw_value (wrap x isn)) = (unat x + unat (raw_value isn)) mod 2 ^ 32"
  by (simp add: wrap_def Let_def unat_word_ariths unat_low_half mod_add_left_eq)

lemma unat_add_mod32:
  "unat (a + b :: uint64_t) mod 2 ^ 32 = (unat a + unat b) mod 2 ^ 32"
  by (simp add: unat_word_ariths mod_mod_cancel)

lemma wrap_cong:
  assumes "unat x mod 2 ^ 32 = unat y mod 2 ^ 32"
  shows "wrap x isn = wrap y isn"
proof -
  have "ucast (x AND 0xFFFFFFFF) = (ucast (y AND 0xFFFFFFFF) :: uint32_t)"
    using assms by (metis word_unat_eq_iff unat_low_half)
  then show ?thesis by (simp add: wrap_def Let_def)
qed

lemma wrap_inj:
  assumes "wrap x isn = wrap y isn"
  shows "unat x mod 2 ^ 32 = unat y mod 2 ^ 32"
proof -
  have "ucast (x AND 0xFFFFFFFF) = (ucast (y AND 0xFFFFFFFF) :: uint32_t)"
    using assms by (simp add: wrap_def Let_def)
  then show ?thesis using unat_low_half by metis
qed

text \<open>The distance, modulo \<open>2\<^sup>3\<^sup>2\<close>, from the checkpoint up to a number that wraps to \<open>n\<close>.\<close>

definition wi_offset :: "WrappingInt32 \<Rightarrow> WrappingInt32 \<Rightarrow> uint64_t \<Rightarrow> nat" where
  "wi_offset n isn checkpoint = unat (raw_value n - raw_value (wrap checkpoint isn))"

lemma wi_offset_lt: "wi_offset n isn c < 4294967296"
  using unsigned_less [of "raw_value n - raw_value (wrap c isn)", where ?'a = nat]
  by (simp add: wi_offset_def)

lemma sub_mod_nat:
  assumes "a < N" and "b < (N :: nat)"
  shows "(if b \<le> a then a - b else a + N - b) = (a + (N - b)) mod N"
proof (cases "b \<le> a")
  case True
  then have eq: "a + (N - b) = (a - b) + N" using assms by simp
  have "(a + (N - b)) mod N = a - b" unfolding eq using assms by simp
  then show ?thesis using True by (simp only: if_True)
next
  case False
  then show ?thesis using assms by simp
qed

lemma wi_offset_wrap: "wi_offset (wrap y isn) isn c = (unat y + (2 ^ 32 - unat c mod 2 ^ 32)) mod 2 ^ 32"
proof -
  have "raw_value (wrap y isn) - raw_value (wrap c isn) =
      ucast (y AND 0xFFFFFFFF) - (ucast (c AND 0xFFFFFFFF) :: uint32_t)"
    by (simp add: wrap_def Let_def)
  then have "wi_offset (wrap y isn) isn c =
      unat (ucast (y AND 0xFFFFFFFF) - (ucast (c AND 0xFFFFFFFF) :: uint32_t))"
    by (simp only: wi_offset_def)
  also have "\<dots> = (unat y mod 2 ^ 32 + (2 ^ 32 - unat c mod 2 ^ 32)) mod 2 ^ 32"
    using sub_mod_nat [of "unat y mod 2 ^ 32" "2 ^ 32" "unat c mod 2 ^ 32"]
    by (auto simp: unat_sub_if' unat_low_half split: if_splits)
  finally show ?thesis by (simp only: mod_add_left_eq)
qed

lemma unwrap_eq:
  "unwrap n isn c =
     (if wi_offset n isn c < 2 ^ 31 \<or> unat c < 2 ^ 32 - wi_offset n isn c
      then c + of_nat (wi_offset n isn c)
      else c - 2 ^ 32 + of_nat (wi_offset n isn c))"
proof -
  let ?off = "raw_value n - raw_value (wrap c isn)"
  have off: "unat ?off = wi_offset n isn c" by (simp add: wi_offset_def)
  have u: "unat (ucast ?off :: uint64_t) = wi_offset n isn c"
    using wi_offset_lt [of n isn c] by (simp add: unsigned_ucast_eq off [symmetric] take_bit_eq_mod)
  then have cast: "(ucast ?off :: uint64_t) = of_nat (wi_offset n isn c)"
    by (metis of_nat_unat ucast_id)
  have "unat (push_bit 32 1 - ucast ?off :: uint64_t) = 2 ^ 32 - wi_offset n isn c"
    using wi_offset_lt [of n isn c] u by (simp add: unat_minus_nat push_bit_eq_mult)
  moreover have "?off < push_bit 31 1 \<longleftrightarrow> wi_offset n isn c < 2 ^ 31"
    by (simp add: word_less_nat_alt off push_bit_eq_mult)
  ultimately show ?thesis
    using cast by (simp add: unwrap_def Let_def word_less_nat_alt push_bit_eq_mult)
qed

lemma wi_offset_above:
  assumes "unat c \<le> unat y"
  shows "wi_offset (wrap y isn) isn c = (unat y - unat c) mod 2 ^ 32"
proof -
  define d where "d = unat y - unat c"
  let ?z = "2 ^ 32 - unat c mod 2 ^ 32"
  have y: "unat y = unat c + d" using assms by (simp add: d_def)
  have "(unat y + ?z) mod 2 ^ 32 = (unat c + (d + ?z)) mod 2 ^ 32" by (simp only: y add.assoc)
  also have "\<dots> = (unat c mod 2 ^ 32 + (d + ?z)) mod 2 ^ 32" by (simp only: mod_add_left_eq)
  also have "unat c mod 2 ^ 32 + (d + ?z) = d + 2 ^ 32" by simp
  also have "(d + 2 ^ 32) mod 2 ^ 32 = d mod 2 ^ 32" by simp
  finally show ?thesis by (simp only: wi_offset_wrap d_def)
qed

lemma wi_offset_below:
  assumes "unat y < unat c"
  obtains k where "wi_offset (wrap y isn) isn c + (unat c - unat y) = 4294967296 * k" "0 < k"
proof -
  define d where "d = unat c - unat y"
  have d: "0 < d" "unat c = unat y + d" using assms by (simp_all add: d_def)
  have "(wi_offset (wrap y isn) isn c + d) mod 2 ^ 32 = (unat y + (2 ^ 32 - unat c mod 2 ^ 32) + d) mod 2 ^ 32"
    by (simp only: wi_offset_wrap mod_add_left_eq)
  also have "\<dots> = (unat c + (2 ^ 32 - unat c mod 2 ^ 32)) mod 2 ^ 32"
    using d(2) by (simp add: ac_simps)
  also have "\<dots> = (unat c mod 2 ^ 32 + (2 ^ 32 - unat c mod 2 ^ 32)) mod 2 ^ 32"
    by (simp only: mod_add_left_eq)
  finally obtain k where k: "wi_offset (wrap y isn) isn c + d = 4294967296 * k"
    by (auto simp: mod_eq_0_iff_dvd)
  moreover have "0 < k" using k d(1) by (cases k) auto
  ultimately show thesis using that by (simp add: d_def)
qed

lemma wi_offset_up:
  assumes "unat c \<le> unat y" and "unat y - unat c < 2 ^ 32"
  shows "wi_offset (wrap y isn) isn c = unat y - unat c"
  using assms by (simp add: wi_offset_above)

lemma wi_offset_down:
  assumes "unat y < unat c" and "unat c - unat y < 2 ^ 32"
  shows "wi_offset (wrap y isn) isn c = 2 ^ 32 - (unat c - unat y)"
proof -
  obtain k where k: "wi_offset (wrap y isn) isn c + (unat c - unat y) = 4294967296 * k" "0 < k"
    using assms(1) by (rule wi_offset_below)
  then have "4294967296 * k < 4294967296 * 2"
    using wi_offset_lt [of "wrap y isn" isn c] assms(2) by simp
  then have "k = 1" using k(2) by simp
  then show ?thesis using k by simp
qed

lemma wrap_unwrap_mod: "unat (unwrap n isn c) mod 2 ^ 32 = (unat c + wi_offset n isn c) mod 2 ^ 32"
proof -
  let ?o = "of_nat (wi_offset n isn c) :: uint64_t"
  have o: "unat ?o = wi_offset n isn c" using wi_offset_lt [of n isn c] by (simp add: unat_of_nat)
  have "unat (c - 2 ^ 32 + ?o) mod 2 ^ 32 = (unat (c - 2 ^ 32 + ?o) + 2 ^ 32) mod 2 ^ 32" by simp
  also have "\<dots> = unat (c - 2 ^ 32 + ?o + 2 ^ 32) mod 2 ^ 32"
    by (simp only: unat_add_mod32) simp
  also have "\<dots> = (unat c + wi_offset n isn c) mod 2 ^ 32"
    by (simp add: unat_add_mod32 [simplified] o)
  finally show ?thesis using unat_add_mod32 [of c ?o] o by (simp add: unwrap_eq)
qed

lemma wrap_unwrap: "wrap (unwrap n isn c) isn = n"
proof -
  have "unat (raw_value (wrap (unwrap n isn c) isn)) = (unat c + wi_offset n isn c + unat (raw_value isn)) mod 2 ^ 32"
    by (metis unat_wrap wrap_unwrap_mod mod_add_left_eq)
  also have "\<dots> = (unat (raw_value (wrap c isn)) + wi_offset n isn c) mod 2 ^ 32"
    by (simp only: unat_wrap mod_add_left_eq) (simp add: ac_simps)
  also have "\<dots> = unat (raw_value (wrap c isn) + (raw_value n - raw_value (wrap c isn)))"
    by (simp only: unat_word_ariths wi_offset_def) simp
  finally have "unat (raw_value (wrap (unwrap n isn c) isn)) = unat (raw_value n)" by simp
  then have "raw_value (wrap (unwrap n isn c) isn) = raw_value n" by (rule word_unat_eq_iff [THEN iffD2])
  then show ?thesis by (rule WrappingInt32.expand)
qed

text \<open>How far apart two absolute sequence numbers are.\<close>

definition seq_dist :: "uint64_t \<Rightarrow> uint64_t \<Rightarrow> nat" where
  "seq_dist x y = (if unat x \<le> unat y then unat y - unat x else unat x - unat y)"

lemma unwrap_wrap:
  assumes "seq_dist y c < 2 ^ 31"
  shows "unwrap (wrap y isn) isn c = y"
proof (cases "unat c \<le> unat y")
  case True
  then have d: "unat y - unat c < 2 ^ 31" using assms by (auto simp: seq_dist_def split: if_splits)
  then have "wi_offset (wrap y isn) isn c = unat y - unat c" using True by (simp add: wi_offset_up)
  moreover have "c + of_nat (unat y - unat c) = y" using True by simp
  ultimately show ?thesis using d by (simp add: unwrap_eq)
next
  case False
  then have d: "unat c - unat y < 2 ^ 31" using assms by (auto simp: seq_dist_def split: if_splits)
  then have o: "wi_offset (wrap y isn) isn c = 2 ^ 32 - (unat c - unat y)"
    using False by (simp add: wi_offset_down)
  have "c - 2 ^ 32 + of_nat (2 ^ 32 - (unat c - unat y)) = y"
    using False d by simp
  moreover have "\<not> 2 ^ 32 - (unat c - unat y) < (2 ^ 31 :: nat)"
      "\<not> unat c < 2 ^ 32 - (2 ^ 32 - (unat c - unat y))"
    using d by simp_all
  ultimately show ?thesis by (simp only: unwrap_eq o simp_thms if_False)
qed

lemma seq_dist_above: "unat x = unat c + d \<Longrightarrow> seq_dist x c = d"
  by (simp add: seq_dist_def)

lemma seq_dist_below: "unat x = unat c - d \<Longrightarrow> d \<le> unat c \<Longrightarrow> seq_dist x c = d"
  by (simp add: seq_dist_def)

lemma offset_le_dist:
  assumes "unat c < 2 ^ 32 - wi_offset (wrap y isn) isn c"
  shows "wi_offset (wrap y isn) isn c \<le> seq_dist y c"
proof (cases "unat c \<le> unat y")
  case True
  then have "wi_offset (wrap y isn) isn c = (unat y - unat c) mod 2 ^ 32" by (rule wi_offset_above)
  also have "\<dots> \<le> unat y - unat c" by (rule mod_less_eq_dividend)
  finally show ?thesis using True by (auto simp: seq_dist_def)
next
  case False
  then obtain k where k: "wi_offset (wrap y isn) isn c + (unat c - unat y) = 4294967296 * k" "0 < k"
    using wi_offset_below [of y c isn] by auto
  have "wi_offset (wrap y isn) isn c + (unat c - unat y) < 4294967296"
    using assms False by simp
  then have "k = 0" using k(1) by simp
  then show ?thesis using k(2) by simp
qed

lemma unwrap_small:
  assumes "seq_dist y c \<ge> 2 ^ 31" and "unat c < 2 ^ 64 - 2 ^ 31"
  shows "seq_dist (unwrap (wrap y isn) isn c) c \<le> seq_dist y c"
proof -
  define off where "off = wi_offset (wrap y isn) isn c"
  have off: "off < 4294967296" "unat (of_nat off :: uint64_t) = off"
    using wi_offset_lt [of "wrap y isn" isn c] by (simp_all add: off_def unat_of_nat)
  have unw: "unwrap (wrap y isn) isn c =
      (if off < 2 ^ 31 \<or> unat c < 2 ^ 32 - off then c + of_nat off else c - 2 ^ 32 + of_nat off)"
    by (simp only: unwrap_eq off_def)
  consider (near) "off < 2 ^ 31" | (low) "off \<ge> 2 ^ 31" "unat c < 2 ^ 32 - off"
    | (down) "off \<ge> 2 ^ 31" "unat c \<ge> 2 ^ 32 - off" by linarith
  then show ?thesis
  proof cases
    case near
    then have "unat (c + of_nat off) = unat c + off"
      using assms(2) off(2) by (simp add: unat_plus_nowrap)
    then show ?thesis using near assms(1) seq_dist_above by (simp add: unw)
  next
    case low
    then have "unat (c + of_nat off) = unat c + off"
      using off by (simp add: unat_plus_nowrap)
    then show ?thesis using low offset_le_dist seq_dist_above by (simp add: unw off_def)
  next
    case down
    have "c - 2 ^ 32 + of_nat off = c - of_nat (2 ^ 32 - off)"
      using off(1) by simp
    moreover have "unat (of_nat (2 ^ 32 - off) :: uint64_t) = 2 ^ 32 - off"
      by (simp add: unat_of_nat)
    ultimately have "unat (c - 2 ^ 32 + of_nat off) = unat c - (2 ^ 32 - off)"
      using down by (simp only: unat_minus_nat)
    then have "seq_dist (c - 2 ^ 32 + of_nat off) c = 2 ^ 32 - off"
      using down(2) by (rule seq_dist_below)
    then show ?thesis using down assms(1) by (simp add: unw)
  qed
qed

subsection \<open>The interface the receiver and the sender rely on\<close>

text \<open>
  A codec for sequence numbers: relative numbers are decoded with the help of a checkpoint, and any
  absolute number less than \<open>2\<^sup>3\<^sup>1\<close> away from the checkpoint survives the round trip.
\<close>

locale seqno_codec =
  fixes enc :: "uint64_t \<Rightarrow> WrappingInt32"
    and dec :: "WrappingInt32 \<Rightarrow> uint64_t \<Rightarrow> uint64_t"
  assumes enc_dec: "enc (dec n c) = n"
    and dec_enc: "seq_dist y c < 2 ^ 31 \<Longrightarrow> dec (enc y) c = y"
begin

lemma dec_enc_below:
  assumes "unat y \<le> unat c" and "unat c < 2 ^ 31"
  shows "dec (enc y) c = y"
  using assms by (intro dec_enc) (auto simp: seq_dist_def)

lemma enc_inj_near:
  assumes "enc x = enc y" and "seq_dist x c < 2 ^ 31" and "seq_dist y c < 2 ^ 31"
  shows "x = y"
  using assms dec_enc by metis

end

interpretation wi: seqno_codec "\<lambda>x. wrap x isn" "\<lambda>n c. unwrap n isn c" for isn
  by unfold_locales (rule wrap_unwrap, rule unwrap_wrap)

subsection \<open>Properties\<close>

text \<open>
  (C22) \<open>unwrap\<close> meets its documentation: its result wraps to \<open>n\<close>, and no absolute sequence number
  that wraps to \<open>n\<close> is closer to the checkpoint. This holds for every checkpoint below
  \<open>2\<^sup>6\<^sup>4 - 2\<^sup>3\<^sup>1\<close>, including the ones near zero where the closest candidate below does not exist.
\<close>

theorem unwrap_closest:
  assumes "unat checkpoint < 2 ^ 64 - 2 ^ 31" and "wrap y isn = n"
  shows "wrap (unwrap n isn checkpoint) isn = n \<and>
         seq_dist (unwrap n isn checkpoint) checkpoint \<le> seq_dist y checkpoint"
proof (cases "seq_dist y checkpoint < 2 ^ 31")
  case True
  then show ?thesis using wi.dec_enc [OF True] assms(2) by auto
next
  case False
  then show ?thesis using unwrap_small [OF _ assms(1), of y isn] wi.enc_dec assms(2) by auto
qed

theorem unwrap_closest_witness:
  "wrap (unwrap (WrappingInt32 17) (WrappingInt32 15) 0x100000003) (WrappingInt32 15) = WrappingInt32 17 \<and>
   seq_dist (unwrap (WrappingInt32 17) (WrappingInt32 15) 0x100000003) 0x100000003
     \<le> seq_dist 2 0x100000003"
  by (rule unwrap_closest) (simp_all add: wrap_def)

text \<open>
  Round trip: an absolute sequence number less than \<open>2\<^sup>3\<^sup>1\<close> away from the checkpoint is recovered
  exactly from its 32-bit form, for every initial sequence number; and wrapping and unwrapping any
  32-bit number returns it for every checkpoint.
\<close>

theorem unwrap_wrap_roundtrip:
  assumes "seq_dist y checkpoint < 2 ^ 31"
  shows "unwrap (wrap y isn) isn checkpoint = y \<and> wrap (unwrap n isn checkpoint) isn = n"
  by (simp add: wi.dec_enc [OF assms] wi.enc_dec)

theorem unwrap_wrap_roundtrip_witness:
  "unwrap (wrap 0x300000001 (WrappingInt32 4294967290)) (WrappingInt32 4294967290) 0x300000000 = 0x300000001 \<and>
   wrap (unwrap (WrappingInt32 7) (WrappingInt32 4294967290) 0x300000000) (WrappingInt32 4294967290) = WrappingInt32 7"
  by (rule unwrap_wrap_roundtrip) (simp add: seq_dist_def)

text \<open>
  \<open>wrap\<close> is addition modulo \<open>2\<^sup>3\<^sup>2\<close>: stepping the absolute number steps the relative one, so
  consecutive bytes get consecutive sequence numbers across the 32-bit wrap-around.
\<close>

theorem wrap_steps:
  "wrap (n + of_nat k) isn = wi_plus (wrap n isn) (of_nat k)"
proof -
  have "unat (raw_value (wrap (n + of_nat k) isn)) =
      (unat (n + of_nat k) mod 2 ^ 32 + unat (raw_value isn)) mod 2 ^ 32"
    by (simp only: unat_wrap mod_add_left_eq)
  also have "unat (n + of_nat k) mod 2 ^ 32 = (unat n + k) mod 2 ^ 32"
    by (simp add: unat_word_ariths unat_of_nat mod_mod_cancel mod_simps)
  also have "((unat n + k) mod 2 ^ 32 + unat (raw_value isn)) mod 2 ^ 32 =
      (unat (raw_value (wrap n isn)) + k) mod 2 ^ 32"
    by (simp only: unat_wrap mod_add_left_eq) (simp add: ac_simps)
  also have "\<dots> = unat (raw_value (wi_plus (wrap n isn) (of_nat k)))"
    by (simp add: wi_plus_def unat_word_ariths unat_of_nat mod_simps)
  finally have "raw_value (wrap (n + of_nat k) isn) = raw_value (wi_plus (wrap n isn) (of_nat k))"
    by (rule word_unat_eq_iff [THEN iffD2])
  then show ?thesis by (rule WrappingInt32.expand)
qed

end
