(* ===== verification/Tcp_Segment.thy ===== *)
theory Tcp_Segment
  imports Internet_Checksum Wrapping_Integers
begin

text \<open>
  \<open>TCPHeader\<close> and \<open>TCPSegment\<close> (libsponge/tcp_helpers): the wire format of a segment, its parser and
  serializer, and the checksum over header and payload.
\<close>

record TCPHeader =
  sport :: uint16_t
  dport :: uint16_t
  seqno :: WrappingInt32
  ackno :: WrappingInt32
  doff :: uint8_t
  urg_flag :: bool
  ack_flag :: bool
  psh_flag :: bool
  rst_flag :: bool
  syn_flag :: bool
  fin_flag :: bool
  win :: uint16_t
  cksum :: uint16_t
  uptr :: uint16_t

definition TCPHeader_LENGTH :: size_t where
  "TCPHeader_LENGTH = 20"

definition TCPHeader_new :: TCPHeader where
  "TCPHeader_new =
     \<lparr>sport = 0, dport = 0, seqno = WrappingInt32 0, ackno = WrappingInt32 0, doff = 5,
      urg_flag = False, ack_flag = False, psh_flag = False, rst_flag = False, syn_flag = False,
      fin_flag = False, win = 0, cksum = 0, uptr = 0\<rparr>"

text \<open>\<open>parse\<close> overwrites the header and advances the parser; both are returned with the result.\<close>

definition TCPHeader_parse :: "NetParser \<Rightarrow> cpp_error + (ParseResult \<times> TCPHeader \<times> NetParser)" where
  "TCPHeader_parse p =
     bindE (np_u16 p) (\<lambda>(sp, p).
     bindE (np_u16 p) (\<lambda>(dp, p).
     bindE (np_u32 p) (\<lambda>(sq, p).
     bindE (np_u32 p) (\<lambda>(ak, p).
     bindE (np_u8 p) (\<lambda>(off, p).
     bindE (np_u8 p) (\<lambda>(fl_b, p).
     bindE (np_u16 p) (\<lambda>(wn, p).
     bindE (np_u16 p) (\<lambda>(ck, p).
     bindE (np_u16 p) (\<lambda>(up, p).
       let h = \<lparr>sport = sp, dport = dp, seqno = WrappingInt32 sq, ackno = WrappingInt32 ak,
                doff = drop_bit 4 off,
                urg_flag = (fl_b AND 0x20 \<noteq> 0), ack_flag = (fl_b AND 0x10 \<noteq> 0),
                psh_flag = (fl_b AND 0x08 \<noteq> 0), rst_flag = (fl_b AND 0x04 \<noteq> 0),
                syn_flag = (fl_b AND 0x02 \<noteq> 0), fin_flag = (fl_b AND 0x01 \<noteq> 0),
                win = wn, cksum = ck, uptr = up\<rparr>
       in if doff h < 5 then Inr (HeaderTooShort, h, p)
          else
            bindE (np_remove_prefix (ucast (doff h) * 4 - TCPHeader_LENGTH) p) (\<lambda>p.
            if np_failed p then Inr (np_error p, h, p) else Inr (NoError, h, p)))))))))))"

definition TCPHeader_flags :: "TCPHeader \<Rightarrow> uint8_t" where
  "TCPHeader_flags h =
     (if urg_flag h then 0x20 else 0) OR (if ack_flag h then 0x10 else 0) OR
     (if psh_flag h then 0x08 else 0) OR (if rst_flag h then 0x04 else 0) OR
     (if syn_flag h then 0x02 else 0) OR (if fin_flag h then 0x01 else 0)"

definition TCPHeader_serialize :: "TCPHeader \<Rightarrow> cpp_error + bytes" where
  "TCPHeader_serialize h =
     (if doff h < 5 then Inl (RuntimeError ''TCP header too short'')
      else
        let ret = [];
            ret = nu_u16 (sport h) ret;
            ret = nu_u16 (dport h) ret;
            ret = nu_u32 (raw_value (seqno h)) ret;
            ret = nu_u32 (raw_value (ackno h)) ret;
            ret = nu_u8 (push_bit 4 (doff h)) ret;
            ret = nu_u8 (TCPHeader_flags h) ret;
            ret = nu_u16 (win h) ret;
            ret = nu_u16 (cksum h) ret;
            ret = nu_u16 (uptr h) ret
        in Inr (resize (4 * unat (doff h)) ret))"

definition TCPHeader_eq :: "TCPHeader \<Rightarrow> TCPHeader \<Rightarrow> bool" where
  "TCPHeader_eq h other \<longleftrightarrow>
     wi_eq (seqno h) (seqno other) \<and> wi_eq (ackno h) (ackno other) \<and> doff h = doff other \<and>
     urg_flag h = urg_flag other \<and> ack_flag h = ack_flag other \<and> psh_flag h = psh_flag other \<and>
     rst_flag h = rst_flag other \<and> syn_flag h = syn_flag other \<and> fin_flag h = fin_flag other \<and>
     win h = win other \<and> uptr h = uptr other"

record TCPSegment =
  header :: TCPHeader
  payload :: Buffer

definition TCPSegment_new :: TCPSegment where
  "TCPSegment_new = \<lparr>header = TCPHeader_new, payload = Buffer_empty\<rparr>"

definition TCPSegment_parse ::
    "Buffer \<Rightarrow> uint32_t \<Rightarrow> TCPSegment \<Rightarrow> cpp_error + (ParseResult \<times> TCPSegment)" where
  "TCPSegment_parse buffer datagram_layer_checksum seg =
     (let check = ck_add (buf_str buffer) (InternetChecksum_new datagram_layer_checksum)
      in if ck_value check \<noteq> 0 then Inr (BadChecksum, seg)
         else
           bindE (TCPHeader_parse (NetParser_new buffer)) (\<lambda>(r, h, p).
           Inr (np_error p, seg\<lparr>header := h, payload := np_buffer p\<rparr>)))"

definition length_in_sequence_space :: "TCPSegment \<Rightarrow> size_t" where
  "length_in_sequence_space seg =
     csize (buf_str (payload seg)) + (if syn_flag (header seg) then 1 else 0) +
     (if fin_flag (header seg) then 1 else 0)"

definition TCPSegment_serialize :: "uint32_t \<Rightarrow> TCPSegment \<Rightarrow> cpp_error + BufferList" where
  "TCPSegment_serialize datagram_layer_checksum seg =
     (let header_out = (header seg)\<lparr>cksum := 0\<rparr>
      in bindE (TCPHeader_serialize header_out) (\<lambda>hs.
         let check = InternetChecksum_new datagram_layer_checksum;
             check = ck_add hs check;
             check = ck_add (buf_str (payload seg)) check;
             header_out = header_out\<lparr>cksum := ck_value check\<rparr>
         in bindE (TCPHeader_serialize header_out) (\<lambda>hs.
            let ret = BufferList_empty;
                ret = bl_append (BufferList_of_string hs) ret;
                ret = bl_append (BufferList_of (payload seg)) ret
            in Inr ret)))"

subsection \<open>The bytes of a header\<close>

definition header_bytes :: "TCPHeader \<Rightarrow> bytes" where
  "header_bytes h =
     be_bytes 2 (unat (sport h)) @ be_bytes 2 (unat (dport h)) @
     be_bytes 4 (unat (raw_value (seqno h))) @ be_bytes 4 (unat (raw_value (ackno h))) @
     push_bit 4 (doff h) # TCPHeader_flags h #
     be_bytes 2 (unat (win h)) @ be_bytes 2 (unat (cksum h)) @ be_bytes 2 (unat (uptr h))"

lemma length_header_bytes [simp]: "length (header_bytes h) = 20"
  by (simp add: header_bytes_def)

lemma doff_ge: "\<not> d < 5 \<Longrightarrow> 5 \<le> unat (d :: uint8_t)"
  by (simp add: word_less_nat_alt)

lemma serialize_eq:
  "\<not> doff h < 5 \<Longrightarrow>
   TCPHeader_serialize h = Inr (header_bytes h @ replicate (4 * unat (doff h) - 20) 0)"
  using doff_ge [of "doff h"]
  by (simp add: TCPHeader_serialize_def Let_def nu_u8_def nu_u16_def nu_u32_def unparse_int_eq
      resize_def header_bytes_def)

lemma parse_field:
  assumes "buf_ok b" and "buf_str b = be_bytes (LENGTH('a) div 8) (unat v) @ rest"
    and "8 dvd LENGTH('a)" and "LENGTH('a) < 2 ^ 64"
  shows "parse_int (NetParser_new b) = Inr (v :: 'a::len word, NetParser_new (buf_drop (LENGTH('a) div 8) b))"
    and "buf_ok (buf_drop (LENGTH('a) div 8) b)" and "buf_str (buf_drop (LENGTH('a) div 8) b) = rest"
proof -
  have len: "LENGTH('a) div 8 \<le> length (buf_str b)" by (simp add: assms(2))
  have "(256::nat) ^ (LENGTH('a) div 8) = 2 ^ LENGTH('a)"
    using assms(3) power_mult [of "2::nat" 8 "LENGTH('a) div 8"] by simp
  then have v: "(of_nat (unat v mod 256 ^ (LENGTH('a) div 8)) :: 'a word) = v" by simp
  show "parse_int (NetParser_new b) = Inr (v, NetParser_new (buf_drop (LENGTH('a) div 8) b))"
    by (simp only: parse_int_ok [OF assms(1) len assms(4)]) (simp add: assms(2) be_value_bytes v)
  show "buf_ok (buf_drop (LENGTH('a) div 8) b)" "buf_str (buf_drop (LENGTH('a) div 8) b) = rest"
    using buf_drop(2,3) [OF assms(1) len] by (simp_all add: assms(2))
qed

lemmas field16 = parse_field [where ?'a = 16, simplified, folded np_u16_def]
lemmas field32 = parse_field [where ?'a = 32, simplified, folded np_u32_def]
lemmas field8 = parse_field [where ?'a = 8, simplified, folded np_u8_def]

lemma flags_roundtrip:
  "(TCPHeader_flags h AND 0x20 \<noteq> 0) = urg_flag h" "(TCPHeader_flags h AND 0x10 \<noteq> 0) = ack_flag h"
  "(TCPHeader_flags h AND 0x08 \<noteq> 0) = psh_flag h" "(TCPHeader_flags h AND 0x04 \<noteq> 0) = rst_flag h"
  "(TCPHeader_flags h AND 0x02 \<noteq> 0) = syn_flag h" "(TCPHeader_flags h AND 0x01 \<noteq> 0) = fin_flag h"
  unfolding TCPHeader_flags_def
  by (cases "urg_flag h"; cases "ack_flag h"; cases "psh_flag h"; cases "rst_flag h";
      cases "syn_flag h"; cases "fin_flag h"; simp)+

lemma doff_roundtrip:
  assumes "unat (d :: uint8_t) < 16"
  shows "drop_bit 4 (push_bit 4 d) = d"
proof (rule word_unat_eq_iff [THEN iffD2])
  have "unat (push_bit 4 d) = 16 * unat d"
    using assms by (simp add: push_bit_eq_mult unat_word_ariths)
  then show "unat (drop_bit 4 (push_bit 4 d)) = unat d"
    by (simp only: unat_drop_bit_eq) (simp add: drop_bit_eq_div)
qed

lemma unat_options:
  assumes "5 \<le> unat (d :: uint8_t)"
  shows "unat (ucast d * 4 - TCPHeader_LENGTH) = 4 * unat d - 20"
proof -
  have lt: "unat d < 256" using unsigned_less [of d, where ?'a = nat] by simp
  have "unat (ucast d :: size_t) = unat d" 
    using lt by (simp add: unsigned_ucast_eq take_bit_nat_eq_self)
  then have "unat (ucast d * 4 :: size_t) = 4 * unat d" using lt by (simp add: unat_word_ariths)
  then show ?thesis using assms by (simp add: TCPHeader_LENGTH_def unat_sub word_le_nat_alt)
qed

lemma header_parse_bytes:
  assumes ok: "buf_ok b" and str: "buf_str b = header_bytes h @ opts @ rest"
    and d: "5 \<le> unat (doff h)" "unat (doff h) < 16" and opts: "length opts = 4 * unat (doff h) - 20"
  shows "\<exists>b'. TCPHeader_parse (NetParser_new b) = Inr (NoError, h, NetParser_new b') \<and>
           buf_ok b' \<and> buf_str b' = rest"
proof -
  note s1 = field16 [OF ok str [unfolded header_bytes_def append_assoc append_Cons]]
  note s2 = field16 [OF s1(2,3)]
  note s3 = field32 [OF s2(2,3)]
  note s4 = field32 [OF s3(2,3)]
  note s5 = field8 [OF s4(2,3)]
  note s6 = field8 [OF s5(2,3)]
  note s7 = field16 [OF s6(2,3)]
  note s8 = field16 [OF s7(2,3)]
  note s9 = field16 [OF s8(2,3)]
  have doff: "drop_bit 4 (push_bit 4 (doff h)) = doff h" by (rule doff_roundtrip [OF d(2)])
  have n: "unat (ucast (doff h) * 4 - TCPHeader_LENGTH) = length opts"
    using unat_options [OF d(1)] opts by simp
  note last = np_remove_prefix_ok [OF s9(2), of "ucast (doff h) * 4 - TCPHeader_LENGTH", unfolded n s9(3)]
    buf_drop(2,3) [OF s9(2), of "length opts", unfolded s9(3)]
  have "\<not> doff h < 5" using d(1) by (simp add: word_less_nat_alt)
  then show ?thesis
    using last
    by (simp add: TCPHeader_parse_def s1(1) s2(1) s3(1) s4(1) s5(1) s6(1) s7(1) s8(1) s9(1)
        flags_roundtrip doff np_failed_def)
       (simp add: NetParser_new_def)
qed

subsection \<open>The checksum of a segment\<close>

lemma word_sum_bound: "2 * word_sum q xs \<le> 65535 * length xs + (if q then 0 else 65025)"
proof (induction q xs rule: word_sum.induct)
  case (2 q x xs)
  have "unat x \<le> 255" using unsigned_less [of x, where ?'a = nat] by simp
  then show ?case using 2 by (cases q) auto
qed simp

definition header_front :: "TCPHeader \<Rightarrow> bytes" where
  "header_front h = take 16 (header_bytes h)"

lemma header_bytes_split:
  "header_bytes h = header_front h @ be_bytes 2 (unat (cksum h)) @ be_bytes 2 (unat (uptr h))"
  by (simp add: header_front_def header_bytes_def)

lemma length_header_front [simp]: "length (header_front h) = 16"
  by (simp add: header_front_def)

lemma header_front_cksum [simp]: "header_front (h\<lparr>cksum := c\<rparr>) = header_front h"
  by (simp add: header_front_def header_bytes_def TCPHeader_flags_def)

definition segment_tail :: "TCPSegment \<Rightarrow> bytes" where
  "segment_tail seg =
     be_bytes 2 (unat (uptr (header seg))) @ replicate (4 * unat (doff (header seg)) - 20) 0 @
     buf_str (payload seg)"

lemma segment_serialize_eq:
  fixes seg i
  defines "c \<equiv> ck_value (ck_add (header_front (header seg) @ [0, 0] @ segment_tail seg) (InternetChecksum_new i))"
  assumes "\<not> doff (header seg) < 5"
  shows "\<exists>l. TCPSegment_serialize i seg = Inr l \<and>
    bl_concatenate l = header_bytes ((header seg)\<lparr>cksum := c\<rparr>) @
      replicate (4 * unat (doff (header seg)) - 20) 0 @ buf_str (payload seg)"
proof -
  let ?h = "header seg" and ?z = "replicate (4 * unat (doff (header seg)) - 20) (0 :: byte)"
  have len: "length (header_bytes h @ ?z) < 2 ^ 64" for h
    using unsigned_less [of "doff ?h", where ?'a = nat] by simp
  have ser: "TCPHeader_serialize (?h\<lparr>cksum := v\<rparr>) = Inr (header_bytes (?h\<lparr>cksum := v\<rparr>) @ ?z)" for v
    using serialize_eq [of "?h\<lparr>cksum := v\<rparr>"] assms(2) by simp
  have zero: "header_bytes (?h\<lparr>cksum := 0\<rparr>) @ ?z @ buf_str (payload seg) =
      header_front ?h @ [0, 0] @ segment_tail seg"
    by (simp add: header_bytes_split segment_tail_def numeral_2_eq_2)
  have c: "ck_value (ck_add (buf_str (payload seg))
      (ck_add (header_bytes (?h\<lparr>cksum := 0\<rparr>) @ ?z) (InternetChecksum_new i))) = c"
    unfolding c_def zero [symmetric] by (simp add: ck_add_append)
  show ?thesis
    using len [of "?h\<lparr>cksum := c\<rparr>"] c
    by (simp add: TCPSegment_serialize_def ser Let_def bl_concatenate_append)
       (simp add: bl_concatenate_eq BufferList_empty_def BufferList_of_def BufferList_of_string_def
         bl_append_def)
qed

lemma segment_checksum_ok:
  assumes pay: "length (buf_str (payload seg)) \<le> 65535" and i: "unat i < 2 ^ 30"
    and d: "unat (doff (header seg)) < 16"
  defines "c \<equiv> ck_value (ck_add (header_front (header seg) @ [0, 0] @ segment_tail seg) (InternetChecksum_new i))"
  shows "ck_value (ck_add (header_bytes ((header seg)\<lparr>cksum := c\<rparr>) @
      replicate (4 * unat (doff (header seg)) - 20) 0 @ buf_str (payload seg)) (InternetChecksum_new i)) = 0"
proof -
  let ?msg = "header_front (header seg) @ [0, 0] @ segment_tail seg"
  have "length ?msg \<le> 65595" using pay d by (simp add: segment_tail_def)
  then have "unat i + word_sum False ?msg + 65535 < 2 ^ 32"
    using word_sum_bound [of False ?msg] i by simp
  then have "ck_value (ck_add (header_front (header seg) @ be_bytes 2 (unat c) @ segment_tail seg)
      (InternetChecksum_new i)) = 0"
    unfolding c_def by (intro ck_verifies) simp_all
  then show ?thesis by (simp add: header_bytes_split segment_tail_def)
qed

subsection \<open>Parsing arbitrary bytes\<close>

text \<open>A parser that cannot deliver a whole header: k bytes were asked for and it has run dry.\<close>

definition short_of :: "nat \<Rightarrow> NetParser \<Rightarrow> bool" where
  "short_of k p \<longleftrightarrow> buf_ok (np_buffer p) \<and> np_error p \<in> {NoError, PacketTooShort} \<and>
     (np_failed p \<or> length (buf_str (np_buffer p)) + k < 20)"

lemma short_of_step:
  assumes "short_of k p" and "LENGTH('a::len) < 2 ^ 64"
  shows "\<exists>v :: 'a word. \<exists>p'. parse_int p = Inr (v, p') \<and> short_of (k + LENGTH('a) div 8) p'"
proof (cases "np_failed p \<or> length (buf_str (np_buffer p)) < LENGTH('a) div 8")
  case True
  have ok: "buf_ok (np_buffer p)" using assms(1) by (simp add: short_of_def)
  show ?thesis
    using parse_int_short [OF ok assms(2) True] assms(1) ok
    by (auto simp: short_of_def check_size_def np_set_error_def)
next
  case False
  then have ok: "buf_ok (np_buffer p)" and le: "LENGTH('a) div 8 \<le> length (buf_str (np_buffer p))"
    and p: "p = NetParser_new (np_buffer p)"
    using assms(1) NetParser_new_eq [of p] by (auto simp: short_of_def)
  have "parse_int p = Inr (of_nat (be_value (take (LENGTH('a) div 8) (buf_str (np_buffer p)))) :: 'a word,
      NetParser_new (buf_drop (LENGTH('a) div 8) (np_buffer p)))"
    using parse_int_ok [OF ok le assms(2)] p by simp
  then show ?thesis
    using buf_drop [OF ok le] assms(1) False le by (auto simp: short_of_def NetParser_new_def)
qed

lemmas short_u16 = short_of_step [where ?'a = 16, simplified, folded np_u16_def]
lemmas short_u32 = short_of_step [where ?'a = 32, simplified, folded np_u32_def]
lemmas short_u8 = short_of_step [where ?'a = 8, simplified, folded np_u8_def]

lemma header_parse_short:
  assumes "buf_ok b" and "length (buf_str b) < 20"
  shows "\<exists>r h p. TCPHeader_parse (NetParser_new b) = Inr (r, h, p) \<and> np_error p = PacketTooShort"
proof -
  have s0: "short_of 0 (NetParser_new b)" using assms by (simp add: short_of_def NetParser_new_def)
  obtain v1 p1 where s1: "np_u16 (NetParser_new b) = Inr (v1, p1)" "short_of 2 p1"
    using short_u16 [OF s0] by (auto simp: numeral_2_eq_2)
  obtain v2 p2 where s2: "np_u16 p1 = Inr (v2, p2)" "short_of 4 p2" using short_u16 [OF s1(2)] by auto
  obtain v3 p3 where s3: "np_u32 p2 = Inr (v3, p3)" "short_of 8 p3" using short_u32 [OF s2(2)] by auto
  obtain v4 p4 where s4: "np_u32 p3 = Inr (v4, p4)" "short_of 12 p4" using short_u32 [OF s3(2)] by auto
  obtain v5 p5 where s5: "np_u8 p4 = Inr (v5, p5)" "short_of 13 p5" using short_u8 [OF s4(2)] by auto
  obtain v6 p6 where s6: "np_u8 p5 = Inr (v6, p6)" "short_of 14 p6" using short_u8 [OF s5(2)] by auto
  obtain v7 p7 where s7: "np_u16 p6 = Inr (v7, p7)" "short_of 16 p7" using short_u16 [OF s6(2)] by auto
  obtain v8 p8 where s8: "np_u16 p7 = Inr (v8, p8)" "short_of 18 p8" using short_u16 [OF s7(2)] by auto
  obtain v9 p9 where s9: "np_u16 p8 = Inr (v9, p9)" "short_of 20 p9" using short_u16 [OF s8(2)] by auto
  have f: "np_failed p9" "buf_ok (np_buffer p9)" "np_error p9 = PacketTooShort"
    using s9(2) by (auto simp: short_of_def np_failed_def)
  have skip: "np_remove_prefix n p9 = Inr (check_size n p9)" "np_failed (check_size n p9)"
    "np_error (check_size n p9) = PacketTooShort" for n
    using np_remove_prefix_short [OF f(2)] f(1,3) by (auto simp: check_size_def np_set_error_def)
  show ?thesis
    using f skip
    by (auto simp: TCPHeader_parse_def s1(1) s2(1) s3(1) s4(1) s5(1) s6(1) s7(1) s8(1) s9(1) Let_def)
qed

text \<open>A parser that has read the first k bytes of \<open>s\<close> without an error.\<close>

definition at_pos :: "bytes \<Rightarrow> nat \<Rightarrow> NetParser \<Rightarrow> bool" where
  "at_pos s k p \<longleftrightarrow> np_error p = NoError \<and> buf_ok (np_buffer p) \<and> buf_str (np_buffer p) = drop k s"

lemma at_pos_step:
  assumes "at_pos s k p" and "k + LENGTH('a::len) div 8 \<le> length s" and "LENGTH('a) < 2 ^ 64"
  shows "\<exists>p'. parse_int p = Inr (of_nat (be_value (bslice s k (LENGTH('a) div 8))) :: 'a word, p') \<and>
           at_pos s (k + LENGTH('a) div 8) p'"
proof -
  have ok: "buf_ok (np_buffer p)" and le: "LENGTH('a) div 8 \<le> length (buf_str (np_buffer p))"
    and p: "p = NetParser_new (np_buffer p)"
    using assms NetParser_new_eq [of p] by (auto simp: at_pos_def np_failed_def)
  then show ?thesis
    using parse_int_ok [OF ok le assms(3)] buf_drop [OF ok le] assms(1)
    by (auto simp: at_pos_def bslice_def NetParser_new_def add.commute)
qed

lemmas at_u16 = at_pos_step [where ?'a = 16, simplified, folded np_u16_def]
lemmas at_u32 = at_pos_step [where ?'a = 32, simplified, folded np_u32_def]
lemmas at_u8 = at_pos_step [where ?'a = 8, simplified, folded np_u8_def]

lemma be_value_one: "k < length s \<Longrightarrow> (of_nat (be_value (bslice s k (Suc 0))) :: uint8_t) = s ! k"
  by (simp add: be_value_def bslice_def take_Suc_conv_app_nth hd_drop_conv_nth take_Suc)

lemma at_pos_skip:
  assumes "at_pos s k p" and "k \<le> length s"
  shows "\<exists>p'. np_remove_prefix n p = Inr p' \<and> buf_ok (np_buffer p') \<and>
    (if k + unat n \<le> length s then at_pos s (k + unat n) p' else np_error p' = PacketTooShort)"
proof -
  have ok: "buf_ok (np_buffer p)" and s: "buf_str (np_buffer p) = drop k s"
    and p: "p = NetParser_new (np_buffer p)"
    using assms NetParser_new_eq [of p] by (auto simp: at_pos_def np_failed_def)
  show ?thesis
  proof (cases "unat n \<le> length (buf_str (np_buffer p))")
    case True
    then show ?thesis
      using np_remove_prefix_ok [OF ok True] p buf_drop(2,3) [OF ok True] True assms(2)
      by (auto simp: at_pos_def s NetParser_new_def add.commute)
  next
    case False
    then show ?thesis
      using np_remove_prefix_short(1) [OF ok, of n] ok assms(2)
      by (auto simp: s check_size_eq [OF ok] np_set_error_def)
  qed
qed

lemma header_parse_long:
  assumes ok: "buf_ok b" and len: "20 \<le> length (buf_str b)"
  defines "s \<equiv> buf_str b"
  defines "d \<equiv> unat (s ! 12) div 16"
  shows "\<exists>r h p. TCPHeader_parse (NetParser_new b) = Inr (r, h, p) \<and> unat (doff h) = d \<and>
    (if d < 5 then r = HeaderTooShort \<and> at_pos s 20 p
     else if 4 * d \<le> length s then r = NoError \<and> at_pos s (4 * d) p
     else r = PacketTooShort \<and> np_error p = PacketTooShort)"
proof -
  have s0: "at_pos s 0 (NetParser_new b)" using ok by (simp add: at_pos_def NetParser_new_def s_def)
  have len: "20 \<le> length s" using len by (simp add: s_def)
  obtain v1 p1 where s1: "np_u16 (NetParser_new b) = Inr (v1, p1)" "at_pos s 2 p1"
    using at_u16 [OF s0] len by (auto simp: numeral_2_eq_2)
  obtain v2 p2 where s2: "np_u16 p1 = Inr (v2, p2)" "at_pos s 4 p2" using at_u16 [OF s1(2)] len by auto
  obtain v3 p3 where s3: "np_u32 p2 = Inr (v3, p3)" "at_pos s 8 p3" using at_u32 [OF s2(2)] len by auto
  obtain v4 p4 where s4: "np_u32 p3 = Inr (v4, p4)" "at_pos s 12 p4" using at_u32 [OF s3(2)] len by auto
  obtain p5 where s5: "np_u8 p4 = Inr (s ! 12, p5)" "at_pos s 13 p5"
    using at_u8 [OF s4(2)] len be_value_one [of 12 s] by auto
  obtain v6 p6 where s6: "np_u8 p5 = Inr (v6, p6)" "at_pos s 14 p6" using at_u8 [OF s5(2)] len by auto
  obtain v7 p7 where s7: "np_u16 p6 = Inr (v7, p7)" "at_pos s 16 p7" using at_u16 [OF s6(2)] len by auto
  obtain v8 p8 where s8: "np_u16 p7 = Inr (v8, p8)" "at_pos s 18 p8" using at_u16 [OF s7(2)] len by auto
  obtain v9 p9 where s9: "np_u16 p8 = Inr (v9, p9)" "at_pos s 20 p9" using at_u16 [OF s8(2)] len by auto
  let ?d = "drop_bit 4 (s ! 12)"
  have d: "unat ?d = d" by (simp only: unat_drop_bit_eq d_def) (simp add: drop_bit_eq_div)
  have lt: "?d < 5 \<longleftrightarrow> d < 5" unfolding word_less_nat_alt d by simp
  obtain p' where p': "np_remove_prefix (ucast ?d * 4 - TCPHeader_LENGTH) p9 = Inr p'"
      "if 20 + unat (ucast ?d * 4 - TCPHeader_LENGTH) \<le> length s
       then at_pos s (20 + unat (ucast ?d * 4 - TCPHeader_LENGTH)) p' else np_error p' = PacketTooShort"
    using at_pos_skip [OF s9(2) len] by blast
  have p'': "if 4 * d \<le> length s then at_pos s (4 * d) p' else np_error p' = PacketTooShort" if "\<not> d < 5"
  proof -
    have eq: "20 + unat (ucast ?d * 4 - TCPHeader_LENGTH) = 4 * d"
      using unat_options [of ?d, unfolded d] that by simp
    show ?thesis using p'(2) unfolding eq .
  qed
  note steps = TCPHeader_parse_def s1(1) s2(1) s3(1) s4(1) s5(1) s6(1) s7(1) s8(1) s9(1) Let_def lt p'(1)
  show ?thesis
  proof (cases "d < 5")
    case True
    then show ?thesis using s9(2) d by (simp add: steps)
  next
    case False
    then show ?thesis using p'' d by (simp add: steps np_failed_def at_pos_def split: if_splits)
  qed
qed

lemma serialize_parse:
  assumes "5 \<le> unat (doff (header seg))" and "unat (doff (header seg)) < 16"
    and "length (buf_str (payload seg)) \<le> 65535" and "unat dlc < 2 ^ 30"
  shows "\<exists>l seg' c. TCPSegment_serialize dlc seg = Inr l \<and>
           TCPSegment_parse (Buffer_of (bl_concatenate l)) dlc seg0 = Inr (NoError, seg') \<and>
           header seg' = (header seg)\<lparr>cksum := c\<rparr> \<and>
           buf_str (payload seg') = buf_str (payload seg)"
proof -
  let ?h = "header seg" and ?z = "replicate (4 * unat (doff (header seg)) - 20) (0 :: byte)"
  define c where "c = ck_value (ck_add (header_front ?h @ [0, 0] @ segment_tail seg) (InternetChecksum_new dlc))"
  let ?msg = "header_bytes (?h\<lparr>cksum := c\<rparr>) @ ?z @ buf_str (payload seg)"
  have "\<not> doff ?h < 5" using assms(1) by (simp add: word_less_nat_alt)
  then obtain l where l: "TCPSegment_serialize dlc seg = Inr l" "bl_concatenate l = ?msg"
    using segment_serialize_eq [of seg dlc] unfolding c_def by blast
  have len: "length ?msg < 2 ^ 64" using assms(2,3) by simp
  have "ck_value (ck_add ?msg (InternetChecksum_new dlc)) = 0"
    unfolding c_def by (rule segment_checksum_ok [OF assms(3,4,2)])
  moreover obtain b' where "TCPHeader_parse (NetParser_new (Buffer_of ?msg)) =
      Inr (NoError, ?h\<lparr>cksum := c\<rparr>, NetParser_new b')" "buf_str b' = buf_str (payload seg)"
    using header_parse_bytes [of "Buffer_of ?msg" "?h\<lparr>cksum := c\<rparr>" ?z "buf_str (payload seg)"] assms(1,2) len
    by (auto simp del: length_append)
  ultimately have "TCPSegment_parse (Buffer_of (bl_concatenate l)) dlc seg0 =
      Inr (NoError, seg0\<lparr>header := ?h\<lparr>cksum := c\<rparr>, payload := b'\<rparr>)" "buf_str b' = buf_str (payload seg)"
    using len by (simp_all add: TCPSegment_parse_def l(2) NetParser_new_def del: length_append)
  then show ?thesis using l(1) by fastforce
qed

subsection \<open>Properties\<close>

text \<open>
  (C20) The wire format round-trips. A segment with a legal data offset (5 to 15 words) and a payload
  of at most 65535 bytes serializes, and parsing the bytes with the same pseudo-header checksum
  succeeds and gives the segment back: the checksum verifies, every header field but the checksum
  is the one that was sent, and so is the payload.
\<close>
theorem segment_serialize_parse:
  assumes "5 \<le> unat (doff (header seg))" and "unat (doff (header seg)) < 16"
    and "length (buf_str (payload seg)) \<le> 65535" and "unat dlc < 2 ^ 30"
  shows "\<exists>l seg' c. TCPSegment_serialize dlc seg = Inr l \<and>
           TCPSegment_parse (Buffer_of (bl_concatenate l)) dlc seg0 = Inr (NoError, seg') \<and>
           header seg' = (header seg)\<lparr>cksum := c\<rparr> \<and>
           buf_str (payload seg') = buf_str (payload seg)"
  using assms by (rule serialize_parse)

theorem segment_serialize_parse_witness:
  "\<exists>l seg' c. TCPSegment_serialize 7 \<lparr>header = TCPHeader_new\<lparr>syn_flag := True, win := 9\<rparr>, payload = Buffer_of [1, 2, 3]\<rparr> = Inr l \<and>
     TCPSegment_parse (Buffer_of (bl_concatenate l)) 7 TCPSegment_new = Inr (NoError, seg') \<and>
     header seg' = TCPHeader_new\<lparr>syn_flag := True, win := 9, cksum := c\<rparr> \<and> buf_str (payload seg') = [1, 2, 3]"
  using segment_serialize_parse
    [of "\<lparr>header = TCPHeader_new\<lparr>syn_flag := True, win := 9\<rparr>, payload = Buffer_of [1, 2, 3]\<rparr>" 7 TCPSegment_new]
  by (simp add: TCPHeader_new_def)

text \<open>
  (C21) What \<open>TCPSegment::parse\<close> does with arbitrary bytes. It always returns. A nonzero checksum gives
  \<open>BadChecksum\<close> and leaves the segment alone. Otherwise fewer than 20 bytes, or fewer than a legal
  data offset claims, give \<open>PacketTooShort\<close>; everything else gives \<open>NoError\<close>, with the bytes behind
  the header as the payload. A data offset below 5 is accepted, as a header of 20 bytes.
\<close>
theorem segment_parse_spec:
  assumes ok: "buf_ok b"
  defines "s \<equiv> buf_str b"
  defines "d \<equiv> unat (s ! 12) div 16"
  shows "\<exists>r seg'. TCPSegment_parse b dlc seg = Inr (r, seg') \<and>
    (if ck_value (ck_add s (InternetChecksum_new dlc)) \<noteq> 0 then r = BadChecksum \<and> seg' = seg
     else if length s < 20 \<or> 5 \<le> d \<and> length s < 4 * d then r = PacketTooShort
     else r = NoError \<and> unat (doff (header seg')) = d \<and>
          buf_str (payload seg') = drop (if d < 5 then 20 else 4 * d) s)"
proof -
  consider (bad) "ck_value (ck_add s (InternetChecksum_new dlc)) \<noteq> 0"
    | (short) "ck_value (ck_add s (InternetChecksum_new dlc)) = 0" "length s < 20"
    | (long) "ck_value (ck_add s (InternetChecksum_new dlc)) = 0" "20 \<le> length s"
    by linarith
  then show ?thesis
  proof cases
    case bad
    then show ?thesis by (simp add: TCPSegment_parse_def s_def)
  next
    case short
    then show ?thesis
      using header_parse_short [OF ok] by (auto simp: TCPSegment_parse_def s_def)
  next
    case long
    obtain r h p where "TCPHeader_parse (NetParser_new b) = Inr (r, h, p)" "unat (doff h) = d"
        "if d < 5 then r = HeaderTooShort \<and> at_pos s 20 p
         else if 4 * d \<le> length s then r = NoError \<and> at_pos s (4 * d) p
         else r = PacketTooShort \<and> np_error p = PacketTooShort"
      using header_parse_long [OF ok] long(2) unfolding s_def d_def by blast
    then show ?thesis
      using long by (auto simp: TCPSegment_parse_def s_def [symmetric] at_pos_def split: if_splits)
  qed
qed

theorem segment_parse_spec_witness:
  "\<exists>r seg'. TCPSegment_parse (Buffer_of [0xff, 0xff]) 0 TCPSegment_new = Inr (r, seg') \<and> r = PacketTooShort"
  using segment_parse_spec [of "Buffer_of [0xff, 0xff]" 0 TCPSegment_new]
  by (simp add: ck_value_zero InternetChecksum_new_def Let_def push_bit_eq_mult)

text \<open>
  \<open>TCPSegment::parse\<close> drops the result of \<open>TCPHeader::parse\<close>. On these 20 bytes, whose checksum
  is right and whose data offset is 0, the header parser reports \<open>HeaderTooShort\<close> and the segment
  parser reports success; the segment it returns cannot be serialized again.
\<close>
theorem segment_parse_accepts_short_header:
  "(case TCPHeader_parse (NetParser_new (Buffer_of (replicate 16 0 @ [0xff, 0xff, 0, 0]))) of
      Inr (r, h, p) \<Rightarrow> r = HeaderTooShort | Inl _ \<Rightarrow> False) \<and>
   (case TCPSegment_parse (Buffer_of (replicate 16 0 @ [0xff, 0xff, 0, 0])) 0 TCPSegment_new of
      Inr (r, seg) \<Rightarrow> r = NoError \<and> TCPSegment_serialize 0 seg = Inl (RuntimeError ''TCP header too short'')
    | Inl _ \<Rightarrow> False)"
  by code_simp

end
