(* ===== verification/Tcp_Receiver.thy ===== *)
theory Tcp_Receiver
  imports Stream_Reassembler Tcp_Segment
begin

text \<open>
  \<open>TCPReceiver\<close> (libsponge/tcp_receiver.hh, tcp_receiver.cc): unwraps the sequence numbers of the
  incoming segments, filters them against the window, passes the payloads to the reassembler and
  computes the acknowledgment number and the window to advertise. The \<open>printf\<close> on a repeated SYN is
  left out.
\<close>

record TCPReceiver =
  reassembler :: StreamReassembler
  rx_syn :: bool
  rx_capacity :: size_t
  rx_isn :: uint32_t
  rx_begin :: uint32_t
  rx_checkp :: uint64_t
  rx_ack :: "WrappingInt32 option"

definition TCPReceiver_new :: "size_t \<Rightarrow> TCPReceiver" where
  "TCPReceiver_new capacity =
     \<lparr>reassembler = StreamReassembler_new capacity, rx_syn = False, rx_capacity = capacity,
      rx_isn = 0, rx_begin = 0, rx_checkp = 0, rx_ack = None\<rparr>"

definition stream_out :: "TCPReceiver \<Rightarrow> ByteStream" where
  "stream_out r = sr_output (reassembler r)"

definition rx_ackno :: "TCPReceiver \<Rightarrow> WrappingInt32 option" where
  "rx_ackno r = rx_ack r"

definition window_size :: "TCPReceiver \<Rightarrow> size_t" where
  "window_size r = remaining_capacity (stream_out r)"

definition rx_unassembled_bytes :: "TCPReceiver \<Rightarrow> size_t" where
  "rx_unassembled_bytes r = unassembled_bytes (reassembler r)"

definition segment_received :: "TCPSegment \<Rightarrow> TCPReceiver \<Rightarrow> cpp_error + TCPReceiver" where
  "segment_received seg r =
     (if syn_flag (header seg) \<and> rx_syn r then Inr r
      else
        let r = (if syn_flag (header seg)
                 then r\<lparr>rx_syn := True, rx_isn := raw_value (seqno (header seg)),
                        rx_begin := raw_value (seqno (header seg))\<rparr>
                 else r\<lparr>rx_begin := raw_value (seqno (header seg)) - 1\<rparr>)
        in if \<not> rx_syn r then Inr r
           else
             let len = length_in_sequence_space seg - (if syn_flag (header seg) then 1 else 0) -
                         (if fin_flag (header seg) then 1 else 0);
                 index = unwrap (WrappingInt32 (rx_begin r)) (WrappingInt32 (rx_isn r)) (rx_checkp r)
             in if index + len < rx_checkp r \<or> index \<ge> rx_checkp r + window_size r then Inr r
                else
                  bindE (push_substring (buf_copy (payload seg)) index (fin_flag (header seg))
                           (reassembler r)) (\<lambda>re.
                  let r = r\<lparr>reassembler := re\<rparr>;
                      r = r\<lparr>rx_checkp := bytes_written (stream_out r)\<rparr>
                  in if input_ended (stream_out r)
                     then Inr (r\<lparr>rx_ack := Some (wrap (rx_checkp r + 2) (WrappingInt32 (rx_isn r))),
                                 rx_syn := False, rx_checkp := 0, rx_begin := 0\<rparr>)
                     else Inr (r\<lparr>rx_ack := Some (wrap (rx_checkp r + 1) (WrappingInt32 (rx_isn r)))\<rparr>)))"

subsection \<open>The segments of a stream\<close>

text \<open>
  The segments a peer with initial sequence number \<open>isn\<close> may send for the stream \<open>S\<close>: the SYN has
  absolute number 0, byte i has number i + 1, the FIN follows the last byte. \<open>i\<close> is the position in
  \<open>S\<close> where the payload starts.
\<close>

definition segment_of :: "bytes \<Rightarrow> WrappingInt32 \<Rightarrow> nat \<Rightarrow> TCPSegment \<Rightarrow> bool" where
  "segment_of S isn i seg \<longleftrightarrow>
     buf_ok (payload seg) \<and> substring_of S (buf_str (payload seg)) (of_nat i) (fin_flag (header seg)) \<and>
     (if syn_flag (header seg) then i = 0 \<and> seqno (header seg) = isn
      else i \<le> length S \<and> seqno (header seg) = wrap (of_nat i + 1) isn)"

definition rx_inv :: "bytes \<Rightarrow> WrappingInt32 \<Rightarrow> bool \<Rightarrow> TCPReceiver \<Rightarrow> bool" where
  "rx_inv S isn syn_seen r \<longleftrightarrow>
     sr_inv S (reassembler r) \<and> 0 < sr_capacity (reassembler r) \<and>
     (if syn_seen then
        rx_ack r = Some (wrap (write_ptr (reassembler r) + 1 +
                      (if input_ended (stream_out r) then 1 else 0)) isn) \<and>
        (rx_syn r \<longrightarrow> rx_isn r = raw_value isn) \<and>
        (if input_ended (stream_out r) then rx_checkp r = 0
         else rx_syn r \<and> rx_checkp r = write_ptr (reassembler r))
      else \<not> rx_syn r \<and> rx_checkp r = 0 \<and> rx_ack r = None \<and> received (reassembler r) = {} \<and>
           \<not> input_ended (stream_out r))"

lemma raw_wrap_pred: "raw_value (wrap (of_nat i + 1) isn) - 1 = raw_value (wrap (of_nat i) isn)"
proof -
  have low: "ucast (of_nat n AND 0xFFFFFFFF :: uint64_t) = (of_nat n :: uint32_t)" for n
    by (rule word_unat_eq_iff [THEN iffD2]) (simp only: unat_low_half, simp add: unat_of_nat mod_mod_cancel)
  have "raw_value (wrap (of_nat n) isn) = of_nat n + raw_value isn" for n
    by (simp only: wrap_def Let_def low WrappingInt32.sel)
  from this [of i] this [of "Suc i"] show ?thesis by (simp add: add.commute)
qed

lemma wrap_zero: "wrap 0 isn = isn"
  by (simp add: wrap_def)

lemma wrapping_raw [simp]: "WrappingInt32 (raw_value w) = w"
  by simp

lemma unwrap_isn: "unwrap isn isn 0 = 0"
  using wi.dec_enc [of 0 0 isn] by (simp add: wrap_zero seq_dist_def)

lemma segment_index:
  assumes "segment_of S isn i seg" and "\<not> syn_flag (header seg)"
    and "seq_dist (of_nat i) c < 2 ^ 31"
  shows "unwrap (WrappingInt32 (raw_value (seqno (header seg)) - 1)) isn c = of_nat i"
  using assms wi.dec_enc [OF assms(3)] by (simp add: segment_of_def raw_wrap_pred)

lemma segment_len:
  "length_in_sequence_space seg - (if syn_flag (header seg) then 1 else 0) -
     (if fin_flag (header seg) then 1 else 0) = csize (buf_str (payload seg))"
  by (simp add: length_in_sequence_space_def)

subsection \<open>The window\<close>

lemma sr_inv_window:
  assumes "sr_inv S r"
  shows "unat (write_ptr r) + unat (remaining_capacity (sr_output r)) = sr_window r"
    and "sr_window r < 2 ^ 64"
proof -
  have c: "carries S (sr_output r)" by (rule sr_inv_carries [OF assms])
  have len: "length (bts (sr_output r)) = unat (write_ptr r) - unat (read_count (sr_output r))"
    using carries_length [OF c] by (simp add: sr_inv_wp [OF assms])
  have le: "unat (read_count (sr_output r)) \<le> unat (write_ptr r)" "unat (write_ptr r) \<le> length S"
    using c by (auto simp: carries_def sr_inv_wp [OF assms])
  have room: "unat (remaining_capacity (sr_output r)) = unat (sr_capacity r) - length (bts (sr_output r))"
    using unat_remaining_capacity [OF carries_inv [OF c]] by (simp add: sr_inv_b_size [OF assms])
  have "length (bts (sr_output r)) \<le> unat (sr_capacity r)"
    using bs_inv_length [OF carries_inv [OF c]] by (simp add: sr_inv_b_size [OF assms])
  then show "unat (write_ptr r) + unat (remaining_capacity (sr_output r)) = sr_window r"
    using len le(1) room by (simp add: sr_window_def)
  show "sr_window r < 2 ^ 64"
    using le assms by (simp add: sr_window_def sr_inv_def)
qed

subsection \<open>One segment\<close>

text \<open>The part of \<open>segment_received\<close> behind the guards, for a segment that passes them.\<close>

definition rx_deliver :: "TCPSegment \<Rightarrow> uint64_t \<Rightarrow> TCPReceiver \<Rightarrow> cpp_error + TCPReceiver" where
  "rx_deliver seg index r =
     (if index + csize (buf_str (payload seg)) < rx_checkp r \<or> index \<ge> rx_checkp r + window_size r then Inr r
      else bindE (push_substring (buf_str (payload seg)) index (fin_flag (header seg)) (reassembler r)) (\<lambda>re.
        if input_ended (sr_output re)
        then Inr (r\<lparr>reassembler := re, rx_ack := Some (wrap (bytes_written (sr_output re) + 2) (WrappingInt32 (rx_isn r))),
                    rx_syn := False, rx_checkp := 0, rx_begin := 0\<rparr>)
        else Inr (r\<lparr>reassembler := re, rx_checkp := bytes_written (sr_output re),
                    rx_ack := Some (wrap (bytes_written (sr_output re) + 1) (WrappingInt32 (rx_isn r)))\<rparr>)))"

lemma segment_received_eq:
  "segment_received seg r =
     (if syn_flag (header seg)
      then if rx_syn r then Inr r
           else let n = seqno (header seg);
                    r = r\<lparr>rx_syn := True, rx_isn := raw_value n, rx_begin := raw_value n\<rparr>
                in rx_deliver seg (unwrap n n (rx_checkp r)) r
      else let b = raw_value (seqno (header seg)) - 1; r = r\<lparr>rx_begin := b\<rparr>
           in if rx_syn r
              then rx_deliver seg (unwrap (WrappingInt32 b) (WrappingInt32 (rx_isn r)) (rx_checkp r)) r
              else Inr r)"
  unfolding segment_received_def segment_len rx_deliver_def buf_copy_def Let_def
  by (cases "syn_flag (header seg)"; cases "rx_syn r")
     (simp_all add: window_size_def stream_out_def cong: if_cong)

lemma received_all:
  assumes "sr_inv S r" and "input_ended (sr_output r)"
  shows "received r = {0..<length S}"
  using assms received_bounds(1) [OF assms(1)] sr_inv_ended [OF assms(1)]
  by (auto simp: received_def)

text \<open>
  What \<open>rx_deliver\<close> relies on: either the SYN has been seen and the acknowledgment is current, or the
  segment is the first SYN and the window is open.
\<close>

definition rx_ready :: "bytes \<Rightarrow> WrappingInt32 \<Rightarrow> nat \<Rightarrow> TCPReceiver \<Rightarrow> bool" where
  "rx_ready S isn i r \<longleftrightarrow>
     sr_inv S (reassembler r) \<and> 0 < sr_capacity (reassembler r) \<and> rx_isn r = raw_value isn \<and> rx_syn r \<and>
     rx_checkp r = (if input_ended (stream_out r) then 0 else write_ptr (reassembler r)) \<and>
     (rx_inv S isn True r \<or> i = 0 \<and> 0 < window_size r \<and> rx_checkp r = 0)"

lemma rx_window_le:
  assumes "rx_ready S isn i r"
  shows "unat (rx_checkp r + window_size r) = unat (rx_checkp r) + unat (window_size r)"
    and "unat (rx_checkp r + window_size r) \<le> sr_window (reassembler r)"
    and "\<not> input_ended (stream_out r) \<Longrightarrow> unat (rx_checkp r + window_size r) = sr_window (reassembler r)"
proof -
  have inv: "sr_inv S (reassembler r)" using assms by (simp add: rx_ready_def)
  note w = sr_inv_window [OF inv, folded stream_out_def, folded window_size_def]
  have cp: "rx_checkp r = (if input_ended (stream_out r) then 0 else write_ptr (reassembler r))"
    using assms by (simp add: rx_ready_def)
  have "unat (rx_checkp r) + unat (window_size r) \<le> sr_window (reassembler r)" using w(1) cp by simp
  moreover from this show eq: "unat (rx_checkp r + window_size r) = unat (rx_checkp r) + unat (window_size r)"
    using w(2) by (intro unat_plus_nowrap) simp
  ultimately show "unat (rx_checkp r + window_size r) \<le> sr_window (reassembler r)" by simp
  show "unat (rx_checkp r + window_size r) = sr_window (reassembler r)" if "\<not> input_ended (stream_out r)"
    using w(1) cp eq that by simp
qed

lemma rx_filtered:
  assumes ready: "rx_ready S isn i r"
    and sub: "i + n \<le> length S" "fin \<longrightarrow> i + n = length S" and w: "w = sr_window (reassembler r)"
    and filtered: "i + n < unat (rx_checkp r) \<or> unat (rx_checkp r + window_size r) \<le> i"
  shows "rx_inv S isn True r" and "{i..<min (i + n) w} \<subseteq> received (reassembler r)"
    and "fin \<and> i < w \<and> i + n \<le> w \<longrightarrow> eof_f (reassembler r)"
proof -
  have inv: "sr_inv S (reassembler r)" using ready by (simp add: rx_ready_def)
  have le: "unat (write_ptr (reassembler r)) \<le> length S"
    using carries_le [OF sr_inv_carries [OF inv]] by (simp add: sr_inv_wp [OF inv])
  have "\<not> (i = 0 \<and> 0 < window_size r \<and> rx_checkp r = 0)"
    using filtered by (auto simp: word_less_nat_alt)
  then show "rx_inv S isn True r" using ready by (auto simp: rx_ready_def)
  show "{i..<min (i + n) w} \<subseteq> received (reassembler r)" and "fin \<and> i < w \<and> i + n \<le> w \<longrightarrow> eof_f (reassembler r)"
  proof (atomize (full), cases "input_ended (stream_out r)")
    case True
    then show "{i..<min (i + n) w} \<subseteq> received (reassembler r) \<and> (fin \<and> i < w \<and> i + n \<le> w \<longrightarrow> eof_f (reassembler r))"
      using received_all [OF inv] sr_inv_ended [OF inv] sub(1) by (auto simp: stream_out_def)
  next
    case False
    then have "rx_checkp r = write_ptr (reassembler r)" using ready by (simp add: rx_ready_def)
    then have "i + n < unat (write_ptr (reassembler r)) \<or> w \<le> i"
      using filtered rx_window_le(3) [OF ready False] w by simp
    then show "{i..<min (i + n) w} \<subseteq> received (reassembler r) \<and> (fin \<and> i < w \<and> i + n \<le> w \<longrightarrow> eof_f (reassembler r))"
      using sub(2) le by (auto simp: received_def)
  qed
qed

lemma rx_deliver_correct:
  assumes ready: "rx_ready S isn i r" and ok: "buf_ok (payload seg)"
    and sub: "substring_of S (buf_str (payload seg)) (of_nat i) (fin_flag (header seg))"
    and i: "i \<le> length S"
  defines "w \<equiv> sr_window (reassembler r)" and "n \<equiv> length (buf_str (payload seg))"
  shows "\<exists>r'. rx_deliver seg (of_nat i) r = Inr r' \<and> rx_inv S isn True r' \<and>
    received (reassembler r') = received (reassembler r) \<union> {i..<min (i + n) w} \<and>
    read_count (stream_out r') = read_count (stream_out r) \<and> sr_window (reassembler r') = w \<and>
    (eof_f (reassembler r') \<longleftrightarrow> eof_f (reassembler r) \<or> (fin_flag (header seg) \<and> i < w \<and> i + n \<le> w))"
proof -
  have inv: "sr_inv S (reassembler r)" using ready by (simp add: rx_ready_def)
  have S: "length S < 2 ^ 64" using inv by (simp add: sr_inv_def)
  have ui: "unat (of_nat i :: uint64_t) = i" using i S by (simp add: unat_of_nat)
  have le: "i + n \<le> length S" "fin_flag (header seg) \<longrightarrow> i + n = length S"
    using sub agrees_le [of S "of_nat i" "buf_str (payload seg)"] by (auto simp: substring_of_def ui n_def)
  have uin: "unat (of_nat i + csize (buf_str (payload seg)) :: uint64_t) = i + n"
    using le(1) S by (simp add: unat_add_csize ui n_def)
  let ?F = "of_nat i + csize (buf_str (payload seg)) < rx_checkp r \<or> rx_checkp r + window_size r \<le> of_nat i"
  have F: "?F \<longleftrightarrow> i + n < unat (rx_checkp r) \<or> unat (rx_checkp r + window_size r) \<le> i"
    by (simp only: word_less_nat_alt word_le_nat_alt uin ui)
  show ?thesis
  proof (cases ?F)
    case True
    note f = rx_filtered [OF ready le w_def [THEN meta_eq_to_obj_eq] True [unfolded F]]
    then show ?thesis using True by (auto simp: rx_deliver_def w_def)
  next
    case False
    then have iw: "i < w" using F rx_window_le(2) [OF ready] by (simp add: w_def)
    obtain re where re: "push_substring (buf_str (payload seg)) (of_nat i) (fin_flag (header seg)) (reassembler r) = Inr re"
        "sr_inv S re" "received re = received (reassembler r) \<union> {i..<min (i + n) w}"
        "sr_capacity re = sr_capacity (reassembler r)" "read_count (sr_output re) = read_count (stream_out r)"
        "eof_f re \<longleftrightarrow> eof_f (reassembler r) \<or> (fin_flag (header seg) \<and> i + n \<le> w)"
      using push_substring_correct [OF inv sub] iw by (auto simp: ui n_def w_def stream_out_def)
    then show ?thesis
      using False ready iw
      by (auto simp: rx_deliver_def rx_inv_def rx_ready_def bytes_written_def sr_inv_wp stream_out_def
          sr_window_def w_def add.assoc)
  qed
qed

text \<open>
  The segments the receiver looks at: everything after the SYN, and the SYN itself unless the
  connection is already open.
\<close>

definition rx_takes :: "bool \<Rightarrow> TCPReceiver \<Rightarrow> TCPSegment \<Rightarrow> bool" where
  "rx_takes syn_seen r seg = (if syn_flag (header seg) then \<not> rx_syn r else syn_seen)"

definition rx_step_post :: "bytes \<Rightarrow> WrappingInt32 \<Rightarrow> bool \<Rightarrow> nat \<Rightarrow> TCPSegment \<Rightarrow> TCPReceiver \<Rightarrow> TCPReceiver \<Rightarrow> bool" where
  "rx_step_post S isn syn_seen i seg r r' \<longleftrightarrow>
     (let n = length (buf_str (payload seg)); w = sr_window (reassembler r)
      in rx_inv S isn (syn_seen \<or> syn_flag (header seg)) r' \<and>
         received (reassembler r') = received (reassembler r) \<union>
           (if rx_takes syn_seen r seg then {i..<min (i + n) w} else {}) \<and>
         read_count (stream_out r') = read_count (stream_out r) \<and> sr_window (reassembler r') = w \<and>
         (eof_f (reassembler r') \<longleftrightarrow> eof_f (reassembler r) \<or>
            (rx_takes syn_seen r seg \<and> fin_flag (header seg) \<and> i < w \<and> i + n \<le> w)))"

lemma rx_inv_sr: "rx_inv S isn sy r \<Longrightarrow> sr_inv S (reassembler r)"
  by (simp add: rx_inv_def)

lemma rx_ready_syn:
  assumes inv: "rx_inv S isn sy r" and "\<not> rx_syn r"
  shows "rx_ready S isn 0 (r\<lparr>rx_syn := True, rx_isn := raw_value isn, rx_begin := raw_value isn\<rparr>)"
    and "rx_checkp r = 0"
proof -
  have sr: "sr_inv S (reassembler r)" by (rule rx_inv_sr [OF inv])
  have wp: "write_ptr (reassembler r) = 0" and win: "window_size r = sr_capacity (reassembler r)" if "\<not> sy"
  proof -
    have "received (reassembler r) = {}" using inv that by (simp add: rx_inv_def)
    then have "unat (write_ptr (reassembler r)) = 0" by (auto simp: received_def)
    then show wp: "write_ptr (reassembler r) = 0" by (simp add: unat_eq_0)
    have "unat (read_count (stream_out r)) = 0"
      using sr_inv_carries [OF sr] wp by (simp add: carries_def sr_inv_wp [OF sr] stream_out_def)
    then show "window_size r = sr_capacity (reassembler r)"
      using sr_inv_window(1) [OF sr] wp
      by (intro word_unat_eq_iff [THEN iffD2]) (simp add: sr_window_def window_size_def stream_out_def)
  qed
  show "rx_checkp r = 0" using inv assms(2) by (auto simp: rx_inv_def split: if_splits)
  then show "rx_ready S isn 0 (r\<lparr>rx_syn := True, rx_isn := raw_value isn, rx_begin := raw_value isn\<rparr>)"
    using inv assms(2) wp win
    by (cases sy) (auto simp: rx_ready_def rx_inv_def stream_out_def window_size_def split: if_splits)
qed

lemma rx_ready_data:
  assumes "rx_inv S isn True r" and "rx_syn r"
  shows "rx_ready S isn i (r\<lparr>rx_begin := b\<rparr>)"
  using assms by (auto simp: rx_ready_def rx_inv_def stream_out_def window_size_def)

lemma rx_step:
  assumes inv: "rx_inv S isn sy r" and seg: "segment_of S isn i seg"
    and near: "\<not> syn_flag (header seg) \<Longrightarrow> seq_dist (of_nat i) (rx_checkp r) < 2 ^ 31"
  shows "\<exists>r'. segment_received seg r = Inr r' \<and> rx_step_post S isn sy i seg r r'"
proof -
  have ok: "buf_ok (payload seg)" "substring_of S (buf_str (payload seg)) (of_nat i) (fin_flag (header seg))"
      "i \<le> length S"
    using seg by (auto simp: segment_of_def split: if_splits)
  consider (resyn) "syn_flag (header seg)" "rx_syn r" | (syn) "syn_flag (header seg)" "\<not> rx_syn r"
    | (data) "\<not> syn_flag (header seg)" "rx_syn r" | (early) "\<not> syn_flag (header seg)" "\<not> rx_syn r" by blast
  then show ?thesis
  proof cases
    case resyn
    moreover from this have sy using inv by (auto simp: rx_inv_def split: if_splits)
    ultimately show ?thesis
      using inv by (simp add: segment_received_eq rx_step_post_def rx_takes_def)
  next
    case syn
    then have i: "i = 0" and n: "seqno (header seg) = isn" using seg by (auto simp: segment_of_def)
    note ready = rx_ready_syn [OF inv syn(2)]
    show ?thesis
      using rx_deliver_correct [OF ready(1) ok(1) ok(2) [unfolded i]] syn ready(2)
      by (simp add: segment_received_eq Let_def n unwrap_isn i rx_step_post_def rx_takes_def stream_out_def)
  next
    case data
    then have sy and isn: "rx_isn r = raw_value isn" using inv by (auto simp: rx_inv_def split: if_splits)
    then have ready: "rx_ready S isn i (r\<lparr>rx_begin := b\<rparr>)" for b
      using rx_ready_data inv data(2) by simp
    show ?thesis
      using rx_deliver_correct [OF ready ok] data \<open>sy\<close> segment_index [OF seg data(1) near [OF data(1)]]
      by (simp add: segment_received_eq Let_def isn rx_step_post_def rx_takes_def stream_out_def)
  next
    case early
    have "input_ended (stream_out r)" if sy using inv that early(2) by (auto simp: rx_inv_def split: if_splits)
    then have "{i..<min (i + length (buf_str (payload seg))) (sr_window (reassembler r))} \<subseteq> received (reassembler r)
        \<and> eof_f (reassembler r)" if sy
      using that received_all [OF rx_inv_sr [OF inv]] sr_inv_ended [OF rx_inv_sr [OF inv]] ok(2)
        agrees_le [of S "of_nat i" "buf_str (payload seg)"] ok(3) inv
      by (auto simp: stream_out_def substring_of_def unat_of_nat rx_inv_def sr_inv_def)
    then show ?thesis
      using early inv
      by (auto simp: segment_received_eq Let_def rx_step_post_def rx_takes_def stream_out_def rx_inv_def
          window_size_def split: if_splits)
  qed
qed

lemma segment_received_error:
  assumes "segment_received seg r = Inr r'"
  shows "error_of (stream_out r') = error_of (stream_out r)"
proof -
  have "rx_deliver seg i r1 = Inr r' \<Longrightarrow> error_of (stream_out r') = error_of (stream_out r1)" for i r1
    using push_substring_error
    by (fastforce simp: rx_deliver_def bindE_eq_Inr error_of_def stream_out_def split: if_splits)
  then show ?thesis
    using assms by (fastforce simp: segment_received_eq Let_def stream_out_def error_of_def split: if_splits)
qed

subsection \<open>Runs\<close>

text \<open>
  A run of the receiver: segments of the stream \<open>S\<close> arrive in any order, repeated or not, and the
  reader takes bytes out. \<open>dl\<close> is what the reader has been given, the flag says whether a SYN has
  arrived. A segment other than the SYN is less than \<open>2\<^sup>3\<^sup>1\<close> away from the checkpoint, the condition
  under which its 32-bit number determines its position.
\<close>

inductive rx_run :: "bytes \<Rightarrow> WrappingInt32 \<Rightarrow> size_t \<Rightarrow> bytes \<Rightarrow> bool \<Rightarrow> TCPReceiver \<Rightarrow> bool"
  for S isn capacity where
  rx_new: "rx_run S isn capacity [] False (TCPReceiver_new capacity)"
| rx_seg: "rx_run S isn capacity dl sy r \<Longrightarrow> segment_of S isn i seg \<Longrightarrow>
    syn_flag (header seg) \<or> seq_dist (of_nat i) (rx_checkp r) < 2 ^ 31 \<Longrightarrow>
    segment_received seg r = Inr r' \<Longrightarrow> rx_run S isn capacity dl (sy \<or> syn_flag (header seg)) r'"
| rx_read: "rx_run S isn capacity dl sy r \<Longrightarrow> ByteStream_read n (stream_out r) = Inr (x, out) \<Longrightarrow>
    rx_run S isn capacity (dl @ x) sy (r\<lparr>reassembler := (reassembler r)\<lparr>sr_output := out\<rparr>\<rparr>)"

inductive_cases rx_runE: "rx_run S isn capacity dl sy r"

lemma rx_inv_new:
  assumes "length S + unat capacity < 2 ^ 64" and "0 < capacity"
  shows "rx_inv S isn False (TCPReceiver_new capacity)"
  using sr_inv_new [OF assms(1)] assms(2)
  by (simp add: rx_inv_def TCPReceiver_new_def stream_out_def)
     (simp add: StreamReassembler_new_def ByteStream_new_def received_def input_ended_def)

lemma rx_inv_read:
  assumes inv: "rx_inv S isn sy r" and rd: "ByteStream_read n (stream_out r) = Inr (x, out)"
  shows "rx_inv S isn sy (r\<lparr>reassembler := (reassembler r)\<lparr>sr_output := out\<rparr>\<rparr>)"
proof -
  have c: "carries S (sr_output (reassembler r))" by (rule sr_inv_carries [OF rx_inv_sr [OF inv]])
  note rd' = rd [unfolded stream_out_def]
  have "input_ended out = input_ended (stream_out r)"
    using carries_read(6) [OF c rd'] by (simp add: input_ended_def stream_out_def)
  then show ?thesis
    using inv sr_inv_read [OF rx_inv_sr [OF inv] rd']
    by (auto simp: rx_inv_def stream_out_def received_def split: if_splits)
qed

lemma rx_run_inv:
  assumes "rx_run S isn capacity dl sy r" and "length S + unat capacity < 2 ^ 64" and "0 < capacity"
  shows "rx_inv S isn sy r \<and> dl = take (unat (read_count (stream_out r))) S \<and>
         sr_window (reassembler r) = unat (read_count (stream_out r)) + unat capacity"
  using assms
proof (induction rule: rx_run.induct)
  case rx_new
  then show ?case using rx_inv_new
    by (auto simp: TCPReceiver_new_def stream_out_def) (simp_all add: StreamReassembler_new_def ByteStream_new_def)
next
  case (rx_seg dl sy r i seg r')
  then have inv: "rx_inv S isn sy r" by simp
  have "rx_step_post S isn sy i seg r r'"
    using rx_step [OF inv rx_seg.hyps(2)] rx_seg.hyps(3,4) by auto
  then show ?case using rx_seg by (simp add: rx_step_post_def Let_def)
next
  case (rx_read dl sy r n x out)
  then have inv: "rx_inv S isn sy r" and dl: "dl = take (unat (read_count (stream_out r))) S"
    and w: "sr_window (reassembler r) = unat (read_count (stream_out r)) + unat capacity" by auto
  note rd = carries_read [OF sr_inv_carries [OF rx_inv_sr [OF inv]] rx_read.hyps(2) [unfolded stream_out_def]]
  have "dl @ x = take (unat (read_count out)) S"
    by (simp only: dl rd(2,3) stream_out_def) (simp add: bslice_def take_add)
  then show ?case
    using rx_inv_read [OF inv rx_read.hyps(2)] w by (simp add: stream_out_def sr_window_def)
qed

lemma rx_first_missing:
  "rx_inv S isn sy r \<Longrightarrow> unat (write_ptr (reassembler r)) = (LEAST n. n \<notin> received (reassembler r))"
  by (rule write_ptr_least [OF rx_inv_sr])

lemma of_nat_write_ptr:
  "rx_inv S isn sy r \<Longrightarrow> of_nat (LEAST n. n \<notin> received (reassembler r)) = write_ptr (reassembler r)"
  by (simp add: rx_first_missing [symmetric])

text \<open>A small run: the SYN of a two-byte stream, carrying the first byte.\<close>

definition sample_segment :: TCPSegment where
  "sample_segment =
     \<lparr>header = TCPHeader_new\<lparr>seqno := WrappingInt32 5, syn_flag := True\<rparr>, payload = Buffer_of [7]\<rparr>"

lemma sample_segment_of: "segment_of [7, 8] (WrappingInt32 5) 0 sample_segment"
  by (simp add: segment_of_def substring_of_def agrees_def bslice_def TCPHeader_new_def sample_segment_def)

lemma sample_run:
  "\<exists>r. segment_received sample_segment (TCPReceiver_new 4) = Inr r \<and> rx_run [7, 8] (WrappingInt32 5) 4 [] True r"
proof -
  have inv: "rx_inv [7, 8] (WrappingInt32 5) False (TCPReceiver_new 4)" by (rule rx_inv_new) simp_all
  have syn: "syn_flag (header sample_segment)" by (simp add: sample_segment_def)
  obtain r where "segment_received sample_segment (TCPReceiver_new 4) = Inr r"
    using rx_step [OF inv sample_segment_of] syn by auto
  then show ?thesis using rx_seg [OF rx_new sample_segment_of] syn by auto
qed

subsection \<open>Properties\<close>

text \<open>
  (C7) What one segment does. The receiver's abstract state is the set of stream positions it has and
  whether it knows the end. A segment of the stream whose payload starts at position i adds exactly
  the positions of its payload that lie inside the window, i.e. below bytes read + capacity, except
  that data before the SYN and a repeated SYN on an open connection are ignored; it fixes the end
  if it carries the FIN, starts inside the window and is not cut by it. The call does not throw.
\<close>
theorem segment_received_spec:
  assumes "rx_inv S isn syn_seen r" and "segment_of S isn i seg"
    and "syn_flag (header seg) \<or> seq_dist (of_nat i) (rx_checkp r) < 2 ^ 31"
  defines "n \<equiv> length (buf_str (payload seg))"
    and "w \<equiv> unat (read_count (stream_out r)) + unat (sr_capacity (reassembler r))"
  shows "\<exists>r'. segment_received seg r = Inr r' \<and> rx_inv S isn (syn_seen \<or> syn_flag (header seg)) r' \<and>
    received (reassembler r') = received (reassembler r) \<union>
      (if rx_takes syn_seen r seg then {i..<min (i + n) w} else {}) \<and>
    (eof_f (reassembler r') \<longleftrightarrow> eof_f (reassembler r) \<or>
      (rx_takes syn_seen r seg \<and> fin_flag (header seg) \<and> i < w \<and> i + n \<le> w)) \<and>
    unat (write_ptr (reassembler r')) = (LEAST k. k \<notin> received (reassembler r'))"
proof -
  obtain r' where r': "segment_received seg r = Inr r'" "rx_step_post S isn syn_seen i seg r r'"
    using rx_step [OF assms(1,2)] assms(3) by auto
  then have "rx_inv S isn (syn_seen \<or> syn_flag (header seg)) r'" by (simp add: rx_step_post_def Let_def)
  then show ?thesis
    using r' rx_first_missing
    by (auto simp: rx_step_post_def Let_def n_def w_def sr_window_def stream_out_def)
qed

theorem segment_received_spec_witness:
  "\<exists>r'. segment_received sample_segment (TCPReceiver_new 4) = Inr r' \<and>
     received (reassembler r') = {0} \<and> \<not> eof_f (reassembler r')"
proof -
  have inv: "rx_inv [7, 8] (WrappingInt32 5) False (TCPReceiver_new 4)" by (rule rx_inv_new) simp_all
  have "received (StreamReassembler_new 4) = {}" by (simp add: received_def StreamReassembler_new_def)
  then show ?thesis
    using segment_received_spec [OF inv sample_segment_of]
    by (auto simp: rx_takes_def TCPReceiver_new_def stream_out_def StreamReassembler_new_def
        ByteStream_new_def TCPHeader_new_def sample_segment_def)
qed

text \<open>
  (C5) The reader of a receiver sees a prefix of the peer's stream. In every run (segments reordered,
  repeated, lost, overlapping), what was read followed by what is buffered is the beginning of the
  stream up to the first byte not received, and once the end of input is signalled it is the
  whole stream.
\<close>
theorem receiver_delivers_prefix:
  assumes "rx_run S isn capacity dl syn_seen r" and "length S + unat capacity < 2 ^ 64" and "0 < capacity"
  shows "dl @ bts (stream_out r) = take (LEAST n. n \<notin> received (reassembler r)) S \<and>
    (input_ended (stream_out r) \<longleftrightarrow> eof_f (reassembler r) \<and> dl @ bts (stream_out r) = S)"
proof -
  have inv: "rx_inv S isn syn_seen r" and dl: "dl = take (unat (read_count (stream_out r))) S"
    using rx_run_inv [OF assms] by auto
  note sr = rx_inv_sr [OF inv]
  have out: "dl @ bts (stream_out r) = take (unat (write_ptr (reassembler r))) S"
    using sr_inv_prefix [OF sr] dl by (simp add: stream_out_def)
  have "unat (write_ptr (reassembler r)) \<le> length S"
    using carries_le [OF sr_inv_carries [OF sr]] by (simp add: sr_inv_wp [OF sr])
  then have "take (unat (write_ptr (reassembler r))) S = S \<longleftrightarrow> unat (write_ptr (reassembler r)) = length S"
    by (metis length_take min.absorb2 take_all order_refl)
  then show ?thesis
    using sr_inv_ended [OF sr, folded stream_out_def] unfolding out rx_first_missing [OF inv, symmetric] by blast
qed

theorem receiver_delivers_prefix_witness:
  "\<exists>r. segment_received sample_segment (TCPReceiver_new 4) = Inr r \<and>
     bts (stream_out r) = take (LEAST n. n \<notin> received (reassembler r)) [7, 8] \<and>
     (input_ended (stream_out r) \<longleftrightarrow> eof_f (reassembler r) \<and> bts (stream_out r) = [7, 8])"
  using sample_run receiver_delivers_prefix [of "[7, 8]" "WrappingInt32 5" 4 "[]" True] by auto

text \<open>
  (C6) The acknowledgment number is right in every run: empty until a SYN has arrived, and then the
  sequence number of the first byte not received, counting the SYN, and the FIN too once everything
  before it has been assembled.
\<close>
theorem receiver_ackno_spec:
  assumes "rx_run S isn capacity dl syn_seen r" and "length S + unat capacity < 2 ^ 64" and "0 < capacity"
  shows "rx_ackno r =
    (if syn_seen
     then Some (wrap (of_nat (LEAST n. n \<notin> received (reassembler r)) + 1 +
                 (if input_ended (stream_out r) then 1 else 0)) isn)
     else None)"
proof -
  have inv: "rx_inv S isn syn_seen r" using rx_run_inv [OF assms] by blast
  then show ?thesis
    unfolding of_nat_write_ptr [OF inv] by (simp add: rx_ackno_def rx_inv_def split: if_splits)
qed

theorem receiver_ackno_spec_witness:
  "\<exists>r. segment_received sample_segment (TCPReceiver_new 4) = Inr r \<and>
     rx_ackno r = Some (wrap (of_nat (LEAST n. n \<notin> received (reassembler r)) + 1 +
                    (if input_ended (stream_out r) then 1 else 0)) (WrappingInt32 5))"
  using sample_run receiver_ackno_spec [of "[7, 8]" "WrappingInt32 5" 4 "[]" True] by auto



text \<open>
  \<open>segment_received\<close> returns for every segment, however malformed, in every state of the
  receiver.
\<close>
theorem segment_received_never_throws:
  "\<exists>r'. segment_received seg r = Inr r'"
proof -
  have "\<exists>r'. rx_deliver seg i r = Inr r'" for i r
    using push_substring_total [of "buf_str (payload seg)" i "fin_flag (header seg)" "reassembler r"]
    by (auto simp: rx_deliver_def)
  then show ?thesis by (simp add: segment_received_eq Let_def)
qed

text \<open>
  The header documents that \<open>ackno()\<close> is empty only if no SYN has been received. A receiver of
  capacity 0 drops the SYN after recording it, because the window test comes first, and still has
  no acknowledgment number.
\<close>
theorem zero_capacity_syn_not_acked:
  "(case segment_received \<lparr>header = TCPHeader_new\<lparr>syn_flag := True\<rparr>, payload = Buffer_empty\<rparr> (TCPReceiver_new 0) of
      Inr r \<Rightarrow> rx_syn r \<and> rx_ackno r = None | Inl _ \<Rightarrow> False)"
  by code_simp

text \<open>
  The end of the stream clears \<open>_syn\<close>, so a later SYN is accepted as a new connection on the
  finished stream: after a complete empty stream with initial number 0, acknowledged with 2, a stray
  SYN with number 100 moves the acknowledgment number to 102.
\<close>
theorem stray_syn_moves_ackno:
  "(case segment_received \<lparr>header = TCPHeader_new\<lparr>syn_flag := True, fin_flag := True\<rparr>, payload = Buffer_empty\<rparr>
           (TCPReceiver_new 4) of
      Inr r \<Rightarrow> input_ended (stream_out r) \<and> rx_ackno r = Some (WrappingInt32 2) \<and>
        (case segment_received \<lparr>header = TCPHeader_new\<lparr>syn_flag := True, seqno := WrappingInt32 100\<rparr>,
                payload = Buffer_empty\<rparr> r of
           Inr r \<Rightarrow> rx_ackno r = Some (WrappingInt32 102) | Inl _ \<Rightarrow> False)
    | Inl _ \<Rightarrow> False)"
  by code_simp

end
