(* ===== verification/Tcp_Sender.thy ===== *)
theory Tcp_Sender
  imports Tcp_Receiver
begin

text \<open>
  \<open>TCPSender\<close> (libsponge/tcp_sender.hh, tcp_sender.cc): cuts the outgoing stream into segments that
  fit the window, keeps the unacknowledged ones, and retransmits the oldest of them when the
  retransmission timer expires. \<open>unsigned int\<close> is 32 bits wide. The \<open>printf\<close> of \<open>tick\<close> is left out.
\<close>

definition MAX_PAYLOAD_SIZE :: size_t where
  "MAX_PAYLOAD_SIZE = 1452"

definition DEFAULT_CAPACITY :: size_t where
  "DEFAULT_CAPACITY = 64000"

definition TIMEOUT_DFLT :: uint16_t where
  "TIMEOUT_DFLT = 1000"

definition MAX_RETX_ATTEMPTS :: uint32_t where
  "MAX_RETX_ATTEMPTS = 8"

record TCPSender =
  tx_isn :: WrappingInt32
  ack_s :: uint64_t
  segments_out :: "TCPSegment list"
  segments_noack :: "(uint64_t, TCPSegment) std_map"
  initial_rto :: uint32_t
  rto_base :: uint32_t
  tx_stream :: ByteStream
  next_seqno :: uint64_t
  tx_window :: uint16_t
  window_zero :: bool
  fin_send :: bool
  tx_start :: bool
  retransnum :: uint32_t
  RTO :: uint32_t

text \<open>\<open>random\<close> is the value of the random device, used when no initial number is given.\<close>

definition TCPSender_new :: "size_t \<Rightarrow> uint16_t \<Rightarrow> WrappingInt32 option \<Rightarrow> uint32_t \<Rightarrow> TCPSender" where
  "TCPSender_new capacity retx_timeout fixed_isn random =
     \<lparr>tx_isn = (case fixed_isn of Some n \<Rightarrow> n | None \<Rightarrow> WrappingInt32 random), ack_s = 0,
      segments_out = [], segments_noack = [],
      initial_rto = ucast retx_timeout, rto_base = ucast retx_timeout,
      tx_stream = ByteStream_new capacity, next_seqno = 0, tx_window = 1, window_zero = False,
      fin_send = False, tx_start = False, retransnum = 0, RTO = ucast retx_timeout\<rparr>"

definition bytes_in_flight :: "TCPSender \<Rightarrow> uint64_t" where
  "bytes_in_flight s = next_seqno s - ack_s s"

definition consecutive_retransmissions :: "TCPSender \<Rightarrow> uint32_t" where
  "consecutive_retransmissions s = retransnum s"

definition next_seqno_absolute :: "TCPSender \<Rightarrow> uint64_t" where
  "next_seqno_absolute s = next_seqno s"

definition next_seqno_relative :: "TCPSender \<Rightarrow> WrappingInt32" where
  "next_seqno_relative s = wrap (next_seqno s) (tx_isn s)"

text \<open>One iteration of the loop of \<open>fill_window\<close> up to the test of the segment's length.\<close>

definition fill_segment :: "uint64_t \<Rightarrow> TCPSender \<Rightarrow> cpp_error + (TCPSegment \<times> TCPSender)" where
  "fill_segment stop s =
     (let h = TCPHeader_new;
          h = (if next_seqno s = 0 then h\<lparr>syn_flag := True\<rparr> else h);
          h = h\<lparr>seqno := wrap (next_seqno s) (tx_isn s)\<rparr>;
          w_size = stop - next_seqno s;
          data_size = (if MAX_PAYLOAD_SIZE \<le> w_size then MAX_PAYLOAD_SIZE else w_size)
      in bindE (ByteStream_read data_size (tx_stream s)) (\<lambda>(data, stream).
         let s = s\<lparr>tx_stream := stream\<rparr>;
             seg = \<lparr>header = h, payload = Buffer_of data\<rparr>
         in if \<not> fin_send s \<and> eof (tx_stream s) \<and> next_seqno s + length_in_sequence_space seg < stop
            then Inr (seg\<lparr>header := h\<lparr>fin_flag := True\<rparr>\<rparr>, s\<lparr>fin_send := True\<rparr>)
            else Inr (seg, s)))"

text \<open>The bookkeeping for a segment that occupies sequence numbers.\<close>

definition send_segment :: "TCPSegment \<Rightarrow> TCPSender \<Rightarrow> TCPSender" where
  "send_segment seg s =
     (let s = s\<lparr>next_seqno := next_seqno s + length_in_sequence_space seg\<rparr>
      in s\<lparr>segments_out := segments_out s @ [seg], tx_start := True,
           segments_noack := map_insert (next_seqno s) seg (segments_noack s)\<rparr>)"

lemma fill_segment_decreases:
  assumes "fill_segment stop s = Inr (seg, s')" and "length_in_sequence_space seg > 0"
  shows "(send_segment seg s', s) \<in>
    measures [\<lambda>s. length (bts (tx_stream s)), \<lambda>s. if fin_send s then 0 else 1, \<lambda>s. if next_seqno s = 0 then 1 else 0]"
proof -
  obtain n data stream where rd: "ByteStream_read n (tx_stream s) = Inr (data, stream)"
    and s': "tx_stream s' = stream" "next_seqno s' = next_seqno s"
    and p: "payload seg = Buffer_of data" and syn: "syn_flag (header seg) \<longleftrightarrow> next_seqno s = 0"
    and fin: "fin_flag (header seg) \<longleftrightarrow> fin_send s' \<and> \<not> fin_send s" "fin_send s \<longrightarrow> fin_send s'"
    using assms(1)
    by (auto simp: fill_segment_def Let_def bindE_eq_Inr TCPHeader_new_def split: if_splits)
  show ?thesis
  proof (cases "data = []")
    case True
    then have len: "length_in_sequence_space seg = (if next_seqno s = 0 then 1 else 0) + (if fin_flag (header seg) then 1 else 0)"
      by (simp add: length_in_sequence_space_def p syn)
    show ?thesis
    proof (cases "fin_flag (header seg)")
      case True
      then show ?thesis using read_shrinks(1) [OF rd] s' fin by (auto simp: send_segment_def)
    next
      case False
      then have "next_seqno s = 0" using len assms(2) by (simp split: if_splits)
      then show ?thesis using read_shrinks(1) [OF rd] s' fin False len by (auto simp: send_segment_def)
    qed
  next
    case False
    then show ?thesis using read_shrinks(2) [OF rd] s' by (simp add: send_segment_def)
  qed
qed

declare bindE_cong [fundef_cong]

function fill_loop :: "uint64_t \<Rightarrow> TCPSender \<Rightarrow> cpp_error + TCPSender" where
  "fill_loop stop s =
     (if next_seqno s < stop then
        bindE (fill_segment stop s) (\<lambda>(seg, s).
          if length_in_sequence_space seg > 0 then fill_loop stop (send_segment seg s) else Inr s)
      else Inr s)"
  by auto
termination
  by (relation "inv_image (measures [\<lambda>s. length (bts (tx_stream s)), \<lambda>s. if fin_send s then 0 else 1,
      \<lambda>s. if next_seqno s = 0 then 1 else 0]) snd")
    (simp, simp only: in_inv_image snd_conv, metis fill_segment_decreases)

declare fill_loop.simps [simp del]

definition fill_window :: "TCPSender \<Rightarrow> cpp_error + TCPSender" where
  "fill_window s =
     (if fin_send s then Inr s
      else let stop = ack_s s + ucast (tx_window s) in fill_loop stop s)"

fun erase_acked :: "uint64_t \<Rightarrow> (uint64_t, TCPSegment) std_map \<Rightarrow> (uint64_t, TCPSegment) std_map" where
  "erase_acked a [] = []"
| "erase_acked a ((k, seg) # m) = (if k \<le> a then erase_acked a m else (k, seg) # erase_acked a m)"

definition ack_received :: "WrappingInt32 \<Rightarrow> uint16_t \<Rightarrow> TCPSender \<Rightarrow> TCPSender" where
  "ack_received ack_no wnd s =
     (let new_ack = unwrap ack_no (tx_isn s) (next_seqno s)
      in if new_ack > next_seqno s then s
         else
           let s = (if new_ack > ack_s s
                    then s\<lparr>RTO := initial_rto s, retransnum := 0, ack_s := new_ack,
                           segments_noack := erase_acked new_ack (segments_noack s)\<rparr>
                    else s);
               s = (if wnd \<noteq> 0 then s\<lparr>tx_window := wnd\<rparr>
                    else s\<lparr>window_zero := True, tx_window := 1\<rparr>)
           in if ack_s s = next_seqno s then s\<lparr>tx_start := False\<rparr> else s)"

definition tick :: "size_t \<Rightarrow> TCPSender \<Rightarrow> TCPSender" where
  "tick ms_since_last_tick s =
     (if \<not> tx_start s then s
      else if ucast (RTO s) \<le> ms_since_last_tick then
        let s = (if retransnum s = 0 then s\<lparr>rto_base := initial_rto s * 2\<rparr>
                 else s\<lparr>rto_base := rto_base s * 2\<rparr>);
            s = s\<lparr>RTO := (if window_zero s then initial_rto s else rto_base s)\<rparr>;
            s = s\<lparr>retransnum := retransnum s + 1\<rparr>
        in (case segments_noack s of
              (k, seg) # _ \<Rightarrow> s\<lparr>segments_out := segments_out s @ [seg], tx_start := True\<rparr>
            | [] \<Rightarrow> s)
      else s\<lparr>RTO := ucast (ucast (RTO s) - ms_since_last_tick)\<rparr>)"

definition send_empty_segment :: "TCPSender \<Rightarrow> TCPSender" where
  "send_empty_segment s =
     (let seg = TCPSegment_new;
          seg = seg\<lparr>header := (header seg)\<lparr>seqno := wrap (next_seqno s) (tx_isn s)\<rparr>\<rparr>
      in s\<lparr>segments_out := segments_out s @ [seg]\<rparr>)"

subsection \<open>Segments in sequence space\<close>

definition seg_len :: "TCPSegment \<Rightarrow> nat" where
  "seg_len seg = length (buf_str (payload seg)) + (if syn_flag (header seg) then 1 else 0) +
     (if fin_flag (header seg) then 1 else 0)"

text \<open>\<open>seg\<close> is the segment of the stream \<open>S\<close> that starts at the absolute sequence number \<open>a\<close>.\<close>

definition seq_segment :: "bytes \<Rightarrow> WrappingInt32 \<Rightarrow> nat \<Rightarrow> TCPSegment \<Rightarrow> bool" where
  "seq_segment S isn a seg \<longleftrightarrow> segment_of S isn (a - 1) seg \<and> (syn_flag (header seg) \<longleftrightarrow> a = 0)"

text \<open>The entries of the map of unacknowledged segments cover the numbers from \<open>a\<close> to \<open>b\<close>, in order.\<close>

fun tiles :: "bytes \<Rightarrow> WrappingInt32 \<Rightarrow> nat \<Rightarrow> (uint64_t, TCPSegment) std_map \<Rightarrow> nat \<Rightarrow> bool" where
  "tiles S isn a [] b \<longleftrightarrow> a = b"
| "tiles S isn a ((k, seg) # m) b \<longleftrightarrow>
     seq_segment S isn a seg \<and> 0 < seg_len seg \<and> unat k = a + seg_len seg \<and> tiles S isn (unat k) m b"

lemma seg_len_word:
  assumes "buf_ok (payload seg)" and "length (buf_str (payload seg)) < 2 ^ 63"
  shows "unat (length_in_sequence_space seg) = seg_len seg"
proof -
  have "length_in_sequence_space seg = of_nat (seg_len seg)"
    by (simp add: length_in_sequence_space_def seg_len_def csize_def)
  moreover have "seg_len seg < 2 ^ 64" using assms(2) by (simp add: seg_len_def)
  ultimately show ?thesis by (simp add: unat_of_nat)
qed

lemma seq_segment_bound:
  assumes "seq_segment S isn a seg" and "length S < 2 ^ 63"
  shows "a + seg_len seg \<le> length S + 2" "length (buf_str (payload seg)) \<le> length S"
proof -
  have sub: "agrees S (of_nat (a - 1), buf_str (payload seg))" and le: "a - 1 \<le> length S"
    using assms(1) by (auto simp: seq_segment_def segment_of_def substring_of_def split: if_splits)
  have "unat (of_nat (a - 1) :: uint64_t) = a - 1" using le assms(2) by (simp add: unat_of_nat)
  then have "a - 1 + length (buf_str (payload seg)) \<le> length S" using agrees_le [OF sub] by simp
  then show "a + seg_len seg \<le> length S + 2" "length (buf_str (payload seg)) \<le> length S"
    using assms(1) by (auto simp: seg_len_def seq_segment_def)
qed

lemma tiles_append:
  "tiles S isn a (m @ m') c \<longleftrightarrow> (\<exists>b. tiles S isn a m b \<and> tiles S isn b m' c)"
  by (induction S isn a m c rule: tiles.induct) auto

lemma tiles_le: "tiles S isn a m b \<Longrightarrow> a \<le> b \<and> (\<forall>e \<in> set m. a < unat (fst e) \<and> unat (fst e) \<le> b)"
proof (induction S isn a m b rule: tiles.induct)
  case (2 S isn a k seg m b)
  then show ?case by fastforce
qed simp

lemma erase_acked_eq: "erase_acked a m = filter (\<lambda>e. a < fst e) m"
  by (induction a m rule: erase_acked.induct) (auto simp: not_le)

lemma tiles_erase:
  assumes "tiles S isn a m b" and "a \<le> unat x" and "unat x \<le> b"
  shows "\<exists>a' \<le> unat x. tiles S isn a' (erase_acked x m) b"
  using assms
proof (induction S isn a m b rule: tiles.induct)
  case (2 S isn a k seg m b)
  show ?case
  proof (cases "k \<le> x")
    case True
    then show ?thesis using "2.IH" "2.prems" by (auto simp: word_le_nat_alt)
  next
    case False
    have "\<forall>e \<in> set m. x < fst e"
      using tiles_le [of S isn "unat k" m b] "2.prems"(1) False
      by (fastforce simp: word_less_nat_alt word_le_nat_alt)
    then have "erase_acked x m = m" by (simp add: erase_acked_eq)
    then show ?thesis using False "2.prems" by auto
  qed
qed auto

subsection \<open>The invariant\<close>

definition tx_inv :: "bytes \<Rightarrow> TCPSender \<Rightarrow> bool" where
  "tx_inv S s \<longleftrightarrow>
     length S < 2 ^ 63 \<and> carries S (tx_stream s) \<and>
     (end_flag (tx_stream s) \<longrightarrow> unat (write_count (tx_stream s)) = length S) \<and>
     (if next_seqno s = 0 then read_count (tx_stream s) = 0 \<and> \<not> fin_send s
      else unat (next_seqno s) = 1 + unat (read_count (tx_stream s)) + (if fin_send s then 1 else 0)) \<and>
     (fin_send s \<longrightarrow> unat (read_count (tx_stream s)) = length S \<and> end_flag (tx_stream s)) \<and>
     ack_s s \<le> next_seqno s \<and>
     (\<exists>a \<le> unat (ack_s s). tiles S (tx_isn s) a (segments_noack s) (unat (next_seqno s))) \<and>
     (\<forall>e \<in> set (segments_noack s). ack_s s < fst e) \<and>
     (tx_start s \<longleftrightarrow> segments_noack s \<noteq> []) \<and>
     (\<forall>seg \<in> set (segments_out s). seg_len seg = 0 \<or>
        (\<exists>a. seq_segment S (tx_isn s) a seg \<and> a + seg_len seg \<le> unat (next_seqno s)))"

lemma tx_inv_new:
  "length S < 2 ^ 63 \<Longrightarrow> tx_inv S (TCPSender_new capacity retx fixed_isn rnd)"
  by (simp add: tx_inv_def TCPSender_new_def ByteStream_new_def carries_def bs_inv_def)

lemma tx_inv_carries: "tx_inv S s \<Longrightarrow> carries S (tx_stream s)"
  by (simp add: tx_inv_def)

lemma tx_inv_length: "tx_inv S s \<Longrightarrow> length S < 2 ^ 63"
  by (simp add: tx_inv_def)

lemma tx_next_bound:
  assumes "tx_inv S s"
  shows "unat (next_seqno s) \<le> length S + 2" "unat (ack_s s) \<le> unat (next_seqno s)"
proof -
  have "unat (read_count (tx_stream s)) \<le> length S" using assms by (auto simp: tx_inv_def carries_def)
  then show "unat (next_seqno s) \<le> length S + 2" using assms by (auto simp: tx_inv_def split: if_splits)
  show "unat (ack_s s) \<le> unat (next_seqno s)" using assms by (simp add: tx_inv_def word_le_nat_alt)
qed

lemma tx_outstanding_iff:
  assumes "tx_inv S s"
  shows "segments_noack s = [] \<longleftrightarrow> ack_s s = next_seqno s"
proof -
  obtain a where a: "a \<le> unat (ack_s s)" "tiles S (tx_isn s) a (segments_noack s) (unat (next_seqno s))"
    using assms by (auto simp: tx_inv_def)
  have "ack_s s < next_seqno s" if "segments_noack s \<noteq> []"
  proof -
    obtain e where e: "e \<in> set (segments_noack s)" using \<open>segments_noack s \<noteq> []\<close> by (cases "segments_noack s") auto
    then have "unat (fst e) \<le> unat (next_seqno s)" "ack_s s < fst e"
      using tiles_le [OF a(2)] assms by (auto simp: tx_inv_def)
    then show ?thesis by (simp add: word_less_nat_alt)
  qed
  moreover have "ack_s s = next_seqno s" if "segments_noack s = []"
    using a that assms by (auto simp: tx_inv_def word_le_nat_alt word_unat_eq_iff)
  ultimately show ?thesis by (metis less_irrefl)
qed

subsection \<open>Filling the window\<close>

lemma unat_data_size:
  "unat (if MAX_PAYLOAD_SIZE \<le> w then MAX_PAYLOAD_SIZE else w) = min 1452 (unat w)"
  by (auto simp: MAX_PAYLOAD_SIZE_def word_le_nat_alt)

text \<open>What \<open>fill_segment\<close> has done: it took n bytes off the stream and built the segment for them.\<close>

definition filled :: "bytes \<Rightarrow> uint64_t \<Rightarrow> TCPSender \<Rightarrow> TCPSegment \<Rightarrow> TCPSender \<Rightarrow> bool" where
  "filled S stop s seg s' \<longleftrightarrow>
     (let n = min (min 1452 (unat stop - unat (next_seqno s))) (length (bts (tx_stream s)))
      in s' = s\<lparr>tx_stream := tx_stream s', fin_send := fin_send s \<or> fin_flag (header seg)\<rparr> \<and>
         carries S (tx_stream s') \<and> buf_ok (payload seg) \<and>
         buf_str (payload seg) = bslice S (unat (read_count (tx_stream s))) n \<and>
         length (buf_str (payload seg)) = n \<and>
         bts (tx_stream s') = drop n (bts (tx_stream s)) \<and>
         unat (read_count (tx_stream s')) = unat (read_count (tx_stream s)) + n \<and>
         write_count (tx_stream s') = write_count (tx_stream s) \<and>
         end_flag (tx_stream s') = end_flag (tx_stream s) \<and>
         bs_error (tx_stream s') = bs_error (tx_stream s) \<and> b_size (tx_stream s') = b_size (tx_stream s) \<and>
         seqno (header seg) = wrap (next_seqno s) (tx_isn s) \<and>
         (syn_flag (header seg) \<longleftrightarrow> next_seqno s = 0) \<and>
         (fin_flag (header seg) \<longleftrightarrow> \<not> fin_send s \<and> end_flag (tx_stream s) \<and> bts (tx_stream s') = [] \<and>
            unat (next_seqno s) + n + (if next_seqno s = 0 then 1 else 0) < unat stop))"

lemma fill_segment_correct:
  assumes inv: "tx_inv S s" and lt: "next_seqno s < stop"
  shows "\<exists>seg s'. fill_segment stop s = Inr (seg, s') \<and> filled S stop s seg s'"
proof -
  let ?d = "if MAX_PAYLOAD_SIZE \<le> stop - next_seqno s then MAX_PAYLOAD_SIZE else stop - next_seqno s"
  define n where "n = min (min 1452 (unat stop - unat (next_seqno s))) (length (bts (tx_stream s)))"
  have c: "carries S (tx_stream s)" by (rule tx_inv_carries [OF inv])
  have "unat (stop - next_seqno s) = unat stop - unat (next_seqno s)"
    using lt by (simp add: unat_minus_nat word_less_nat_alt)
  then have d: "unat ?d = min 1452 (unat stop - unat (next_seqno s))" using unat_data_size by metis
  obtain data st where rd: "ByteStream_read ?d (tx_stream s) = Inr (data, st)"
    using ByteStream_read_eq [OF carries_inv [OF c]] by blast
  note r = carries_read [OF c rd, unfolded d, folded n_def]
  have st: "bts st = drop n (bts (tx_stream s))" and data: "data = take n (bts (tx_stream s))"
    using rd ByteStream_read_eq [OF carries_inv [OF c], of ?d, unfolded d]
    by (auto simp: n_def take_min_length drop_min_length)
  have len: "length data = n" by (simp add: data n_def)
  have n_le: "n \<le> 1452" by (simp add: n_def)
  define seg0 where "seg0 = \<lparr>header = (if next_seqno s = 0 then TCPHeader_new\<lparr>syn_flag := True\<rparr> else TCPHeader_new)
      \<lparr>seqno := wrap (next_seqno s) (tx_isn s)\<rparr>, payload = Buffer_of data\<rparr>"
  have ok: "buf_ok (payload seg0)" "buf_str (payload seg0) = data" using len n_le by (simp_all add: seg0_def)
  have sl: "unat (length_in_sequence_space seg0) = n + (if next_seqno s = 0 then 1 else 0)"
    using seg_len_word [OF ok(1)] ok(2) len n_le by (simp add: seg_len_def seg0_def TCPHeader_new_def)
  have "unat (next_seqno s) + unat (length_in_sequence_space seg0) < 2 ^ 64"
    using sl n_le tx_next_bound(1) [OF inv] tx_inv_length [OF inv] by simp
  then have nx: "unat (next_seqno s + length_in_sequence_space seg0) =
      unat (next_seqno s) + n + (if next_seqno s = 0 then 1 else 0)"
    using sl by (simp add: unat_plus_nowrap)
  have e: "eof st \<longleftrightarrow> end_flag (tx_stream s) \<and> bts st = []"
    using r(6) by (auto simp: eof_def buffer_empty_def input_ended_def)
  define fin where "fin \<longleftrightarrow> \<not> fin_send s \<and> eof st \<and> next_seqno s + length_in_sequence_space seg0 < stop"
  have run: "fill_segment stop s = Inr (if fin then seg0\<lparr>header := (header seg0)\<lparr>fin_flag := True\<rparr>\<rparr> else seg0,
      if fin then s\<lparr>tx_stream := st, fin_send := True\<rparr> else s\<lparr>tx_stream := st\<rparr>)"
    using rd by (simp add: fill_segment_def Let_def fin_def seg0_def)
  have "fin \<longleftrightarrow> \<not> fin_send s \<and> end_flag (tx_stream s) \<and> bts st = [] \<and>
      unat (next_seqno s) + n + (if next_seqno s = 0 then 1 else 0) < unat stop"
    by (simp add: fin_def e word_less_nat_alt nx)
  then show ?thesis
    unfolding run filled_def n_def [symmetric] Let_def
    using r st len ok read_error [OF rd] by (auto simp: seg0_def TCPHeader_new_def)
qed

lemma filledE:
  assumes "filled S stop s seg s'"
  obtains n where
    "n = min (min 1452 (unat stop - unat (next_seqno s))) (length (bts (tx_stream s)))"
    "s' = s\<lparr>tx_stream := tx_stream s', fin_send := fin_send s \<or> fin_flag (header seg)\<rparr>"
    "carries S (tx_stream s')" "buf_ok (payload seg)"
    "buf_str (payload seg) = bslice S (unat (read_count (tx_stream s))) n"
    "length (buf_str (payload seg)) = n" "bts (tx_stream s') = drop n (bts (tx_stream s))"
    "unat (read_count (tx_stream s')) = unat (read_count (tx_stream s)) + n"
    "write_count (tx_stream s') = write_count (tx_stream s)"
    "end_flag (tx_stream s') = end_flag (tx_stream s)"
    "bs_error (tx_stream s') = bs_error (tx_stream s)" "b_size (tx_stream s') = b_size (tx_stream s)"
    "seqno (header seg) = wrap (next_seqno s) (tx_isn s)"
    "syn_flag (header seg) \<longleftrightarrow> next_seqno s = 0"
    "fin_flag (header seg) \<longleftrightarrow> \<not> fin_send s \<and> end_flag (tx_stream s) \<and> bts (tx_stream s') = [] \<and>
       unat (next_seqno s) + n + (if next_seqno s = 0 then 1 else 0) < unat stop"
  using assms unfolding filled_def Let_def
  by (elim conjE) (rule that [OF refl], assumption+)

lemma tx_fin_drained:
  assumes "tx_inv S s" and "fin_send s"
  shows "bts (tx_stream s) = []" and "next_seqno s \<noteq> 0"
proof -
  have c: "carries S (tx_stream s)" by (rule tx_inv_carries [OF assms(1)])
  have "unat (read_count (tx_stream s)) = length S" using assms by (simp add: tx_inv_def)
  then have "length (bts (tx_stream s)) = 0" using carries_length [OF c] carries_le [OF c] by simp
  then show "bts (tx_stream s) = []" by simp
  show "next_seqno s \<noteq> 0" using assms by (auto simp: tx_inv_def)
qed

lemma filled_len_pos:
  assumes "tx_inv S s" and "filled S stop s seg s'" and "0 < seg_len seg"
  shows "\<not> fin_send s"
  using assms(2)
proof (rule filledE)
  fix n
  assume "n = min (min 1452 (unat stop - unat (next_seqno s))) (length (bts (tx_stream s)))"
    "length (buf_str (payload seg)) = n" "syn_flag (header seg) \<longleftrightarrow> next_seqno s = 0"
    "fin_flag (header seg) \<longleftrightarrow> \<not> fin_send s \<and> end_flag (tx_stream s) \<and> bts (tx_stream s') = [] \<and>
       unat (next_seqno s) + n + (if next_seqno s = 0 then 1 else 0) < unat stop"
  then show ?thesis
    using tx_fin_drained [OF assms(1)] assms(3) by (auto simp: seg_len_def)
qed

lemma filled_seq_segment:
  assumes inv: "tx_inv S s" and f: "filled S stop s seg s'" and nofin: "\<not> fin_send s"
  shows "seq_segment S (tx_isn s) (unat (next_seqno s)) seg"
proof -
  let ?rc = "unat (read_count (tx_stream s))"
  have rc: "unat (next_seqno s) - 1 = ?rc" "next_seqno s \<noteq> 0 \<Longrightarrow> unat (next_seqno s) = 1 + ?rc"
    using inv nofin by (auto simp: tx_inv_def split: if_splits)
  obtain n where c': "carries S (tx_stream s')"
    and rc': "unat (read_count (tx_stream s')) = ?rc + n"
    and pay: "buf_str (payload seg) = bslice S ?rc n" and n: "length (buf_str (payload seg)) = n"
    and wc: "write_count (tx_stream s') = write_count (tx_stream s)"
    and hd: "seqno (header seg) = wrap (next_seqno s) (tx_isn s)" "syn_flag (header seg) \<longleftrightarrow> next_seqno s = 0"
      "buf_ok (payload seg)"
    and fl: "fin_flag (header seg) \<longrightarrow> end_flag (tx_stream s) \<and> bts (tx_stream s') = []"
    using f by (rule filledE) blast
  have le: "unat (read_count (tx_stream s')) \<le> unat (write_count (tx_stream s'))" "unat (write_count (tx_stream s')) \<le> length S"
    using c' by (auto simp: carries_def)
  have "?rc \<le> length S" using le rc' by linarith
  then have urc: "unat (of_nat ?rc :: uint64_t) = ?rc" by simp
  have fin: "?rc + n = length S" if "fin_flag (header seg)"
  proof -
    have "unat (write_count (tx_stream s')) = length S" "length (bts (tx_stream s')) = 0"
      using inv fl that wc by (auto simp: tx_inv_def)
    then show ?thesis using carries_length [OF c'] rc' le by linarith
  qed
  have "substring_of S (buf_str (payload seg)) (of_nat ?rc) (fin_flag (header seg))"
    unfolding substring_of_def agrees_def fst_conv snd_conv urc n
    using pay fin le rc' by simp
  moreover have "next_seqno s \<noteq> 0 \<Longrightarrow> (of_nat ?rc + 1 :: uint64_t) = next_seqno s"
  proof -
    assume "next_seqno s \<noteq> 0"
    then have "(of_nat (unat (next_seqno s)) :: uint64_t) = of_nat (?rc + 1)" using rc(2) by simp
    then show "(of_nat ?rc + 1 :: uint64_t) = next_seqno s" by simp
  qed
  moreover have "?rc = 0" if "next_seqno s = 0" using inv that by (simp add: tx_inv_def)
  ultimately show ?thesis
    using rc hd \<open>?rc \<le> length S\<close> by (simp add: seq_segment_def segment_of_def wrap_zero unat_eq_0)
qed

lemma seq_segment_fin:
  assumes "seq_segment S isn a seg" and "fin_flag (header seg)" and "length S < 2 ^ 63"
  shows "a - 1 + length (buf_str (payload seg)) = length S"
proof -
  have "a - 1 \<le> length S" "unat (of_nat (a - 1) :: uint64_t) + length (buf_str (payload seg)) = length S"
    using assms(1,2) by (auto simp: seq_segment_def segment_of_def substring_of_def split: if_splits)
  then show ?thesis using assms(3) by (simp add: unat_of_nat)
qed

lemma tx_invI:
  assumes "length S < 2 ^ 63" "carries S (tx_stream s)"
    "end_flag (tx_stream s) \<longrightarrow> unat (write_count (tx_stream s)) = length S"
    "if next_seqno s = 0 then read_count (tx_stream s) = 0 \<and> \<not> fin_send s
      else unat (next_seqno s) = 1 + unat (read_count (tx_stream s)) + (if fin_send s then 1 else 0)"
    "fin_send s \<longrightarrow> unat (read_count (tx_stream s)) = length S \<and> end_flag (tx_stream s)"
    "ack_s s \<le> next_seqno s"
    "\<exists>a \<le> unat (ack_s s). tiles S (tx_isn s) a (segments_noack s) (unat (next_seqno s))"
    "\<forall>e \<in> set (segments_noack s). ack_s s < fst e"
    "tx_start s \<longleftrightarrow> segments_noack s \<noteq> []"
    "\<forall>seg \<in> set (segments_out s). seg_len seg = 0 \<or>
        (\<exists>a. seq_segment S (tx_isn s) a seg \<and> a + seg_len seg \<le> unat (next_seqno s))"
  shows "tx_inv S s"
  unfolding tx_inv_def using assms by (intro conjI)

lemma filled_send:
  assumes inv: "tx_inv S s" and f: "filled S stop s seg s'" and pos: "0 < seg_len seg"
  shows "tx_inv S (send_segment seg s')" (is "tx_inv S ?t")
    and "unat (next_seqno (send_segment seg s')) = unat (next_seqno s) + seg_len seg"
proof -
  have nofin: "\<not> fin_send s" by (rule filled_len_pos [OF inv f pos])
  note sq = filled_seq_segment [OF inv f nofin]
  note S = tx_inv_length [OF inv]
  obtain n where s': "s' = s\<lparr>tx_stream := tx_stream s', fin_send := fin_send s \<or> fin_flag (header seg)\<rparr>"
    and c: "carries S (tx_stream s')" and ok: "buf_ok (payload seg)" and n: "length (buf_str (payload seg)) = n"
    and rc: "unat (read_count (tx_stream s')) = unat (read_count (tx_stream s)) + n"
    and wc: "write_count (tx_stream s') = write_count (tx_stream s)" "end_flag (tx_stream s') = end_flag (tx_stream s)"
    and syn: "syn_flag (header seg) \<longleftrightarrow> next_seqno s = 0"
    and fin: "fin_flag (header seg) \<longrightarrow> end_flag (tx_stream s)"
    using f by (rule filledE) (rule that, assumption+, blast)
  have fs: "fin_send s' = fin_flag (header seg)" "next_seqno s' = next_seqno s" "tx_isn s' = tx_isn s"
      "ack_s s' = ack_s s" "segments_noack s' = segments_noack s" "segments_out s' = segments_out s"
    using nofin by (subst s'; simp)+
  have len: "unat (length_in_sequence_space seg) = seg_len seg"
    using seg_len_word [OF ok] seq_segment_bound(2) [OF sq S] S by simp
  then show nx: "unat (next_seqno ?t) = unat (next_seqno s) + seg_len seg"
    using seq_segment_bound(1) [OF sq S] S by (simp add: send_segment_def fs unat_plus_nowrap)
  obtain a where a: "a \<le> unat (ack_s s)" "tiles S (tx_isn s) a (segments_noack s) (unat (next_seqno s))"
    using inv by (auto simp: tx_inv_def)
  have old: "\<forall>e \<in> set (segments_noack s). fst e < next_seqno ?t"
    using tiles_le [OF a(2)] nx pos by (auto simp: word_less_nat_alt)
  have noack: "segments_noack ?t = segments_noack s @ [(next_seqno ?t, seg)]"
    using map_insert_last [OF old] by (simp add: send_segment_def fs)
  have rcn: "unat (next_seqno s) - 1 = unat (read_count (tx_stream s))"
    "next_seqno s \<noteq> 0 \<longrightarrow> unat (next_seqno s) = 1 + unat (read_count (tx_stream s))"
    using inv nofin by (auto simp: tx_inv_def split: if_splits)
  have ack: "unat (ack_s s) \<le> unat (next_seqno s)" by (rule tx_next_bound(2) [OF inv])
  have out: "\<forall>x \<in> set (segments_out s). seg_len x = 0 \<or>
      (\<exists>a. seq_segment S (tx_isn s) a x \<and> a + seg_len x \<le> unat (next_seqno s))"
    using inv by (simp add: tx_inv_def)
  have simps: "tx_stream ?t = tx_stream s'" "fin_send ?t = fin_flag (header seg)" "tx_isn ?t = tx_isn s"
    "ack_s ?t = ack_s s" "segments_out ?t = segments_out s @ [seg]" "tx_start ?t"
    by (simp_all add: send_segment_def fs)
  show "tx_inv S ?t"
  proof (rule tx_invI)
    show "end_flag (tx_stream ?t) \<longrightarrow> unat (write_count (tx_stream ?t)) = length S"
      using inv by (simp add: simps wc tx_inv_def)
    show "if next_seqno ?t = 0 then read_count (tx_stream ?t) = 0 \<and> \<not> fin_send ?t
      else unat (next_seqno ?t) = 1 + unat (read_count (tx_stream ?t)) + (if fin_send ?t then 1 else 0)"
      using nx pos rcn rc n syn by (auto simp: simps seg_len_def unat_eq_0)
    show "fin_send ?t \<longrightarrow> unat (read_count (tx_stream ?t)) = length S \<and> end_flag (tx_stream ?t)"
      using seq_segment_fin [OF sq _ S] fin rcn(1) rc n by (auto simp: simps wc)
    show "\<exists>a \<le> unat (ack_s ?t). tiles S (tx_isn ?t) a (segments_noack ?t) (unat (next_seqno ?t))"
      unfolding noack tiles_append using a sq pos nx by (auto simp: simps)
    show "\<forall>seg \<in> set (segments_out ?t). seg_len seg = 0 \<or>
        (\<exists>a. seq_segment S (tx_isn ?t) a seg \<and> a + seg_len seg \<le> unat (next_seqno ?t))"
      using out sq unfolding nx by (auto simp: simps) (metis trans_le_add1)
  qed (use S c nx ack inv pos in \<open>auto simp: simps noack word_le_nat_alt word_less_nat_alt tx_inv_def\<close>)
qed

lemma filled_stop:
  assumes inv: "tx_inv S s" and f: "filled S stop s seg s'" and lt: "next_seqno s < stop" and zero: "seg_len seg = 0"
  shows "tx_inv S s'" "bts (tx_stream s') = []" "end_flag (tx_stream s') \<longrightarrow> fin_send s'"
    "s' = s\<lparr>tx_stream := tx_stream s'\<rparr>" "next_seqno s \<noteq> 0"
proof -
  obtain n where n: "n = min (min 1452 (unat stop - unat (next_seqno s))) (length (bts (tx_stream s)))"
    and s': "s' = s\<lparr>tx_stream := tx_stream s', fin_send := fin_send s \<or> fin_flag (header seg)\<rparr>"
    and c: "carries S (tx_stream s')" and len: "length (buf_str (payload seg)) = n"
    and bts: "bts (tx_stream s') = drop n (bts (tx_stream s))"
    and rc: "unat (read_count (tx_stream s')) = unat (read_count (tx_stream s)) + n"
    and wc: "write_count (tx_stream s') = write_count (tx_stream s)" "end_flag (tx_stream s') = end_flag (tx_stream s)"
    and syn: "syn_flag (header seg) \<longleftrightarrow> next_seqno s = 0"
    and fin: "fin_flag (header seg) \<longleftrightarrow> \<not> fin_send s \<and> end_flag (tx_stream s) \<and> bts (tx_stream s') = [] \<and>
       unat (next_seqno s) + n + (if next_seqno s = 0 then 1 else 0) < unat stop"
    using f by (rule filledE) (rule that, assumption+)
  have z: "n = 0" "next_seqno s \<noteq> 0" "\<not> fin_flag (header seg)"
    using zero len syn by (auto simp: seg_len_def split: if_splits)
  have st: "unat (next_seqno s) < unat stop" using lt by (simp add: word_less_nat_alt)
  then show e: "bts (tx_stream s') = []" using z(1) n bts by (auto simp: min_def split: if_splits)
  show s'': "s' = s\<lparr>tx_stream := tx_stream s'\<rparr>" using s' z(3) by simp
  show "next_seqno s \<noteq> 0" by (rule z(2))
  have same: "fin_send s' = fin_send s" by (subst s'') simp
  show "end_flag (tx_stream s') \<longrightarrow> fin_send s'" using fin z e st wc(2) same by auto
  have "read_count (tx_stream s') = read_count (tx_stream s)"
    using rc z(1) by (intro word_unat_eq_iff [THEN iffD2]) simp
  then have "tx_inv S (s\<lparr>tx_stream := tx_stream s'\<rparr>)" using inv c wc by (simp add: tx_inv_def)
  then show "tx_inv S s'" by (subst s'')
qed

text \<open>The fields that \<open>fill_window\<close> leaves alone.\<close>

definition tx_same :: "TCPSender \<Rightarrow> TCPSender \<Rightarrow> bool" where
  "tx_same s s' \<longleftrightarrow> tx_isn s' = tx_isn s \<and> ack_s s' = ack_s s \<and> initial_rto s' = initial_rto s \<and>
     rto_base s' = rto_base s \<and> tx_window s' = tx_window s \<and> window_zero s' = window_zero s \<and>
     retransnum s' = retransnum s \<and> RTO s' = RTO s"

lemma filled_same:
  assumes "filled S stop s seg s'"
  shows "tx_same s s'" "next_seqno s' = next_seqno s" "segments_out s' = segments_out s"
    "segments_noack s' = segments_noack s" "tx_start s' = tx_start s"
    "write_count (tx_stream s') = write_count (tx_stream s)" "end_flag (tx_stream s') = end_flag (tx_stream s)"
    "bs_error (tx_stream s') = bs_error (tx_stream s)" "b_size (tx_stream s') = b_size (tx_stream s)"
proof -
  have s': "s' = s\<lparr>tx_stream := tx_stream s', fin_send := fin_send s \<or> fin_flag (header seg)\<rparr>"
    using assms by (rule filledE)
  show "tx_same s s'" unfolding tx_same_def by (intro conjI; subst s'; simp)
  show "next_seqno s' = next_seqno s" "segments_out s' = segments_out s"
    "segments_noack s' = segments_noack s" "tx_start s' = tx_start s"
    by (subst s'; simp)+
  show "write_count (tx_stream s') = write_count (tx_stream s)" "end_flag (tx_stream s') = end_flag (tx_stream s)"
    "bs_error (tx_stream s') = bs_error (tx_stream s)" "b_size (tx_stream s') = b_size (tx_stream s)"
    using assms by (auto elim: filledE)
qed

definition fill_post :: "bytes \<Rightarrow> uint64_t \<Rightarrow> TCPSender \<Rightarrow> TCPSender \<Rightarrow> bool" where
  "fill_post S stop s s' \<longleftrightarrow>
     tx_inv S s' \<and>
     (stop \<le> next_seqno s' \<or> bts (tx_stream s') = [] \<and> (end_flag (tx_stream s') \<longrightarrow> fin_send s')) \<and>
     unat (next_seqno s) \<le> unat (next_seqno s') \<and>
     unat (next_seqno s') \<le> max (unat (next_seqno s)) (unat stop) + (if next_seqno s = 0 then 1 else 0) \<and>
     (next_seqno s = 0 \<and> 0 < stop \<longrightarrow> next_seqno s' \<noteq> 0) \<and>
     write_count (tx_stream s') = write_count (tx_stream s) \<and> end_flag (tx_stream s') = end_flag (tx_stream s) \<and>
     bs_error (tx_stream s') = bs_error (tx_stream s) \<and> b_size (tx_stream s') = b_size (tx_stream s) \<and>
     (\<exists>new. segments_out s' = segments_out s @ map snd new \<and> segments_noack s' = segments_noack s @ new \<and>
        tiles S (tx_isn s) (unat (next_seqno s)) new (unat (next_seqno s'))) \<and>
     tx_same s s'"

lemma filled_seg_len:
  assumes f: "filled S stop s seg s'" and lt: "next_seqno s < stop"
  shows "unat (next_seqno s) + seg_len seg \<le> unat stop + (if next_seqno s = 0 then 1 else 0)"
proof -
  obtain n where n: "n = min (min 1452 (unat stop - unat (next_seqno s))) (length (bts (tx_stream s)))"
    and len: "length (buf_str (payload seg)) = n" and syn: "syn_flag (header seg) \<longleftrightarrow> next_seqno s = 0"
    and fin: "fin_flag (header seg) \<longleftrightarrow> \<not> fin_send s \<and> end_flag (tx_stream s) \<and> bts (tx_stream s') = [] \<and>
       unat (next_seqno s) + n + (if next_seqno s = 0 then 1 else 0) < unat stop"
    using f by (rule filledE) (rule that, assumption+)
  have "n \<le> unat stop - unat (next_seqno s)" "unat (next_seqno s) < unat stop"
    using n lt by (auto simp: word_less_nat_alt)
  then show ?thesis using len syn fin by (auto simp: seg_len_def)
qed

lemma fill_post_step:
  assumes inv: "tx_inv S s" and f: "filled S stop s seg s1" and lt: "next_seqno s < stop"
    and pos: "0 < seg_len seg" and post: "fill_post S stop (send_segment seg s1) s'"
  shows "fill_post S stop s s'"
proof -
  note same = filled_same [OF f]
  note nx = filled_send(2) [OF inv f pos]
  obtain a where a: "tiles S (tx_isn s) a (segments_noack s) (unat (next_seqno s))"
    using inv by (auto simp: tx_inv_def)
  have "\<forall>e \<in> set (segments_noack s). fst e < next_seqno (send_segment seg s1)"
    using tiles_le [OF a] nx pos by (auto simp: word_less_nat_alt)
  then have noack: "segments_noack (send_segment seg s1) = segments_noack s @ [(next_seqno (send_segment seg s1), seg)]"
    using map_insert_last same(4) by (simp add: send_segment_def)
  have t: "tx_same s (send_segment seg s1)" using same(1) by (simp add: tx_same_def send_segment_def)
  obtain new where "segments_out s' = segments_out (send_segment seg s1) @ map snd new"
      "segments_noack s' = segments_noack (send_segment seg s1) @ new"
      "tiles S (tx_isn s) (unat (next_seqno (send_segment seg s1))) new (unat (next_seqno s'))"
    using post t by (auto simp: fill_post_def tx_same_def)
  then have new: "\<exists>new. segments_out s' = segments_out s @ map snd new \<and> segments_noack s' = segments_noack s @ new \<and>
      tiles S (tx_isn s) (unat (next_seqno s)) new (unat (next_seqno s'))"
    using filled_seq_segment [OF inv f filled_len_pos [OF inv f pos]] pos nx
    by (intro exI [of _ "(next_seqno (send_segment seg s1), seg) # new"])
       (simp add: noack, simp add: send_segment_def same(3))
  have nz: "next_seqno (send_segment seg s1) \<noteq> 0" using nx pos by auto
  moreover have "unat (next_seqno s) < unat stop" using lt by (simp add: word_less_nat_alt)
  ultimately have "unat (next_seqno s') \<le> max (unat (next_seqno s)) (unat stop) + (if next_seqno s = 0 then 1 else 0)"
    using post filled_seg_len [OF f lt] nx by (auto simp: fill_post_def)
  moreover have "write_count (tx_stream (send_segment seg s1)) = write_count (tx_stream s)"
      "end_flag (tx_stream (send_segment seg s1)) = end_flag (tx_stream s)"
      "bs_error (tx_stream (send_segment seg s1)) = bs_error (tx_stream s)"
      "b_size (tx_stream (send_segment seg s1)) = b_size (tx_stream s)"
    using same(6-9) by (simp_all add: send_segment_def)
  moreover have "next_seqno s' \<noteq> 0" using post nx pos by (auto simp: fill_post_def)
  ultimately show ?thesis
    using post new t nx unfolding fill_post_def tx_same_def by auto
qed

lemma fill_loop_correct:
  "tx_inv S s \<Longrightarrow> \<exists>s'. fill_loop stop s = Inr s' \<and> fill_post S stop s s'"
proof (induction stop s rule: fill_loop.induct)
  case (1 stop s)
  show ?case
  proof (cases "next_seqno s < stop")
    case False
    then show ?thesis
      using 1(2) by (auto simp: fill_loop.simps [of stop s] fill_post_def not_less tx_same_def word_gt_0)
  next
    case lt: True
    obtain seg s1 where f: "fill_segment stop s = Inr (seg, s1)" "filled S stop s seg s1"
      using fill_segment_correct [OF 1(2) lt] by blast
    show ?thesis
    proof (cases "seg_len seg = 0")
      case True
      note st = filled_stop [OF 1(2) f(2) lt True]
      have "length_in_sequence_space seg = 0"
        using True by (auto simp: seg_len_def length_in_sequence_space_def csize_def split: if_splits)
      then have "fill_loop stop s = Inr s1" using lt f(1) by (simp add: fill_loop.simps [of stop s])
      moreover have "fill_post S stop s s1"
        using st(1,2,3,5) filled_same [OF f(2)] by (simp add: fill_post_def)
      ultimately show ?thesis by blast
    next
      case False
      have ok: "buf_ok (payload seg)" using f(2) by (auto elim: filledE)
      note sq = filled_seq_segment [OF 1(2) f(2) filled_len_pos [OF 1(2) f(2)]]
      have "unat (length_in_sequence_space seg) = seg_len seg"
        using False seg_len_word [OF ok] seq_segment_bound(2) [OF sq] tx_inv_length [OF 1(2)] by simp
      then have pos: "length_in_sequence_space seg > 0" using False by (simp add: word_less_nat_alt)
      obtain s' where "fill_loop stop (send_segment seg s1) = Inr s'" "fill_post S stop (send_segment seg s1) s'"
        using 1(1) [OF lt f(1) refl pos] filled_send(1) [OF 1(2) f(2)] False by auto
      then show ?thesis
        using fill_post_step [OF 1(2) f(2) lt] False lt f(1) pos by (auto simp: fill_loop.simps [of stop s])
    qed
  qed
qed

lemma fill_window_correct:
  assumes "tx_inv S s"
  shows "\<exists>s'. fill_window s = Inr s' \<and> (if fin_send s then s' = s else fill_post S (ack_s s + ucast (tx_window s)) s s')"
  using fill_loop_correct [OF assms] by (simp add: fill_window_def Let_def)

subsection \<open>The other operations keep the invariant\<close>

lemma tx_inv_timer [simp]:
  "tx_inv S (s\<lparr>RTO := x\<rparr>) = tx_inv S s" "tx_inv S (s\<lparr>retransnum := n\<rparr>) = tx_inv S s"
  "tx_inv S (s\<lparr>rto_base := x\<rparr>) = tx_inv S s" "tx_inv S (s\<lparr>tx_window := w\<rparr>) = tx_inv S s"
  "tx_inv S (s\<lparr>window_zero := z\<rparr>) = tx_inv S s"
  by (simp_all add: tx_inv_def)

lemma tx_start_noack: "tx_inv S s \<Longrightarrow> tx_start s \<longleftrightarrow> segments_noack s \<noteq> []"
  unfolding tx_inv_def by blast

lemma tx_start_iff: "tx_inv S s \<Longrightarrow> tx_start s \<longleftrightarrow> ack_s s \<noteq> next_seqno s"
  by (simp add: tx_start_noack tx_outstanding_iff)

lemma tx_inv_advance:
  assumes inv: "tx_inv S s" and na: "ack_s s < na" "na \<le> next_seqno s"
  shows "tx_inv S (s\<lparr>ack_s := na, segments_noack := erase_acked na (segments_noack s), tx_start := (na \<noteq> next_seqno s)\<rparr>)"
    (is "tx_inv S ?t")
proof -
  obtain a where a: "a \<le> unat (ack_s s)" "tiles S (tx_isn s) a (segments_noack s) (unat (next_seqno s))"
    using inv by (auto simp: tx_inv_def)
  have le: "unat (ack_s s) \<le> unat na" "unat na \<le> unat (next_seqno s)"
    using na by (simp_all add: word_less_nat_alt word_le_nat_alt)
  obtain a' where a': "a' \<le> unat na" "tiles S (tx_isn s) a' (erase_acked na (segments_noack s)) (unat (next_seqno s))"
    using tiles_erase [OF a(2), of na] a(1) le by auto
  have above: "\<forall>e \<in> set (erase_acked na (segments_noack s)). na < fst e" by (simp add: erase_acked_eq)
  have st: "na \<noteq> next_seqno s \<longleftrightarrow> erase_acked na (segments_noack s) \<noteq> []"
  proof (cases "erase_acked na (segments_noack s)")
    case Nil
    then have "unat na = unat (next_seqno s)" using a' le by simp
    then show ?thesis using Nil by (simp add: word_unat_eq_iff)
  next
    case (Cons e m)
    then have "unat na < unat (fst e)" "unat (fst e) \<le> unat (next_seqno s)"
      using above tiles_le [OF a'(2)] by (auto simp: word_less_nat_alt)
    then show ?thesis using Cons by auto
  qed
  show ?thesis
    using inv a' above st na(2) by (intro tx_invI) (auto simp: tx_inv_def)
qed

lemma ack_received_cases:
  fixes ack_no wnd s
  defines "na \<equiv> unwrap ack_no (tx_isn s) (next_seqno s)"
  assumes inv: "tx_inv S s"
  shows "ack_received ack_no wnd s =
    (if na > next_seqno s then s
     else (if na > ack_s s
           then s\<lparr>ack_s := na, segments_noack := erase_acked na (segments_noack s), tx_start := (na \<noteq> next_seqno s),
                  RTO := initial_rto s, retransnum := 0\<rparr>
           else s)\<lparr>tx_window := (if wnd = 0 then 1 else wnd), window_zero := window_zero s \<or> wnd = 0\<rparr>)"
proof -
  have "tx_start s" if "\<not> na > next_seqno s" "na > ack_s s"
    using tx_start_iff [OF inv] that by auto
  then show ?thesis
    using tx_start_iff [OF inv] unfolding ack_received_def na_def [symmetric] Let_def
    by (intro TCPSender.equality) (auto simp del: not_less)
qed

lemma ack_received_inv:
  assumes "tx_inv S s"
  shows "tx_inv S (ack_received ack_no wnd s)"
proof -
  define na where "na = unwrap ack_no (tx_isn s) (next_seqno s)"
  have "tx_inv S (s\<lparr>ack_s := na, segments_noack := erase_acked na (segments_noack s), tx_start := (na \<noteq> next_seqno s)\<rparr>)"
    if "ack_s s < na" "\<not> next_seqno s < na"
    using tx_inv_advance [OF assms that(1)] that(2) by (simp add: not_less)
  then show ?thesis
    unfolding ack_received_cases [OF assms] na_def [symmetric] using assms by (simp del: not_less)
qed

lemma tx_oldest:
  assumes inv: "tx_inv S s" and "segments_noack s = (k, seg) # m"
  shows "\<exists>a \<le> unat (ack_s s). seq_segment S (tx_isn s) a seg \<and> unat (ack_s s) < a + seg_len seg \<and>
           a + seg_len seg \<le> unat (next_seqno s)"
proof -
  obtain a where a: "a \<le> unat (ack_s s)" "tiles S (tx_isn s) a (segments_noack s) (unat (next_seqno s))"
    using inv by (auto simp: tx_inv_def)
  have "ack_s s < k" using inv assms(2) by (auto simp: tx_inv_def)
  then show ?thesis
    using a assms(2) tiles_le [OF a(2)] by (auto simp: word_less_nat_alt)
qed

lemma tx_inv_out:
  assumes "tx_inv S s" and "\<forall>x \<in> set q. seg_len x = 0 \<or>
      (\<exists>a. seq_segment S (tx_isn s) a x \<and> a + seg_len x \<le> unat (next_seqno s))"
  shows "tx_inv S (s\<lparr>segments_out := q\<rparr>)"
  using assms by (simp add: tx_inv_def)

lemma tx_inv_out_old:
  assumes "tx_inv S s" and "x \<in> set (segments_out s)"
  shows "seg_len x = 0 \<or> (\<exists>a. seq_segment S (tx_isn s) a x \<and> a + seg_len x \<le> unat (next_seqno s))"
  using assms unfolding tx_inv_def by blast

lemma tick_expired:
  assumes inv: "tx_inv S s" and "tx_start s" and "ucast (RTO s) \<le> ms"
  defines "base \<equiv> (if retransnum s = 0 then initial_rto s else rto_base s) * 2"
  shows "tick ms s = s\<lparr>segments_out := segments_out s @ [snd (hd (segments_noack s))], rto_base := base,
    RTO := (if window_zero s then initial_rto s else base), retransnum := retransnum s + 1\<rparr>"
proof -
  obtain k seg m where "segments_noack s = (k, seg) # m"
    using tx_start_noack [OF inv] assms(2) by (cases "segments_noack s") auto
  then show ?thesis
    using assms(2,3) by (intro TCPSender.equality) (auto simp: tick_def Let_def base_def)
qed

lemma tick_inv:
  assumes inv: "tx_inv S s"
  shows "tx_inv S (tick ms s)"
proof (cases "tx_start s \<and> ucast (RTO s) \<le> ms")
  case True
  then obtain k seg m where m: "segments_noack s = (k, seg) # m"
    using tx_start_noack [OF inv] by (cases "segments_noack s") auto
  have "tx_inv S (s\<lparr>segments_out := segments_out s @ [seg]\<rparr>)"
    using tx_inv_out_old [OF inv] tx_oldest [OF inv m] by (intro tx_inv_out [OF inv]) auto
  then show ?thesis
    using True m by (simp add: tick_expired [OF inv])
next
  case False
  then show ?thesis using inv by (auto simp: tick_def)
qed

lemma carries_write_next:
  assumes c: "carries S out" and S: "length S < 2 ^ 64"
    and d: "d = bslice S (unat (write_count out)) (length d)"
    and le: "unat (write_count out) + length d \<le> length S"
  defines "out' \<equiv> snd (ByteStream_write d out)"
  shows "carries S out'" "read_count out' = read_count out" "end_flag out' = end_flag out"
    "unat (write_count out) \<le> unat (write_count out')"
proof -
  let ?d = "take (bs_room out) d"
  note inv = carries_inv [OF c]
  have len: "length d < 2 ^ 64" "length ?d < 2 ^ 64" using le S by simp_all
  have same: "out' = snd (ByteStream_write ?d out)"
    using ByteStream_write_eq [OF inv len(1)] ByteStream_write_eq [OF inv len(2)]
    by (simp add: out'_def min.assoc [symmetric])
  have "bts out = bslice S (unat (read_count out)) (length (bts out))" "unat (read_count out) \<le> unat (write_count out)"
    using c carries_length [OF c] by (auto simp: carries_def)
  moreover have "length (bts out) \<le> unat (b_size out)" by (rule bs_inv_length [OF inv])
  ultimately have fits: "unat (write_count out) + length ?d \<le> unat (read_count out) + unat (b_size out)"
    using carries_length [OF c] by simp
  have "?d = bslice S (unat (write_count out)) (length ?d)"
    by (subst d) (simp add: bslice_def min.commute)
  note w = carries_write [OF c S this _ fits, folded same]
  show "carries S out'" "read_count out' = read_count out" "end_flag out' = end_flag out"
    "unat (write_count out) \<le> unat (write_count out')"
    using w le by auto
qed

lemma tx_inv_stream:
  assumes inv: "tx_inv S s" and "carries S out" and "read_count out = read_count (tx_stream s)"
    and "end_flag (tx_stream s) \<longrightarrow> end_flag out"
    and "end_flag out \<longrightarrow> unat (write_count out) = length S"
  shows "tx_inv S (s\<lparr>tx_stream := out\<rparr>)"
  using assms by (simp add: tx_inv_def)

lemma app_write_inv:
  assumes inv: "tx_inv S s" and d: "d = bslice S (unat (write_count (tx_stream s))) (length d)"
    and le: "unat (write_count (tx_stream s)) + length d \<le> length S"
  shows "tx_inv S (s\<lparr>tx_stream := snd (ByteStream_write d (tx_stream s))\<rparr>)"
proof -
  have S: "length S < 2 ^ 64" using tx_inv_length [OF inv] by simp
  note w = carries_write_next [OF tx_inv_carries [OF inv] S d le]
  have "unat (write_count (tx_stream s)) = length S" if "end_flag (tx_stream s)"
    using inv that by (simp add: tx_inv_def)
  then show ?thesis
    using w carries_le [OF w(1)] by (intro tx_inv_stream [OF inv]) auto
qed

lemma app_end_inv:
  assumes "tx_inv S s" and "unat (write_count (tx_stream s)) = length S"
  shows "tx_inv S (s\<lparr>tx_stream := end_input (tx_stream s)\<rparr>)"
  using assms tx_inv_carries [OF assms(1)] by (intro tx_inv_stream) simp_all

lemma send_empty_inv:
  assumes "tx_inv S s"
  shows "tx_inv S (send_empty_segment s)"
  unfolding send_empty_segment_def Let_def
  using tx_inv_out_old [OF assms]
  by (intro tx_inv_out [OF assms]) (auto simp: seg_len_def TCPSegment_new_def TCPHeader_new_def)

subsection \<open>Runs\<close>

text \<open>
  The steps of a sender whose application writes the stream \<open>S\<close>: the application offers the next
  bytes of \<open>S\<close> (the stream takes what fits) and ends the input after the last one; the owner calls
  the operations in any order, with any acknowledgment and any window, and takes segments off the queue.
\<close>

inductive tx_step :: "bytes \<Rightarrow> TCPSender \<Rightarrow> TCPSender \<Rightarrow> bool" for S where
  app_write: "d = bslice S (unat (write_count (tx_stream s))) (length d) \<Longrightarrow>
    unat (write_count (tx_stream s)) + length d \<le> length S \<Longrightarrow>
    tx_step S s (s\<lparr>tx_stream := snd (ByteStream_write d (tx_stream s))\<rparr>)"
| app_end: "unat (write_count (tx_stream s)) = length S \<Longrightarrow>
    tx_step S s (s\<lparr>tx_stream := end_input (tx_stream s)\<rparr>)"
| fill: "fill_window s = Inr s' \<Longrightarrow> tx_step S s s'"
| ack_in: "tx_step S s (ack_received ack_no wnd s)"
| time: "tx_step S s (tick ms s)"
| empty: "tx_step S s (send_empty_segment s)"
| dequeue: "segments_out s = seg # q \<Longrightarrow> tx_step S s (s\<lparr>segments_out := q\<rparr>)"

inductive_cases tx_stepE: "tx_step S s s'"

lemma fill_window_inv: "tx_inv S s \<Longrightarrow> fill_window s = Inr s' \<Longrightarrow> tx_inv S s'"
  using fill_window_correct [of S s] by (auto simp: fill_post_def split: if_splits)

lemma tx_step_inv: "tx_step S s s' \<Longrightarrow> tx_inv S s \<Longrightarrow> tx_inv S s'"
proof (induction rule: tx_step.induct)
  case (dequeue s seg q)
  then show ?case using tx_inv_out_old by (intro tx_inv_out) auto
qed (blast intro: app_write_inv app_end_inv fill_window_inv ack_received_inv tick_inv send_empty_inv)+

text \<open>After k retransmissions in a row the timeout base has been doubled k times.\<close>

definition rto_inv :: "TCPSender \<Rightarrow> bool" where
  "rto_inv s \<longleftrightarrow> retransnum s = 0 \<or> rto_base s = initial_rto s * 2 ^ unat (retransnum s)"

lemma unat_word32_Suc: "n + 1 \<noteq> 0 \<Longrightarrow> unat (n + 1 :: uint32_t) = Suc (unat n)"
  by unat_arith

lemma fill_window_same:
  assumes "tx_inv S s" and "fill_window s = Inr s'"
  shows "tx_same s s'"
  using fill_window_correct [OF assms(1)] assms(2) by (auto simp: fill_post_def tx_same_def split: if_splits)

lemma tx_step_rto:
  assumes "tx_step S s s'" and "tx_inv S s" and "rto_inv s"
  shows "rto_inv s' \<and> tx_isn s' = tx_isn s \<and> initial_rto s' = initial_rto s"
  using assms
proof (induction rule: tx_step.induct)
  case (fill s s')
  then show ?case using fill_window_same [OF fill.prems(1) fill.hyps] by (simp add: rto_inv_def tx_same_def)
next
  case (ack_in s ack_no wnd)
  then show ?case by (simp add: ack_received_cases [OF ack_in.prems(1)] rto_inv_def)
next
  case (time s ms)
  show ?case
  proof (cases "tx_start s \<and> ucast (RTO s) \<le> ms")
    case True
    have "retransnum s + 1 = 0 \<or> unat (retransnum s + 1) = Suc (unat (retransnum s))"
      using unat_word32_Suc by blast
    then show ?thesis
      using True time.prems(2) by (auto simp: tick_expired [OF time.prems(1)] rto_inv_def)
  next
    case False
    then show ?thesis using time by (auto simp: tick_def rto_inv_def)
  qed
qed (auto simp: rto_inv_def send_empty_segment_def)

inductive tx_run :: "bytes \<Rightarrow> TCPSender \<Rightarrow> TCPSender \<Rightarrow> bool" for S s0 where
  tx_init: "tx_run S s0 s0"
| tx_next: "tx_run S s0 s \<Longrightarrow> tx_step S s s' \<Longrightarrow> tx_run S s0 s'"

lemma tx_run_inv:
  assumes "tx_run S (TCPSender_new capacity retx fixed_isn rnd) s" and "length S < 2 ^ 63"
  shows "tx_inv S s \<and> rto_inv s \<and> tx_isn s = (case fixed_isn of Some n \<Rightarrow> n | None \<Rightarrow> WrappingInt32 rnd) \<and>
    initial_rto s = ucast retx"
  using assms
proof (induction rule: tx_run.induct)
  case tx_init
  then show ?case using tx_inv_new by (simp add: rto_inv_def) (simp add: TCPSender_new_def)
next
  case (tx_next s s')
  then show ?case using tx_step_inv [OF tx_next.hyps(2)] tx_step_rto [OF tx_next.hyps(2)] by simp
qed

lemma unat_stop:
  assumes "tx_inv S s"
  shows "unat (ack_s s + ucast (tx_window s)) = unat (ack_s s) + unat (tx_window s)"
proof -
  have w: "unat (ucast (tx_window s) :: uint64_t) = unat (tx_window s)" "unat (tx_window s) < 65536"
    using unat_u16_lt [of "tx_window s"] by (simp_all add: unsigned_ucast_eq take_bit_nat_eq_self)
  moreover have "unat (ack_s s) \<le> length S + 2" "length S < 2 ^ 63"
    using tx_next_bound [OF assms] tx_inv_length [OF assms] by simp_all
  ultimately show ?thesis using unat_plus_nowrap [of "ack_s s" "ucast (tx_window s)"] by simp
qed

lemma tx_in_flight:
  assumes "tx_inv S s"
  shows "unat (bytes_in_flight s) = unat (next_seqno s) - unat (ack_s s)"
  using tx_next_bound(2) [OF assms] by (simp add: bytes_in_flight_def unat_minus_nat)

text \<open>A sender with three bytes in its stream, for the examples below.\<close>

definition sample_sender :: TCPSender where
  "sample_sender = TCPSender_new 10 1000 (Some (WrappingInt32 7)) 0"

definition sample_written :: TCPSender where
  "sample_written = sample_sender\<lparr>tx_stream := snd (ByteStream_write [1, 2, 3] (tx_stream sample_sender))\<rparr>"

lemma sample_sender_inv: "tx_inv [1, 2, 3] sample_sender"
  unfolding sample_sender_def by (rule tx_inv_new) simp

lemma sample_written_step: "tx_step [1, 2, 3] sample_sender sample_written"
  unfolding sample_written_def
  by (rule app_write) (simp_all add: sample_sender_def TCPSender_new_def ByteStream_new_def bslice_def)

lemma sample_written_inv: "tx_inv [1, 2, 3] sample_written"
  by (rule tx_step_inv [OF sample_written_step sample_sender_inv])

lemma sample_sender_run: "\<exists>s. fill_window sample_written = Inr s \<and> tx_run [1, 2, 3] sample_sender s"
proof -
  obtain s where "fill_window sample_written = Inr s"
    using fill_window_correct [OF sample_written_inv] by blast
  then show ?thesis using tx_init tx_next sample_written_step fill by metis
qed

subsection \<open>The window at its edges\<close>

lemma syn_fills_window:
  assumes inv: "tx_inv S s" and zero: "next_seqno s = 0"
    and w: "0 < tx_window s" "unat (tx_window s) \<le> 1452" "unat (tx_window s) \<le> length (bts (tx_stream s))"
  shows "\<exists>s' seg. fill_window s = Inr s' \<and> segments_out s' = segments_out s @ [seg] \<and> syn_flag (header seg) \<and>
    seg_len seg = unat (tx_window s) + 1 \<and> unat (next_seqno s') = unat (tx_window s) + 1 \<and> ack_s s' = 0"
proof -
  let ?stop = "ack_s s + ucast (tx_window s)" and ?w = "unat (tx_window s)"
  have ack: "ack_s s = 0" and nofin: "\<not> fin_send s" using inv zero by (simp_all add: tx_inv_def)
  have stop: "unat ?stop = ?w" using unat_stop [OF inv] ack by simp
  have pos: "0 < ?w" using w(1) by (simp add: unat_gt_0 word_gt_0)
  then have lt: "next_seqno s < ?stop" using stop zero by (simp add: word_less_nat_alt)
  obtain seg s1 where f: "fill_segment ?stop s = Inr (seg, s1)" "filled S ?stop s seg s1"
    using fill_segment_correct [OF inv lt] by blast
  obtain n where n: "n = min (min 1452 (unat ?stop - unat (next_seqno s))) (length (bts (tx_stream s)))"
    and s1: "s1 = s\<lparr>tx_stream := tx_stream s1, fin_send := fin_send s \<or> fin_flag (header seg)\<rparr>"
    and ok: "buf_ok (payload seg)" and len: "length (buf_str (payload seg)) = n"
    and syn: "syn_flag (header seg) \<longleftrightarrow> next_seqno s = 0"
    and fin: "fin_flag (header seg) \<longleftrightarrow> \<not> fin_send s \<and> end_flag (tx_stream s) \<and> bts (tx_stream s1) = [] \<and>
       unat (next_seqno s) + n + (if next_seqno s = 0 then 1 else 0) < unat ?stop"
    using f(2) by (rule filledE) (rule that, assumption+)
  have nw: "n = ?w" using n stop zero w(2,3) by simp
  have sl: "seg_len seg = ?w + 1" using syn zero fin nw stop len by (simp add: seg_len_def)
  note sent = filled_send [OF inv f(2)]
  have t: "unat (next_seqno (send_segment seg s1)) = ?w + 1" using sent(2) sl zero by simp
  have "length_in_sequence_space seg > 0"
    using seg_len_word [OF ok] len nw w(2) sl by (simp add: word_less_nat_alt)
  moreover have "\<not> next_seqno (send_segment seg s1) < ?stop" using t stop by (simp add: word_less_nat_alt)
  ultimately have "fill_window s = Inr (send_segment seg s1)"
    using nofin lt f(1) by (simp add: fill_window_def Let_def fill_loop.simps [of ?stop s] fill_loop.simps [of ?stop "send_segment seg s1"])
  moreover have "segments_out (send_segment seg s1) = segments_out s @ [seg]" "ack_s (send_segment seg s1) = 0"
    using arg_cong [OF s1, of segments_out] arg_cong [OF s1, of ack_s] ack by (simp_all add: send_segment_def Let_def)
  ultimately show ?thesis using t sl syn zero by blast
qed

lemma tx_step_zero_window:
  "tx_step S s s' \<Longrightarrow> tx_inv S s \<Longrightarrow> window_zero s \<Longrightarrow> window_zero s' \<and> initial_rto s' = initial_rto s"
proof (induction rule: tx_step.induct)
  case (fill s s')
  then show ?case using fill_window_same [OF fill.prems(1) fill.hyps] by (simp add: tx_same_def)
next
  case (ack_in s ack_no wnd)
  then show ?case by (simp add: ack_received_cases [OF ack_in.prems(1)])
next
  case (time s ms)
  then show ?case by (auto simp: tick_def Let_def split: list.splits)
qed (simp_all add: send_empty_segment_def)

lemma tx_run_zero_window:
  "tx_run S s s' \<Longrightarrow> tx_inv S s \<Longrightarrow> window_zero s \<Longrightarrow> tx_inv S s' \<and> window_zero s' \<and> initial_rto s' = initial_rto s"
  by (induction rule: tx_run.induct) (auto dest: tx_step_zero_window tx_step_inv)

subsection \<open>Properties\<close>



text \<open>
  (C11) \<open>fill_window\<close> returns and sends as much as the window allows. Afterwards either the window is
  used up or the stream is drained, and a stream that has ended has its FIN sent. What it sends is
  appended, in the same order, to the queue and to the unacknowledged segments. It stays within the
  window, except that the SYN is not counted when the first payload is cut, so the first call may
  overshoot by one. Once the FIN is sent it does nothing.
\<close>
theorem fill_window_spec:
  assumes "tx_inv S s"
  defines "stop \<equiv> unat (ack_s s) + unat (tx_window s)"
  shows "\<exists>s'. fill_window s = Inr s' \<and> tx_inv S s' \<and>
    (if fin_send s then s' = s
     else (stop \<le> unat (next_seqno s') \<or>
             buffer_empty (tx_stream s') \<and> (fin_send s' \<or> \<not> input_ended (tx_stream s'))) \<and>
          unat (next_seqno s) \<le> unat (next_seqno s') \<and>
          unat (next_seqno s') \<le> max (unat (next_seqno s)) stop + (if next_seqno s = 0 then 1 else 0) \<and>
          (\<exists>new. segments_out s' = segments_out s @ map snd new \<and> segments_noack s' = segments_noack s @ new))"
proof -
  obtain s' where s': "fill_window s = Inr s'"
      "if fin_send s then s' = s else fill_post S (ack_s s + ucast (tx_window s)) s s'"
    using fill_window_correct [OF assms(1)] by blast
  show ?thesis
  proof (cases "fin_send s")
    case False
    then have post: "fill_post S (ack_s s + ucast (tx_window s)) s s'" using s'(2) by simp
    have "ack_s s + ucast (tx_window s) \<le> next_seqno s' \<longleftrightarrow> stop \<le> unat (next_seqno s')"
      by (simp add: word_le_nat_alt unat_stop [OF assms(1)] stop_def)
    then show ?thesis
      using post s'(1) False unat_stop [OF assms(1)]
      by (auto simp: fill_post_def stop_def buffer_empty_def input_ended_def)
  qed (use s' assms(1) in simp)
qed

theorem fill_window_spec_witness:
  "\<exists>s'. fill_window sample_written = Inr s' \<and> tx_inv [1, 2, 3] s' \<and> unat (next_seqno s') \<le> 2 \<and>
     (1 \<le> unat (next_seqno s') \<or> buffer_empty (tx_stream s'))"
  using fill_window_spec [OF sample_written_inv]
  by (auto simp: sample_written_def sample_sender_def TCPSender_new_def)

text \<open>
  (C12) \<open>ack_received\<close> with the wrapped form of the number a, less than \<open>2\<^sup>3\<^sup>1\<close> away from the next
  number. An acknowledgment of something not yet sent is ignored. Otherwise the acknowledged number
  becomes the larger of the two, exactly the segments that are completely acknowledged are dropped,
  new data acknowledged resets the timeout and the retransmission count, the timer runs exactly when
  something is outstanding, the window is taken over, a window of 0 counting as 1 and setting the flag
  \<open>window_zero\<close>, and nothing else changes, in particular neither the stream, nor the queue, nor the
  base of the exponential backoff.
\<close>
theorem ack_received_spec:
  fixes wnd :: uint16_t
  assumes inv: "tx_inv S s" and near: "seq_dist a (next_seqno s) < 2 ^ 31"
  defines "s' \<equiv> ack_received (wrap a (tx_isn s)) wnd s"
  shows "tx_inv S s' \<and>
    (if a > next_seqno s then s' = s
     else s' = s\<lparr>ack_s := max a (ack_s s),
                 segments_noack := filter (\<lambda>e. max a (ack_s s) < fst e) (segments_noack s),
                 RTO := (if a > ack_s s then initial_rto s else RTO s),
                 retransnum := (if a > ack_s s then 0 else retransnum s),
                 tx_start := (max a (ack_s s) \<noteq> next_seqno s),
                 tx_window := (if wnd = 0 then 1 else wnd),
                 window_zero := window_zero s \<or> wnd = 0\<rparr>)"
proof -
  have na: "unwrap (wrap a (tx_isn s)) (tx_isn s) (next_seqno s) = a" by (rule wi.dec_enc [OF near])
  have keep: "filter (\<lambda>e. ack_s s < fst e) (segments_noack s) = segments_noack s"
    using inv unfolding tx_inv_def by (simp add: filter_id_conv)
  have "tx_inv S s'" unfolding s'_def by (rule ack_received_inv [OF inv])
  moreover have "s' = (if a > next_seqno s then s
      else (if a > ack_s s
            then s\<lparr>ack_s := a, segments_noack := erase_acked a (segments_noack s), tx_start := (a \<noteq> next_seqno s),
                   RTO := initial_rto s, retransnum := 0\<rparr>
            else s)\<lparr>tx_window := (if wnd = 0 then 1 else wnd), window_zero := window_zero s \<or> wnd = 0\<rparr>)"
    unfolding s'_def ack_received_cases [OF inv] na by (rule refl)
  ultimately show ?thesis
    using keep tx_start_iff [OF inv] by (auto simp: erase_acked_eq max_def intro!: TCPSender.equality)
qed

theorem ack_received_spec_witness:
  "\<exists>s. fill_window sample_written = Inr s \<and> tx_inv [1, 2, 3] (ack_received (wrap 1 (tx_isn s)) 0 s) \<and>
     ack_s (ack_received (wrap 1 (tx_isn s)) 0 s) = 1 \<and> window_zero (ack_received (wrap 1 (tx_isn s)) 0 s)"
proof -
  have "case fill_window sample_written of Inr s \<Rightarrow> next_seqno s = 2 \<and> ack_s s = 0 | Inl _ \<Rightarrow> False" by code_simp
  then obtain s where s: "fill_window sample_written = Inr s" "next_seqno s = 2" "ack_s s = 0" by (auto split: sum.splits)
  note inv = fill_window_inv [OF sample_written_inv s(1)]
  have "seq_dist 1 (next_seqno s) < 2 ^ 31" using tx_next_bound(1) [OF inv] by (auto simp: seq_dist_def)
  then show ?thesis using ack_received_spec [OF inv, of 1 0] s by (auto simp: max_def)
qed

text \<open>
  (C13) The retransmission timer. With nothing outstanding \<open>tick\<close> does nothing. While time is left it
  only counts down. When the time is up it queues exactly one segment, the outstanding one that
  contains the first unacknowledged number (there always is one), increments the number of consecutive
  retransmissions, and after the k-th of them the timeout is the initial one times \<open>2\<^sup>k\<close>, unless
  the peer has ever advertised a window of 0, in which case it is the initial timeout.
\<close>
theorem tick_spec:
  fixes ms :: size_t
  assumes inv: "tx_inv S s" and rto: "rto_inv s" and k: "retransnum s + 1 \<noteq> 0"
  defines "s' \<equiv> tick ms s"
  shows "tx_inv S s' \<and> rto_inv s' \<and>
    (if bytes_in_flight s = 0 then s' = s
     else if unat ms < unat (RTO s) then s' = s\<lparr>RTO := RTO s'\<rparr> \<and> unat (RTO s') = unat (RTO s) - unat ms
     else \<exists>seg a. segments_out s' = segments_out s @ [seg] \<and> seq_segment S (tx_isn s) a seg \<and>
            a \<le> unat (ack_s s) \<and> unat (ack_s s) < a + seg_len seg \<and>
            consecutive_retransmissions s' = consecutive_retransmissions s + 1 \<and>
            RTO s' = (if window_zero s then initial_rto s
                      else initial_rto s * 2 ^ unat (consecutive_retransmissions s')) \<and>
            segments_noack s' = segments_noack s \<and> ack_s s' = ack_s s \<and> next_seqno s' = next_seqno s)"
    (is "_ \<and> _ \<and> ?Q")
proof -
  have flight: "bytes_in_flight s = 0 \<longleftrightarrow> \<not> tx_start s"
    using tx_start_iff [OF inv] by (auto simp: bytes_in_flight_def)
  have up: "unat (ucast (RTO s) :: size_t) = unat (RTO s)" "unat (RTO s) < 2 ^ 32"
    using unsigned_less [of "RTO s", where ?'a = nat] by (simp_all add: unsigned_ucast_eq take_bit_nat_eq_self)
  have lt: "\<not> ucast (RTO s) \<le> ms \<longleftrightarrow> unat ms < unat (RTO s)" by (simp only: word_le_nat_alt up not_le)
  consider (idle) "\<not> tx_start s" | (wait) "tx_start s" "unat ms < unat (RTO s)"
    | (expired) "tx_start s" "\<not> unat ms < unat (RTO s)" by blast
  then have ?Q
  proof cases
    case idle
    then show ?thesis by (simp add: flight s'_def tick_def)
  next
    case wait
    then have s': "s' = s\<lparr>RTO := ucast (ucast (RTO s) - ms)\<rparr>" using lt by (simp add: s'_def tick_def)
    have "unat (ucast (RTO s) - ms) = unat (RTO s) - unat ms"
      using wait(2) up(1) by (simp add: unat_minus_nat)
    then have "unat (RTO s') = unat (RTO s) - unat ms"
      unfolding s' using up(2) by (simp add: unsigned_ucast_eq take_bit_nat_eq_self)
    then show ?thesis using wait flight s' by simp
  next
    case expired
    then obtain k seg m where m: "segments_noack s = (k, seg) # m"
      using tx_start_noack [OF inv] by (cases "segments_noack s") auto
    show ?thesis
      using expired flight lt tx_oldest [OF inv m] rto m unat_word32_Suc [OF k]
      by (auto simp: s'_def tick_expired [OF inv] consecutive_retransmissions_def rto_inv_def)
  qed
  then show ?thesis
    using tick_inv [OF inv] tx_step_rto [OF time inv rto] by (simp add: s'_def)
qed

theorem tick_spec_witness:
  "\<exists>s seg. fill_window sample_written = Inr s \<and> segments_out (tick 1000 s) = segments_out s @ [seg] \<and>
     consecutive_retransmissions (tick 1000 s) = 1"
proof -
  have "case fill_window sample_written of
      Inr s \<Rightarrow> retransnum s = 0 \<and> RTO s = 1000 \<and> bytes_in_flight s = 2 | Inl _ \<Rightarrow> False"
    by code_simp
  then obtain s where s: "fill_window sample_written = Inr s" "retransnum s = 0" "RTO s = 1000" "bytes_in_flight s = 2"
    by (auto split: sum.splits)
  have inv: "tx_inv [1, 2, 3] s" by (rule fill_window_inv [OF sample_written_inv s(1)])
  have "rto_inv s" "retransnum s + 1 \<noteq> 0" using s(2) by (simp_all add: rto_inv_def)
  then show ?thesis
    using tick_spec [OF inv, of 1000] s by (auto simp: consecutive_retransmissions_def)
qed

text \<open>
  (C37) The SYN is not counted against the window when the payload is cut. For every sender that has sent
  nothing, with a window of w, at most the 1452 bytes of one segment, and at least w bytes waiting,
  \<open>fill_window\<close> queues one segment that carries the SYN and w bytes, so that w + 1 sequence numbers are in
  flight. A new sender has a window of 1, so this happens whenever data is written before the SYN is sent.
\<close>
theorem syn_segment_exceeds_window:
  assumes "tx_inv S s" and "next_seqno s = 0"
    and "0 < tx_window s" and "unat (tx_window s) \<le> 1452" and "unat (tx_window s) \<le> length (bts (tx_stream s))"
  shows "\<exists>s' seg. fill_window s = Inr s' \<and> segments_out s' = segments_out s @ [seg] \<and> syn_flag (header seg) \<and>
    seg_len seg = unat (tx_window s) + 1 \<and> unat (bytes_in_flight s') = unat (tx_window s) + 1"
  using syn_fills_window [OF assms] by (auto simp: bytes_in_flight_def)

theorem syn_segment_exceeds_window_witness:
  "\<exists>s' seg. fill_window sample_written = Inr s' \<and> segments_out s' = [seg] \<and> seg_len seg = 2 \<and> tx_window sample_written = 1"
proof -
  have w: "tx_window sample_written = 1" "next_seqno sample_written = 0" "segments_out sample_written = []"
    "length (bts (tx_stream sample_written)) = 3"
    by code_simp+
  then show ?thesis using syn_segment_exceeds_window [OF sample_written_inv] by force
qed

text \<open>
  (C38) A window of 0 switches the exponential backoff off for good. After one acknowledgment with a
  window of 0 that is not ignored, whatever the sender and its peer do from then on, windows that are
  open again included, every expiry of the timer sends a segment again and is counted, but starts the
  timer with the initial timeout: the flag is never cleared.
\<close>
theorem zero_window_stops_backoff:
  assumes inv: "tx_inv S s" and near: "seq_dist a (next_seqno s) < 2 ^ 31" and sent: "a \<le> next_seqno s"
    and run: "tx_run S (ack_received (wrap a (tx_isn s)) 0 s) s'"
    and expired: "bytes_in_flight s' \<noteq> 0" "unat (RTO s') \<le> unat ms"
  shows "RTO (tick ms s') = initial_rto s \<and> consecutive_retransmissions (tick ms s') = consecutive_retransmissions s' + 1"
proof -
  let ?s = "ack_received (wrap a (tx_isn s)) 0 s"
  have na: "unwrap (wrap a (tx_isn s)) (tx_isn s) (next_seqno s) = a" by (rule wi.dec_enc [OF near])
  have "window_zero ?s" "initial_rto ?s = initial_rto s"
    using sent by (auto simp: ack_received_cases [OF inv] na not_less)
  then have s': "tx_inv S s'" "window_zero s'" "initial_rto s' = initial_rto s"
    using tx_run_zero_window [OF run ack_received_inv [OF inv]] by auto
  have "tx_start s'" using tx_start_iff [OF s'(1)] expired(1) by (auto simp: bytes_in_flight_def)
  moreover have "ucast (RTO s') \<le> ms"
    using expired(2) le_trans [OF take_bit_nat_less_eq_self] by (simp add: word_le_nat_alt unsigned_ucast_eq)
  ultimately show ?thesis using s' by (simp add: tick_expired [OF s'(1)] consecutive_retransmissions_def)
qed

theorem zero_window_stops_backoff_witness:
  "\<exists>s. fill_window sample_written = Inr s \<and>
     RTO (tick 1000 (tick 1000 (ack_received (wrap 1 (tx_isn s)) 5 (ack_received (wrap 1 (tx_isn s)) 0 s)))) = 1000"
proof -
  let ?run = "\<lambda>s. tick 1000 (ack_received (wrap 1 (tx_isn s)) 5 (ack_received (wrap 1 (tx_isn s)) 0 s))"
  have "case fill_window sample_written of
      Inr s \<Rightarrow> next_seqno s = 2 \<and> initial_rto s = 1000 \<and> bytes_in_flight (?run s) = 1 \<and> RTO (?run s) = 1000 | Inl _ \<Rightarrow> False"
    by code_simp
  then obtain s where s: "fill_window sample_written = Inr s" "next_seqno s = 2" "initial_rto s = 1000"
    "bytes_in_flight (?run s) = 1" "RTO (?run s) = 1000" by (auto split: sum.splits)
  note inv = fill_window_inv [OF sample_written_inv s(1)]
  have near: "seq_dist 1 (next_seqno s) < 2 ^ 31" using tx_next_bound(1) [OF inv] by (auto simp: seq_dist_def)
  have run: "tx_run [1, 2, 3] (ack_received (wrap 1 (tx_isn s)) 0 s) (?run s)"
    by (rule tx_next [OF tx_next [OF tx_init ack_in] time])
  show ?thesis using zero_window_stops_backoff [OF inv near _ run, of 1000] s by simp
qed

end
