(* ===== verification/Tcp_State.thy ===== *)
theory Tcp_State
  imports Tcp_Sender
begin

text \<open>
  \<open>TCPState\<close> (libsponge/tcp_helpers/tcp_state.hh, tcp_state.cc): the summary of a receiver and of a
  sender as one of the strings the tests compare with. The strings are kept.
\<close>

definition RECEIVER_ERROR :: string where
  "RECEIVER_ERROR = ''error (connection was reset)''"

definition LISTEN :: string where
  "LISTEN = ''waiting for SYN: ackno is empty''"

text \<open>The apostrophe of the source's text is written as the character it is.\<close>

definition SYN_RECV :: string where
  "SYN_RECV = ''SYN received (ackno exists), and input to stream hasn'' @ [CHR 0x27] @ ''t ended''"

definition FIN_RECV :: string where
  "FIN_RECV = ''input to stream has ended''"

definition SENDER_ERROR :: string where
  "SENDER_ERROR = ''error (connection was reset)''"

definition CLOSED :: string where
  "CLOSED = ''waiting for stream to begin (no SYN sent)''"

definition SYN_SENT :: string where
  "SYN_SENT = ''stream started but nothing acknowledged''"

definition SYN_ACKED :: string where
  "SYN_ACKED = ''stream ongoing''"

definition FIN_SENT :: string where
  "FIN_SENT = ''stream finished (FIN sent) but not fully acknowledged''"

definition FIN_ACKED :: string where
  "FIN_ACKED = ''stream finished and fully acknowledged''"

definition receiver_state_summary :: "TCPReceiver \<Rightarrow> string" where
  "receiver_state_summary r =
     (if error_of (stream_out r) then RECEIVER_ERROR
      else if rx_ackno r = None then LISTEN
      else if input_ended (stream_out r) then FIN_RECV
      else SYN_RECV)"

definition sender_state_summary :: "TCPSender \<Rightarrow> string" where
  "sender_state_summary s =
     (if error_of (tx_stream s) then SENDER_ERROR
      else if next_seqno_absolute s = 0 then CLOSED
      else if next_seqno_absolute s = bytes_in_flight s then SYN_SENT
      else if \<not> eof (tx_stream s) then SYN_ACKED
      else if next_seqno_absolute s < bytes_written (tx_stream s) + 2 then SYN_ACKED
      else if bytes_in_flight s \<noteq> 0 then FIN_SENT
      else FIN_ACKED)"

lemmas summary_defs =
  RECEIVER_ERROR_def LISTEN_def SYN_RECV_def FIN_RECV_def SENDER_ERROR_def CLOSED_def SYN_SENT_def
  SYN_ACKED_def FIN_SENT_def FIN_ACKED_def

text \<open>The sender's summaries are pairwise different, so each names one case.\<close>

lemma sender_summaries_distinct:
  "distinct [SENDER_ERROR, CLOSED, SYN_SENT, SYN_ACKED, FIN_SENT, FIN_ACKED]"
  by (simp add: summary_defs)

lemma receiver_summaries_distinct: "distinct [RECEIVER_ERROR, LISTEN, SYN_RECV, FIN_RECV]"
  by (simp add: summary_defs)

lemma tx_fin_iff:
  assumes inv: "tx_inv S s" and "next_seqno s \<noteq> 0"
  shows "eof (tx_stream s) \<and> \<not> next_seqno s < bytes_written (tx_stream s) + 2 \<longleftrightarrow> fin_send s"
proof -
  let ?wc = "unat (write_count (tx_stream s))" and ?rc = "unat (read_count (tx_stream s))"
  have c: "carries S (tx_stream s)" by (rule tx_inv_carries [OF inv])
  have le: "?rc \<le> ?wc" "?wc \<le> length S" using c by (auto simp: carries_def)
  have nx: "unat (next_seqno s) = 1 + ?rc + (if fin_send s then 1 else 0)"
    using inv assms(2) by (simp add: tx_inv_def)
  have "unat (write_count (tx_stream s) + 2) = ?wc + 2"
    using unat_plus_nowrap [of "write_count (tx_stream s)" 2] le tx_inv_length [OF inv] by simp
  then have lt: "next_seqno s < bytes_written (tx_stream s) + 2 \<longleftrightarrow> unat (next_seqno s) < ?wc + 2"
    by (simp only: word_less_nat_alt bytes_written_def)
  have "eof (tx_stream s) \<and> ?wc = ?rc" if "fin_send s"
    using tx_fin_drained(1) [OF inv that] inv that le
    by (auto simp: eof_def input_ended_def buffer_empty_def tx_inv_def)
  then show ?thesis using lt nx le by auto
qed

lemma sender_summary_eq:
  assumes "tx_inv S s"
  shows "sender_state_summary s =
    (if error_of (tx_stream s) then SENDER_ERROR
     else if next_seqno s = 0 then CLOSED
     else if ack_s s = 0 then SYN_SENT
     else if \<not> fin_send s then SYN_ACKED
     else if ack_s s \<noteq> next_seqno s then FIN_SENT
     else FIN_ACKED)"
proof (cases "next_seqno s = 0")
  case True
  then show ?thesis by (simp add: sender_state_summary_def next_seqno_absolute_def)
next
  case False
  then show ?thesis
    using tx_fin_iff [OF assms False]
    by (auto simp: sender_state_summary_def next_seqno_absolute_def bytes_in_flight_def)
qed

subsection \<open>Properties\<close>

text \<open>
  (C14) The summary of a sender says what was sent and acknowledged. For a sender in a valid state whose
  stream has no error, it is \<open>CLOSED\<close> before the SYN is sent, \<open>SYN_SENT\<close> while nothing is acknowledged,
  \<open>SYN_ACKED\<close> until the FIN is sent, \<open>FIN_SENT\<close> until everything is acknowledged and \<open>FIN_ACKED\<close> then;
  the code decides this from byte counts, without looking at the flag \<open>fin_send\<close>.
\<close>
theorem sender_state_spec:
  assumes "tx_inv S s"
  shows "sender_state_summary s =
    (if error_of (tx_stream s) then SENDER_ERROR
     else if next_seqno s = 0 then CLOSED
     else if ack_s s = 0 then SYN_SENT
     else if \<not> fin_send s then SYN_ACKED
     else if ack_s s \<noteq> next_seqno s then FIN_SENT
     else FIN_ACKED)"
  by (rule sender_summary_eq [OF assms])

theorem sender_state_spec_witness:
  "sender_state_summary sample_written = CLOSED"
  using sender_state_spec [OF sample_written_inv]
  by (simp add: sample_written_def sample_sender_def TCPSender_new_def ByteStream_new_def error_of_def)

end
