(* ===== verification/Tcp_Network.thy ===== *)
theory Tcp_Network
  imports Tcp_State
begin

text \<open>
  A sender and a receiver joined by an unreliable network. The network is not part of the sources;
  it is a set of segments and a set of acknowledgments in transit, from which any element may be
  delivered at any time and any number of times, and from which any part may be lost for good at any
  time: loss, duplication and reordering are all covered. Advertised windows are arbitrary. Everything the two ends do is
  done by the operations of \<open>TCPSender\<close>, \<open>TCPReceiver\<close> and \<open>ByteStream\<close>.
\<close>

record conn =
  c_tx :: TCPSender
  c_wire :: "TCPSegment set"
  c_acks :: "(WrappingInt32 \<times> uint16_t) set"
  c_rx :: TCPReceiver
  c_syn :: bool
  c_read :: bytes

definition conn_new :: "TCPSender \<Rightarrow> size_t \<Rightarrow> conn" where
  "conn_new s capacity =
     \<lparr>c_tx = s, c_wire = {}, c_acks = {}, c_rx = TCPReceiver_new capacity, c_syn = False, c_read = []\<rparr>"

inductive conn_step :: "bytes \<Rightarrow> conn \<Rightarrow> conn \<Rightarrow> bool" for S where
  c_write: "d = bslice S (unat (write_count (tx_stream (c_tx c)))) (length d) \<Longrightarrow>
    unat (write_count (tx_stream (c_tx c))) + length d \<le> length S \<Longrightarrow>
    conn_step S c (c\<lparr>c_tx := (c_tx c)\<lparr>tx_stream := snd (ByteStream_write d (tx_stream (c_tx c)))\<rparr>\<rparr>)"
| c_end: "unat (write_count (tx_stream (c_tx c))) = length S \<Longrightarrow>
    conn_step S c (c\<lparr>c_tx := (c_tx c)\<lparr>tx_stream := end_input (tx_stream (c_tx c))\<rparr>\<rparr>)"
| c_fill: "fill_window (c_tx c) = Inr s' \<Longrightarrow> conn_step S c (c\<lparr>c_tx := s'\<rparr>)"
| c_tick: "conn_step S c (c\<lparr>c_tx := tick ms (c_tx c)\<rparr>)"
| c_transmit: "segments_out (c_tx c) = seg # q \<Longrightarrow>
    conn_step S c (c\<lparr>c_tx := (c_tx c)\<lparr>segments_out := q\<rparr>, c_wire := insert seg (c_wire c)\<rparr>)"
| c_deliver: "seg \<in> c_wire c \<Longrightarrow> 0 < seg_len seg \<Longrightarrow> segment_received seg (c_rx c) = Inr r' \<Longrightarrow>
    conn_step S c (c\<lparr>c_rx := r', c_syn := c_syn c \<or> syn_flag (header seg)\<rparr>)"
| c_reply: "rx_ackno (c_rx c) = Some a \<Longrightarrow> conn_step S c (c\<lparr>c_acks := insert (a, w) (c_acks c)\<rparr>)"
| c_ack: "(a, w) \<in> c_acks c \<Longrightarrow> conn_step S c (c\<lparr>c_tx := ack_received a w (c_tx c)\<rparr>)"
| c_lose: "W \<subseteq> c_wire c \<Longrightarrow> A \<subseteq> c_acks c \<Longrightarrow> conn_step S c (c\<lparr>c_wire := W, c_acks := A\<rparr>)"
| c_consume: "ByteStream_read n (stream_out (c_rx c)) = Inr (x, out) \<Longrightarrow>
    conn_step S c (c\<lparr>c_rx := (c_rx c)\<lparr>reassembler := (reassembler (c_rx c))\<lparr>sr_output := out\<rparr>\<rparr>,
                     c_read := c_read c @ x\<rparr>)"

inductive conn_run :: "bytes \<Rightarrow> conn \<Rightarrow> conn \<Rightarrow> bool" for S c0 where
  conn_init: "conn_run S c0 c0"
| conn_more: "conn_run S c0 c \<Longrightarrow> conn_step S c c' \<Longrightarrow> conn_run S c0 c'"

text \<open>The number the receiver is waiting for.\<close>

definition rx_pos :: "conn \<Rightarrow> nat" where
  "rx_pos c = (if c_syn c
     then 1 + unat (write_ptr (reassembler (c_rx c))) + (if input_ended (stream_out (c_rx c)) then 1 else 0)
     else 0)"

lemma rx_pos_simps [simp]:
  "rx_pos (c\<lparr>c_tx := s\<rparr>) = rx_pos c" "rx_pos (c\<lparr>c_wire := x\<rparr>) = rx_pos c"
  "rx_pos (c\<lparr>c_acks := y\<rparr>) = rx_pos c" "rx_pos (c\<lparr>c_read := z\<rparr>) = rx_pos c"
  by (simp_all add: rx_pos_def)

text \<open>The receiver has nothing the sender has not sent.\<close>

definition rx_behind :: "bytes \<Rightarrow> conn \<Rightarrow> bool" where
  "rx_behind S c \<longleftrightarrow> (c_syn c \<longrightarrow> next_seqno (c_tx c) \<noteq> 0) \<and>
     (\<forall>n \<in> received (reassembler (c_rx c)). n + 1 < unat (next_seqno (c_tx c))) \<and>
     (eof_f (reassembler (c_rx c)) \<longrightarrow> unat (next_seqno (c_tx c)) = length S + 2)"

definition conn_inv :: "bytes \<Rightarrow> WrappingInt32 \<Rightarrow> conn \<Rightarrow> bool" where
  "conn_inv S isn c \<longleftrightarrow>
     length S + 2 < 2 ^ 31 \<and> tx_inv S (c_tx c) \<and> tx_isn (c_tx c) = isn \<and>
     rx_inv S isn (c_syn c) (c_rx c) \<and> \<not> error_of (stream_out (c_rx c)) \<and>
     c_read c = take (unat (read_count (stream_out (c_rx c)))) S \<and>
     (\<forall>seg \<in> c_wire c. seg_len seg = 0 \<or>
        (\<exists>a. seq_segment S isn a seg \<and> a + seg_len seg \<le> unat (next_seqno (c_tx c)))) \<and>
     (\<forall>(a, w) \<in> c_acks c. \<exists>k \<le> rx_pos c. a = wrap (of_nat k) isn) \<and>
     rx_behind S c \<and> unat (ack_s (c_tx c)) \<le> rx_pos c"

lemma rx_pos_le:
  assumes rx: "rx_inv S isn (c_syn c) (c_rx c)" and b: "rx_behind S c"
  shows "rx_pos c \<le> unat (next_seqno (c_tx c))"
proof (cases "c_syn c")
  case True
  let ?wp = "unat (write_ptr (reassembler (c_rx c)))"
  have sr: "sr_inv S (reassembler (c_rx c))" by (rule rx_inv_sr [OF rx])
  have "1 + ?wp \<le> unat (next_seqno (c_tx c))"
  proof (cases "?wp = 0")
    case True
    then show ?thesis using b \<open>c_syn c\<close> by (simp add: rx_behind_def Suc_le_eq unat_gt_0)
  next
    case False
    then have "?wp - 1 \<in> received (reassembler (c_rx c))" by (simp add: received_def)
    then show ?thesis using b False by (force simp: rx_behind_def)
  qed
  moreover have "1 + ?wp + 1 \<le> unat (next_seqno (c_tx c))" if "input_ended (stream_out (c_rx c))"
    using sr_inv_ended [OF sr] that b by (simp add: stream_out_def rx_behind_def)
  ultimately show ?thesis by (simp add: rx_pos_def)
qed (simp add: rx_pos_def)

lemma conn_inv_new:
  assumes "length S + 2 < 2 ^ 31" and "length S + unat capacity < 2 ^ 64" and "0 < capacity"
  shows "conn_inv S isn (conn_new (TCPSender_new cap retx (Some isn) rnd) capacity)"
  using assms rx_inv_new [OF assms(2,3)] tx_inv_new [of S cap retx "Some isn" rnd]
  by (simp add: conn_inv_def conn_new_def rx_pos_def rx_behind_def)
     (simp add: TCPSender_new_def TCPReceiver_new_def stream_out_def StreamReassembler_new_def
       ByteStream_new_def error_of_def received_def)

text \<open>A step of the sender that sends more, or nothing, and moves the acknowledged number up at most to \<open>rx_pos\<close>.\<close>

lemma conn_inv_tx:
  assumes inv: "conn_inv S isn c" and "tx_inv S s'" and "tx_isn s' = isn"
    and "unat (next_seqno (c_tx c)) \<le> unat (next_seqno s')" and "unat (ack_s s') \<le> rx_pos c"
    and "unat (next_seqno s') \<le> length S + 2"
  shows "conn_inv S isn (c\<lparr>c_tx := s'\<rparr>)"
proof -
  have "rx_behind S (c\<lparr>c_tx := s'\<rparr>)"
    using inv assms(4,6) by (fastforce simp: conn_inv_def rx_behind_def unat_eq_0 [symmetric])
  moreover have "\<forall>seg \<in> c_wire c. seg_len seg = 0 \<or> (\<exists>a. seq_segment S isn a seg \<and> a + seg_len seg \<le> unat (next_seqno s'))"
    using inv assms(4) unfolding conn_inv_def by (meson le_trans)
  ultimately show ?thesis using inv assms by (simp add: conn_inv_def)
qed

lemma conn_inv_rx_pos: "conn_inv S isn c \<Longrightarrow> rx_pos c \<le> unat (next_seqno (c_tx c))"
  by (rule rx_pos_le) (auto simp: conn_inv_def)

lemma conn_inv_acks: "conn_inv S isn c \<Longrightarrow> (a, w) \<in> c_acks c \<Longrightarrow> \<exists>k \<le> rx_pos c. a = wrap (of_nat k) isn"
  by (auto simp: conn_inv_def)

lemma rx_pos_mono:
  assumes rx: "rx_inv S isn sy r" "rx_inv S isn sy' r'" and "sy \<longrightarrow> sy'"
    and "received (reassembler r) \<subseteq> received (reassembler r')"
    and "eof_f (reassembler r) \<longrightarrow> eof_f (reassembler r')"
  shows "rx_pos (c\<lparr>c_rx := r, c_syn := sy\<rparr>) \<le> rx_pos (c\<lparr>c_rx := r', c_syn := sy'\<rparr>)"
proof -
  let ?wp = "unat (write_ptr (reassembler r))" and ?wp' = "unat (write_ptr (reassembler r'))"
  note sr = rx_inv_sr [OF rx(1)] rx_inv_sr [OF rx(2)]
  have "?wp' \<notin> received (reassembler r)" using write_ptr_gap [OF sr(2)] assms(4) by blast
  then have le: "?wp \<le> ?wp'" by (auto simp: received_def not_less)
  have "?wp' \<le> length S" using carries_le [OF sr_inv_carries [OF sr(2)]] by (simp add: sr_inv_wp [OF sr(2)])
  then have "input_ended (stream_out r) \<longrightarrow> input_ended (stream_out r')"
    using sr_inv_ended [OF sr(1)] sr_inv_ended [OF sr(2)] assms(5) le by (auto simp: stream_out_def)
  then show ?thesis using le assms(3) by (simp add: rx_pos_def)
qed

text \<open>A step of the receiver that keeps what it has.\<close>

lemma conn_inv_rx:
  assumes inv: "conn_inv S isn c" and rx: "rx_inv S isn sy' r'" "c_syn c \<longrightarrow> sy'"
    and more: "received (reassembler (c_rx c)) \<subseteq> received (reassembler r')"
      "eof_f (reassembler (c_rx c)) \<longrightarrow> eof_f (reassembler r')"
    and behind: "rx_behind S (c\<lparr>c_rx := r', c_syn := sy'\<rparr>)"
    and out: "error_of (stream_out r') = error_of (stream_out (c_rx c))"
      "rd = take (unat (read_count (stream_out r'))) S"
  shows "conn_inv S isn (c\<lparr>c_rx := r', c_syn := sy', c_read := rd\<rparr>)"
proof -
  have "rx_pos (c\<lparr>c_rx := c_rx c, c_syn := c_syn c\<rparr>) \<le> rx_pos (c\<lparr>c_rx := r', c_syn := sy'\<rparr>)"
    by (rule rx_pos_mono [OF _ rx more]) (use inv in \<open>simp add: conn_inv_def\<close>)
  then have le: "rx_pos c \<le> rx_pos (c\<lparr>c_rx := r', c_syn := sy'\<rparr>)" by simp
  have "\<forall>(a, w) \<in> c_acks c. \<exists>k \<le> rx_pos (c\<lparr>c_rx := r', c_syn := sy'\<rparr>). a = wrap (of_nat k) isn"
  proof clarify
    fix a w
    assume "(a, w) \<in> c_acks c"
    then obtain k where "k \<le> rx_pos c" "a = wrap (of_nat k) isn" using conn_inv_acks [OF inv] by blast
    then show "\<exists>k \<le> rx_pos (c\<lparr>c_rx := r', c_syn := sy'\<rparr>). a = wrap (of_nat k) isn" using le by (blast intro: order_trans)
  qed
  moreover have "rx_behind S (c\<lparr>c_rx := r', c_syn := sy', c_read := rd\<rparr>)" using behind by (simp add: rx_behind_def)
  ultimately show ?thesis using inv rx(1) out le by (simp add: conn_inv_def)
qed

lemma deliver_at:
  assumes inv: "conn_inv S isn c" and seg: "seq_segment S isn a seg"
  shows "\<exists>r'. segment_received seg (c_rx c) = Inr r' \<and> rx_step_post S isn (c_syn c) (a - 1) seg (c_rx c) r'"
proof -
  have rx: "rx_inv S isn (c_syn c) (c_rx c)" and S: "length S + 2 < 2 ^ 31"
    using inv by (auto simp: conn_inv_def)
  have so: "segment_of S isn (a - 1) seg" using seg by (simp add: seq_segment_def)
  then have "a - 1 \<le> length S" by (auto simp: segment_of_def split: if_splits)
  moreover from this have "unat (of_nat (a - 1) :: uint64_t) = a - 1" using S by (simp add: unat_of_nat)
  moreover have "unat (rx_checkp (c_rx c)) \<le> length S"
    using rx carries_le [OF sr_inv_carries [OF rx_inv_sr [OF rx]]]
    by (auto simp: rx_inv_def sr_inv_wp [OF rx_inv_sr [OF rx]] split: if_splits)
  ultimately have "seq_dist (of_nat (a - 1)) (rx_checkp (c_rx c)) < 2 ^ 31"
    using S by (auto simp: seq_dist_def)
  then show ?thesis using rx_step [OF rx so] by blast
qed

lemma deliver_post:
  assumes inv: "conn_inv S isn c" and seg: "seg \<in> c_wire c" "0 < seg_len seg"
  shows "\<exists>a r'. seq_segment S isn a seg \<and> a + seg_len seg \<le> unat (next_seqno (c_tx c)) \<and>
    segment_received seg (c_rx c) = Inr r' \<and> rx_step_post S isn (c_syn c) (a - 1) seg (c_rx c) r'"
proof -
  obtain a where "seq_segment S isn a seg" "a + seg_len seg \<le> unat (next_seqno (c_tx c))"
    using inv seg by (fastforce simp: conn_inv_def)
  then show ?thesis using deliver_at [OF inv] by blast
qed

lemma deliver_inv:
  assumes inv: "conn_inv S isn c" and seg: "seg \<in> c_wire c" "0 < seg_len seg"
    and run: "segment_received seg (c_rx c) = Inr r'"
  shows "conn_inv S isn (c\<lparr>c_rx := r', c_syn := c_syn c \<or> syn_flag (header seg)\<rparr>)"
proof -
  let ?n = "length (buf_str (payload seg))" and ?N = "unat (next_seqno (c_tx c))"
  have S: "length S < 2 ^ 63" and tx: "tx_inv S (c_tx c)" using inv by (auto simp: conn_inv_def)
  obtain a where a: "seq_segment S isn a seg" "a + seg_len seg \<le> ?N"
    and post: "rx_step_post S isn (c_syn c) (a - 1) seg (c_rx c) r'"
    using deliver_post [OF inv seg] run by auto
  have syn: "syn_flag (header seg) \<longleftrightarrow> a = 0" using a(1) by (simp add: seq_segment_def)
  have pos: "a - 1 + ?n + 1 \<le> ?N" "fin_flag (header seg) \<longrightarrow> ?N = length S + 2"
    using a syn seq_segment_fin [OF a(1) _ S] tx_next_bound(1) [OF tx] by (auto simp: seg_len_def)
  have "rx_behind S (c\<lparr>c_rx := r', c_syn := c_syn c \<or> syn_flag (header seg)\<rparr>)"
    using inv post pos a(2) seg(2)
    by (auto simp: rx_step_post_def Let_def rx_behind_def conn_inv_def split: if_splits)
  then have "conn_inv S isn (c\<lparr>c_rx := r', c_syn := c_syn c \<or> syn_flag (header seg), c_read := c_read c\<rparr>)"
    using inv post segment_received_error [OF run]
    by (intro conn_inv_rx) (auto simp: rx_step_post_def Let_def conn_inv_def)
  then show ?thesis by simp
qed

lemma consume_inv:
  assumes inv: "conn_inv S isn c" and rd: "ByteStream_read n (stream_out (c_rx c)) = Inr (x, out)"
  shows "conn_inv S isn (c\<lparr>c_rx := (c_rx c)\<lparr>reassembler := (reassembler (c_rx c))\<lparr>sr_output := out\<rparr>\<rparr>, c_read := c_read c @ x\<rparr>)"
proof -
  let ?r = "(c_rx c)\<lparr>reassembler := (reassembler (c_rx c))\<lparr>sr_output := out\<rparr>\<rparr>"
  have rx: "rx_inv S isn (c_syn c) (c_rx c)" using inv by (simp add: conn_inv_def)
  note cr = carries_read [OF sr_inv_carries [OF rx_inv_sr [OF rx]] rd [unfolded stream_out_def]]
  have "c_read c @ x = take (unat (read_count out)) S"
    using inv by (simp add: conn_inv_def cr(2,3) stream_out_def bslice_def take_add)
  then have "conn_inv S isn (c\<lparr>c_rx := ?r, c_syn := c_syn c, c_read := c_read c @ x\<rparr>)"
    using inv rx_inv_read [OF rx rd] read_error [OF rd]
    by (intro conn_inv_rx) (auto simp: stream_out_def error_of_def received_def rx_behind_def conn_inv_def)
  then show ?thesis by simp
qed

lemma ack_inv:
  assumes inv: "conn_inv S isn c" and "(a, w) \<in> c_acks c"
  shows "conn_inv S isn (c\<lparr>c_tx := ack_received a w (c_tx c)\<rparr>)"
proof -
  have tx: "tx_inv S (c_tx c)" and S: "length S + 2 < 2 ^ 31" and isn: "tx_isn (c_tx c) = isn"
    using inv by (auto simp: conn_inv_def)
  obtain k where k: "k \<le> rx_pos c" "a = wrap (of_nat k) isn" using conn_inv_acks [OF inv assms(2)] by blast
  have le: "k \<le> unat (next_seqno (c_tx c))" "unat (next_seqno (c_tx c)) \<le> length S + 2"
    using k(1) conn_inv_rx_pos [OF inv] tx_next_bound(1) [OF tx] by simp_all
  then have uk: "unat (of_nat k :: uint64_t) = k" using S by (simp add: unat_of_nat)
  then have "unwrap a (tx_isn (c_tx c)) (next_seqno (c_tx c)) = of_nat k"
    unfolding k(2) isn using le S by (intro wi.dec_enc) (auto simp: seq_dist_def)
  then have "unat (ack_s (ack_received a w (c_tx c))) \<le> rx_pos c"
      "next_seqno (ack_received a w (c_tx c)) = next_seqno (c_tx c)" "tx_isn (ack_received a w (c_tx c)) = isn"
    using k(1) uk inv by (simp_all add: ack_received_cases [OF tx] conn_inv_def isn)
  then show ?thesis using le(2) by (intro conn_inv_tx [OF inv ack_received_inv [OF tx]]) simp_all
qed

lemma reply_inv:
  assumes inv: "conn_inv S isn c" and ak: "rx_ackno (c_rx c) = Some a"
  shows "conn_inv S isn (c\<lparr>c_acks := insert (a, w) (c_acks c)\<rparr>)"
proof -
  have "a = wrap (of_nat (rx_pos c)) isn"
    using inv ak by (auto simp: conn_inv_def rx_inv_def rx_ackno_def rx_pos_def add.commute split: if_splits)
  then show ?thesis using inv by (auto simp: conn_inv_def rx_behind_def)
qed

lemma tick_frame:
  "tx_isn (tick ms s) = tx_isn s" "next_seqno (tick ms s) = next_seqno s" "ack_s (tick ms s) = ack_s s"
  by (simp_all add: tick_def Let_def split: list.splits)

lemma transmit_inv:
  assumes inv: "conn_inv S isn c" and q: "segments_out (c_tx c) = seg # q"
  shows "conn_inv S isn (c\<lparr>c_tx := (c_tx c)\<lparr>segments_out := q\<rparr>, c_wire := insert seg (c_wire c)\<rparr>)"
proof -
  have tx: "tx_inv S (c_tx c)" and isn: "tx_isn (c_tx c) = isn" using inv by (simp_all add: conn_inv_def)
  have "tx_inv S ((c_tx c)\<lparr>segments_out := q\<rparr>)"
    using tx_inv_out_old [OF tx] q by (intro tx_inv_out [OF tx]) auto
  moreover have "seg_len seg = 0 \<or> (\<exists>a. seq_segment S isn a seg \<and> a + seg_len seg \<le> unat (next_seqno (c_tx c)))"
    using tx_inv_out_old [OF tx, of seg] q isn by simp
  ultimately show ?thesis using inv by (simp add: conn_inv_def rx_behind_def)
qed

lemma lose_inv:
  assumes "conn_inv S isn c" and "W \<subseteq> c_wire c" and "A \<subseteq> c_acks c"
  shows "conn_inv S isn (c\<lparr>c_wire := W, c_acks := A\<rparr>)"
proof -
  have "rx_pos (c\<lparr>c_wire := W, c_acks := A\<rparr>) = rx_pos c" by (simp add: rx_pos_def)
  then show ?thesis using assms unfolding conn_inv_def rx_behind_def by auto
qed

lemma conn_step_inv: "conn_step S c c' \<Longrightarrow> conn_inv S isn c \<Longrightarrow> conn_inv S isn c'"
proof (induction rule: conn_step.induct)
  case (c_write d c)
  have tx: "tx_inv S (c_tx c)" using c_write(3) by (simp add: conn_inv_def)
  show ?case
    by (rule conn_inv_tx [OF c_write(3) app_write_inv [OF tx c_write(1,2)]])
       (use c_write(3) tx_next_bound(1) [OF tx] in \<open>simp_all add: conn_inv_def\<close>)
next
  case (c_end c)
  have tx: "tx_inv S (c_tx c)" using c_end(2) by (simp add: conn_inv_def)
  show ?case
    by (rule conn_inv_tx [OF c_end(2) app_end_inv [OF tx c_end(1)]])
       (use c_end(2) tx_next_bound(1) [OF tx] in \<open>simp_all add: conn_inv_def\<close>)
next
  case (c_fill c s')
  have tx: "tx_inv S (c_tx c)" using c_fill(2) by (simp add: conn_inv_def)
  note tx' = fill_window_inv [OF tx c_fill(1)]
  have "unat (next_seqno (c_tx c)) \<le> unat (next_seqno s')"
    using fill_window_correct [OF tx] c_fill(1) by (auto simp: fill_post_def split: if_splits)
  then show ?case
    using fill_window_same [OF tx c_fill(1)] c_fill(2) tx_next_bound(1) [OF tx']
    by (intro conn_inv_tx [OF c_fill(2) tx']) (simp_all add: tx_same_def conn_inv_def)
next
  case (c_tick c ms)
  have tx: "tx_inv S (c_tx c)" using c_tick by (simp add: conn_inv_def)
  show ?case
    using c_tick tx_next_bound(1) [OF tx] tick_frame [of ms "c_tx c"]
    by (intro conn_inv_tx [OF c_tick tick_inv [OF tx]]) (simp_all add: conn_inv_def)
qed (blast intro: transmit_inv deliver_inv reply_inv ack_inv lose_inv consume_inv)+

lemma conn_run_inv:
  assumes "conn_run S (conn_new (TCPSender_new cap retx (Some isn) rnd) capacity) c"
    and "length S + 2 < 2 ^ 31" and "length S + unat capacity < 2 ^ 64" and "0 < capacity"
  shows "conn_inv S isn c"
  using assms by (induction rule: conn_run.induct) (auto intro: conn_inv_new conn_step_inv)

lemma conn_delivered:
  assumes "conn_inv S isn c"
  shows "c_read c @ bts (stream_out (c_rx c)) = take (unat (write_ptr (reassembler (c_rx c)))) S"
  using sr_inv_prefix [OF rx_inv_sr, of S isn "c_syn c" "c_rx c"] assms
  by (simp add: conn_inv_def stream_out_def)

lemma conn_fin_acked:
  assumes inv: "conn_inv S isn c" and "sender_state_summary (c_tx c) = FIN_ACKED"
  shows "rx_pos c = length S + 2"
proof -
  have tx: "tx_inv S (c_tx c)" using inv by (simp add: conn_inv_def)
  have "fin_send (c_tx c)" "next_seqno (c_tx c) \<noteq> 0" "ack_s (c_tx c) = next_seqno (c_tx c)"
    using sender_summary_eq [OF tx] assms(2) sender_summaries_distinct by (auto split: if_splits)
  then have "unat (ack_s (c_tx c)) = length S + 2" using tx by (simp add: tx_inv_def)
  then show ?thesis using inv conn_inv_rx_pos [OF inv] tx_next_bound(1) [OF tx] by (simp add: conn_inv_def)
qed

lemma conn_complete:
  assumes inv: "conn_inv S isn c" and "rx_pos c = length S + 2"
  shows "receiver_state_summary (c_rx c) = FIN_RECV" "c_read c @ bts (stream_out (c_rx c)) = S"
proof -
  have rx: "rx_inv S isn (c_syn c) (c_rx c)" using inv by (simp add: conn_inv_def)
  have le: "unat (write_ptr (reassembler (c_rx c))) \<le> length S"
    using carries_le [OF sr_inv_carries [OF rx_inv_sr [OF rx]]] by (simp add: sr_inv_wp [OF rx_inv_sr [OF rx]])
  then have e: "c_syn c" "input_ended (stream_out (c_rx c))"
      "unat (write_ptr (reassembler (c_rx c))) = length S"
    using assms(2) by (auto simp: rx_pos_def split: if_splits)
  obtain a where "rx_ackno (c_rx c) = Some a" using rx e(1) by (auto simp: rx_inv_def rx_ackno_def)
  then show "receiver_state_summary (c_rx c) = FIN_RECV"
    using inv e(2) by (simp add: receiver_state_summary_def conn_inv_def)
  show "c_read c @ bts (stream_out (c_rx c)) = S" using conn_delivered [OF inv] e(3) by simp
qed

end
