(* ===== verification/Tcp_Progress.thy ===== *)
theory Tcp_Progress
  imports Tcp_Network
begin

text \<open>
  Progress of a connection. A network that may lose everything gives no guarantee that a connection
  ever completes, but it can never get stuck: from every reachable state, those in which all that was
  in transit has been lost included, the two ends can still complete it, when the network delivers what
  is sent from then on, time passes and the two applications write and read.
\<close>

definition syn_segs :: "conn \<Rightarrow> TCPSegment set" where
  "syn_segs c = {seg \<in> set (segments_out (c_tx c)) \<union> snd ` set (segments_noack (c_tx c)) \<union> c_wire c.
     syn_flag (header seg)}"

text \<open>
  The receiver ignores a SYN while the connection is open, with everything it carries. That does no
  harm: all copies of the SYN are the same, and the first one was taken whole.
\<close>

definition syn_taken :: "conn \<Rightarrow> bool" where
  "syn_taken c \<longleftrightarrow> (\<exists>L \<le> 2. (\<forall>seg \<in> syn_segs c. seg_len seg = L) \<and> (c_syn c \<longrightarrow> L \<le> rx_pos c))"

definition live_inv :: "bytes \<Rightarrow> WrappingInt32 \<Rightarrow> conn \<Rightarrow> bool" where
  "live_inv S isn c \<longleftrightarrow> conn_inv S isn c \<and> 0 < b_size (tx_stream (c_tx c)) \<and>
     \<not> error_of (tx_stream (c_tx c)) \<and> tx_window (c_tx c) \<noteq> 0 \<and>
     (next_seqno (c_tx c) = 0 \<longrightarrow> tx_window (c_tx c) = 1) \<and>
     (c_acks c \<noteq> {} \<longrightarrow> c_syn c) \<and> syn_taken c"

lemma live_conn: "live_inv S isn c \<Longrightarrow> conn_inv S isn c"
  by (simp add: live_inv_def)

lemma live_tx: "live_inv S isn c \<Longrightarrow> tx_inv S (c_tx c)"
  by (simp add: live_inv_def conn_inv_def)

lemma live_rx: "live_inv S isn c \<Longrightarrow> rx_inv S isn (c_syn c) (c_rx c)"
  by (simp add: live_inv_def conn_inv_def)

lemma syn_taken_mono:
  assumes "syn_taken c" and "syn_segs c' \<subseteq> syn_segs c" and "c_syn c' = c_syn c" and "rx_pos c \<le> rx_pos c'"
  shows "syn_taken c'"
  using assms unfolding syn_taken_def by (meson order_trans subsetD)

lemma live_inv_new:
  assumes "length S + 2 < 2 ^ 31" and "length S + unat capacity < 2 ^ 64" and "0 < capacity" and "0 < cap"
  shows "live_inv S isn (conn_new (TCPSender_new cap retx (Some isn) rnd) capacity)"
  using conn_inv_new [OF assms(1-3)] assms(4)
  by (simp add: live_inv_def syn_taken_def syn_segs_def conn_new_def TCPSender_new_def ByteStream_new_def error_of_def)
     (rule exI [of _ 0], simp)

lemma live_sender_step:
  assumes live: "live_inv S isn c" and "conn_inv S isn (c\<lparr>c_tx := s'\<rparr>)"
    and "b_size (tx_stream s') = b_size (tx_stream (c_tx c))" "bs_error (tx_stream s') = bs_error (tx_stream (c_tx c))"
    and "tx_window s' \<noteq> 0" "next_seqno s' = 0 \<longrightarrow> tx_window s' = 1"
    and "syn_segs (c\<lparr>c_tx := s'\<rparr>) \<subseteq> syn_segs c"
  shows "live_inv S isn (c\<lparr>c_tx := s'\<rparr>)"
  using assms syn_taken_mono [of c "c\<lparr>c_tx := s'\<rparr>"] by (simp add: live_inv_def error_of_def)

lemma conn_inv_wire:
  assumes "conn_inv S isn c" and "seg \<in> c_wire c" and "0 < seg_len seg"
  shows "\<exists>a. seq_segment S isn a seg \<and> a + seg_len seg \<le> unat (next_seqno (c_tx c))"
  using assms by (fastforce simp: conn_inv_def)

lemma no_syn_yet:
  assumes inv: "conn_inv S isn c" and "next_seqno (c_tx c) = 0"
  shows "syn_segs c = {}" "\<not> c_syn c"
proof -
  have tx: "tx_inv S (c_tx c)" using inv by (simp add: conn_inv_def)
  have "segments_noack (c_tx c) = []" using tx_outstanding_iff [OF tx] tx assms(2) by (simp add: tx_inv_def)
  moreover have "\<not> syn_flag (header seg)" if "seg \<in> set (segments_out (c_tx c))" for seg
    using tx_inv_out_old [OF tx that] assms(2) by (auto simp: seg_len_def)
  moreover have "\<not> syn_flag (header seg)" if "seg \<in> c_wire c" for seg
    using conn_inv_wire [OF inv that] assms(2) by (auto simp: seg_len_def)
  ultimately show "syn_segs c = {}" by (auto simp: syn_segs_def)
  show "\<not> c_syn c" using inv assms(2) by (simp add: conn_inv_def rx_behind_def)
qed

lemma tiles_syn:
  assumes "tiles S isn a m b" and "e \<in> set m" and "syn_flag (header (snd e))"
  shows "a = 0 \<and> snd e = snd (hd m) \<and> seg_len (snd e) \<le> b"
  using assms
proof (induction S isn a m b rule: tiles.induct)
  case (2 S isn a k seg m b)
  then show ?case using tiles_le [of S isn "unat k" m b] by (auto simp: seq_segment_def)
qed simp

lemma fill_live:
  assumes live: "live_inv S isn c" and run: "fill_window (c_tx c) = Inr s'" and inv': "conn_inv S isn (c\<lparr>c_tx := s'\<rparr>)"
  shows "live_inv S isn (c\<lparr>c_tx := s'\<rparr>)"
proof (cases "fin_send (c_tx c)")
  case True
  then have "s' = c_tx c" using run by (simp add: fill_window_def)
  with live show ?thesis by simp
next
  case False
  let ?stop = "ack_s (c_tx c) + ucast (tx_window (c_tx c))"
  have tx: "tx_inv S (c_tx c)" by (rule live_tx [OF live])
  have post: "fill_post S ?stop (c_tx c) s'" using fill_window_correct [OF tx] run False by auto
  obtain new where new: "segments_out s' = segments_out (c_tx c) @ map snd new"
      "segments_noack s' = segments_noack (c_tx c) @ new"
      "tiles S (tx_isn (c_tx c)) (unat (next_seqno (c_tx c))) new (unat (next_seqno s'))"
    using post unfolding fill_post_def by blast
  have segs: "syn_segs (c\<lparr>c_tx := s'\<rparr>) = syn_segs c \<union> {seg \<in> snd ` set new. syn_flag (header seg)}"
    by (auto simp: syn_segs_def new)
  have "syn_taken (c\<lparr>c_tx := s'\<rparr>)"
  proof (cases "next_seqno (c_tx c) = 0")
    case z: True
    have "ack_s (c_tx c) = 0" using tx_next_bound(2) [OF tx] z by (simp add: unat_eq_0)
    then have "unat (next_seqno s') \<le> 2" using post live z by (simp add: fill_post_def live_inv_def)
    then have "\<forall>seg \<in> syn_segs (c\<lparr>c_tx := s'\<rparr>). seg_len seg = seg_len (snd (hd new)) \<and> seg_len (snd (hd new)) \<le> 2"
      using tiles_syn [OF new(3)] no_syn_yet(1) [OF live_conn [OF live] z] segs by fastforce
    then show ?thesis
      using no_syn_yet(2) [OF live_conn [OF live] z]
      by (cases "syn_segs (c\<lparr>c_tx := s'\<rparr>) = {}") (force simp: syn_taken_def)+
  next
    case False
    then have "syn_segs (c\<lparr>c_tx := s'\<rparr>) = syn_segs c"
      using tiles_syn [OF new(3)] segs by (fastforce simp: unat_eq_0)
    then show ?thesis using live by (simp add: live_inv_def syn_taken_def)
  qed
  moreover have "next_seqno s' = 0 \<longrightarrow> next_seqno (c_tx c) = 0" using post by (auto simp: fill_post_def unat_eq_0)
  moreover have "tx_window s' = tx_window (c_tx c)" "b_size (tx_stream s') = b_size (tx_stream (c_tx c))"
      "bs_error (tx_stream s') = bs_error (tx_stream (c_tx c))"
    using post by (simp_all add: fill_post_def tx_same_def)
  ultimately show ?thesis using live inv' by (simp add: live_inv_def error_of_def)
qed

text \<open>The positions received from 0 on are assembled, and a FIN at the end of them ends the output.\<close>

lemma rx_reaches:
  assumes rx: "rx_inv S isn True r" and got: "{0..<m} \<subseteq> received (reassembler r)"
  shows "m \<le> unat (write_ptr (reassembler r))"
    and "eof_f (reassembler r) \<Longrightarrow> m = length S \<Longrightarrow> input_ended (stream_out r)"
proof -
  note sr = rx_inv_sr [OF rx]
  show m: "m \<le> unat (write_ptr (reassembler r))"
    using write_ptr_gap [OF sr] got by (meson atLeastLessThan_iff le0 not_less subsetD)
  show "input_ended (stream_out r)" if "eof_f (reassembler r)" "m = length S"
    using that m sr_inv_ended [OF sr] carries_le [OF sr_inv_carries [OF sr]]
    by (simp add: stream_out_def sr_inv_wp [OF sr])
qed

lemma rx_window_pos:
  assumes "rx_inv S isn sy r"
  shows "unat (read_count (stream_out r)) < sr_window (reassembler r)"
  using assms by (simp add: rx_inv_def sr_window_def stream_out_def word_less_nat_alt)

lemma first_syn:
  assumes inv: "conn_inv S isn c" and seg: "seg \<in> c_wire c" "0 < seg_len seg"
    and run: "segment_received seg (c_rx c) = Inr r'"
    and new: "\<not> c_syn c" "syn_flag (header seg)" "seg_len seg \<le> 2"
  shows "seg_len seg \<le> rx_pos (c\<lparr>c_rx := r', c_syn := True\<rparr>)"
proof -
  let ?n = "length (buf_str (payload seg))" and ?w = "sr_window (reassembler (c_rx c))"
  have rx: "rx_inv S isn False (c_rx c)" using inv new(1) by (simp add: conn_inv_def)
  then have takes: "rx_takes False (c_rx c) seg" using new(2) by (simp add: rx_takes_def rx_inv_def)
  obtain a where a: "seq_segment S isn a seg" and post: "rx_step_post S isn False (a - 1) seg (c_rx c) r'"
    using deliver_post [OF inv seg] run new(1) by auto
  have a0: "a = 0" using a new(2) by (simp add: seq_segment_def)
  have n: "?n \<le> 1" "?n \<le> ?w" "0 < ?w" using new(2,3) rx_window_pos [OF rx] by (auto simp: seg_len_def)
  have rx': "rx_inv S isn True r'" and got: "{0..<?n} \<subseteq> received (reassembler r')"
    and e: "fin_flag (header seg) \<longrightarrow> eof_f (reassembler r')"
    using post takes new(2) n by (auto simp: rx_step_post_def Let_def a0 min_def)
  have "length S < 2 ^ 63" using inv by (simp add: conn_inv_def)
  then have "fin_flag (header seg) \<longrightarrow> input_ended (stream_out r')"
    using rx_reaches(2) [OF rx' got] e seq_segment_fin [OF a] a0 by auto
  then show ?thesis using rx_reaches(1) [OF rx' got] by (simp add: rx_pos_def seg_len_def)
qed

lemma deliver_rx_pos:
  assumes inv: "conn_inv S isn c" and seg: "seg \<in> c_wire c" "0 < seg_len seg"
    and run: "segment_received seg (c_rx c) = Inr r'"
  shows "rx_pos c \<le> rx_pos (c\<lparr>c_rx := r', c_syn := c_syn c \<or> syn_flag (header seg)\<rparr>)"
proof -
  obtain a where post: "rx_step_post S isn (c_syn c) (a - 1) seg (c_rx c) r'"
    using deliver_post [OF inv seg] run by auto
  have "rx_inv S isn (c_syn c) (c_rx c)" using inv by (simp add: conn_inv_def)
  then have "rx_pos (c\<lparr>c_rx := c_rx c, c_syn := c_syn c\<rparr>) \<le> rx_pos (c\<lparr>c_rx := r', c_syn := c_syn c \<or> syn_flag (header seg)\<rparr>)"
    using post by (intro rx_pos_mono) (auto simp: rx_step_post_def Let_def)
  then show ?thesis by simp
qed

lemma deliver_live:
  assumes live: "live_inv S isn c" and seg: "seg \<in> c_wire c" "0 < seg_len seg"
    and run: "segment_received seg (c_rx c) = Inr r'"
  shows "live_inv S isn (c\<lparr>c_rx := r', c_syn := c_syn c \<or> syn_flag (header seg)\<rparr>)" (is "live_inv S isn ?c")
proof -
  note inv = live_conn [OF live]
  have segs: "syn_segs ?c = syn_segs c" by (simp add: syn_segs_def)
  have "syn_taken ?c"
  proof (cases "\<not> c_syn c \<and> syn_flag (header seg)")
    case True
    then have "seg \<in> syn_segs c" using seg(1) by (simp add: syn_segs_def)
    moreover obtain L where "L \<le> 2" "\<forall>x \<in> syn_segs c. seg_len x = L" using live by (auto simp: live_inv_def syn_taken_def)
    ultimately show ?thesis
      using first_syn [OF inv seg run] True unfolding syn_taken_def segs by (intro exI [of _ L]) auto
  next
    case False
    then have "c_syn ?c = c_syn c" by auto
    then show ?thesis
      using syn_taken_mono [of c ?c] deliver_rx_pos [OF inv seg run] segs live by (simp add: live_inv_def)
  qed
  then show ?thesis using deliver_inv [OF inv seg run] live by (auto simp: live_inv_def)
qed

lemma consume_pos:
  assumes inv: "conn_inv S isn c" and rd: "ByteStream_read n (stream_out (c_rx c)) = Inr (x, out)"
  shows "rx_pos (c\<lparr>c_rx := (c_rx c)\<lparr>reassembler := (reassembler (c_rx c))\<lparr>sr_output := out\<rparr>\<rparr>, c_read := y\<rparr>) = rx_pos c"
proof -
  have "rx_inv S isn (c_syn c) (c_rx c)" using inv by (simp add: conn_inv_def)
  then have "carries S (stream_out (c_rx c))" unfolding stream_out_def by (intro sr_inv_carries rx_inv_sr)
  then show ?thesis using carries_read(6) [OF _ rd] by (simp add: rx_pos_def stream_out_def input_ended_def)
qed

lemma tick_live_frame:
  "tx_stream (tick ms s) = tx_stream s" "tx_window (tick ms s) = tx_window s"
  "set (segments_out (tick ms s)) \<subseteq> set (segments_out s) \<union> snd ` set (segments_noack s)"
  "segments_noack (tick ms s) = segments_noack s"
  by (auto simp: tick_def Let_def split: list.splits)

lemma conn_step_live: "conn_step S c c' \<Longrightarrow> live_inv S isn c \<Longrightarrow> live_inv S isn c'"
proof -
  assume step: "conn_step S c c'" and live: "live_inv S isn c"
  note inv = live_conn [OF live]
  note inv' = conn_step_inv [OF step inv]
  have tx: "tx_inv S (c_tx c)" by (rule live_tx [OF live])
  show ?thesis
    using step
  proof cases
    case (c_write d)
    then have "length d < 2 ^ 64" using inv by (simp add: conn_inv_def)
    then have "b_size (snd (ByteStream_write d (tx_stream (c_tx c)))) = b_size (tx_stream (c_tx c))"
      using ByteStream_write_eq [OF carries_inv [OF tx_inv_carries [OF tx]]] by simp
    then show ?thesis
      using inv' live unfolding c_write(1) by (intro live_sender_step) (auto simp: live_inv_def syn_segs_def)
  next
    case c_end
    then show ?thesis
      using inv' live unfolding c_end(1)
      by (intro live_sender_step) (auto simp: live_inv_def syn_segs_def end_input_def)
  next
    case (c_fill s')
    then show ?thesis using fill_live [OF live] inv' by simp
  next
    case (c_tick ms)
    have "syn_segs (c\<lparr>c_tx := tick ms (c_tx c)\<rparr>) \<subseteq> syn_segs c"
      using tick_live_frame(3) [of ms "c_tx c"] by (auto simp: syn_segs_def tick_live_frame(4))
    then show ?thesis
      using inv' live unfolding c_tick
      by (intro live_sender_step) (auto simp: live_inv_def tick_live_frame tick_frame)
  next
    case (c_transmit seg q)
    then have "syn_segs c' = syn_segs c" "rx_pos c' = rx_pos c" by (auto simp: syn_segs_def rx_pos_def)
    then show ?thesis
      using inv' live syn_taken_mono [of c c'] c_transmit(1) by (simp add: live_inv_def)
  next
    case (c_deliver seg r')
    then show ?thesis using deliver_live [OF live] by simp
  next
    case (c_reply a w)
    have "c_syn c" using live_rx [OF live] c_reply(2) by (auto simp: rx_inv_def rx_ackno_def split: if_splits)
    then show ?thesis
      using inv' live syn_taken_mono [of c c'] c_reply(1) by (simp add: live_inv_def syn_segs_def)
  next
    case (c_ack a w)
    have "next_seqno (c_tx c) \<noteq> 0"
      using inv live c_ack(2) by (auto simp: live_inv_def conn_inv_def rx_behind_def)
    moreover have "syn_segs c' \<subseteq> syn_segs c"
      unfolding c_ack(1) ack_received_cases [OF tx] by (auto simp: syn_segs_def erase_acked_eq)
    ultimately show ?thesis
      using inv' live unfolding c_ack(1)
      by (intro live_sender_step) (auto simp: live_inv_def ack_received_cases [OF tx])
  next
    case (c_lose W A)
    then have "syn_segs c' \<subseteq> syn_segs c" "rx_pos c' = rx_pos c" by (auto simp: syn_segs_def rx_pos_def)
    then show ?thesis
      using inv' live syn_taken_mono [of c c'] c_lose by (auto simp: live_inv_def)
  next
    case (c_consume n x out)
    then have "rx_pos c' = rx_pos c" using consume_pos [OF inv] by simp
    then show ?thesis
      using inv' live syn_taken_mono [of c c'] c_consume(1) by (simp add: live_inv_def syn_segs_def)
  qed
qed

subsection \<open>A round\<close>

lemma conn_run_trans: "conn_run S b c \<Longrightarrow> conn_run S a b \<Longrightarrow> conn_run S a c"
  by (induction rule: conn_run.induct) (auto intro: conn_run.intros)

lemma conn_run_one: "conn_step S a b \<Longrightarrow> conn_run S a b"
  by (auto intro: conn_run.intros)

lemma conn_run_live: "conn_run S c c' \<Longrightarrow> live_inv S isn c \<Longrightarrow> live_inv S isn c'"
  by (induction rule: conn_run.induct) (auto intro: conn_step_live)

lemma write_one:
  assumes "carries S out" and "length S < 2 ^ 64" and "bts out = []" and "0 < b_size out"
    and "unat (write_count out) < length S"
  defines "d \<equiv> bslice S (unat (write_count out)) 1"
  shows "length d = 1" "bts (snd (ByteStream_write d out)) \<noteq> []"
proof -
  show d: "length d = 1" using assms(5) by (simp add: d_def bslice_def)
  show "bts (snd (ByteStream_write d out)) \<noteq> []"
    using ByteStream_write_eq [OF carries_inv [OF assms(1)], of d] d assms(3,4)
    by (auto simp: word_less_nat_alt)
qed

text \<open>The application can always give the sender something to send.\<close>

lemma app_progress:
  assumes live: "live_inv S isn c"
  shows "\<exists>s. conn_run S c (c\<lparr>c_tx := s\<rparr>) \<and> (bts (tx_stream s) \<noteq> [] \<or> end_flag (tx_stream s)) \<and>
    next_seqno s = next_seqno (c_tx c) \<and> ack_s s = ack_s (c_tx c) \<and> fin_send s = fin_send (c_tx c)"
proof -
  let ?out = "tx_stream (c_tx c)"
  note tx = live_tx [OF live]
  have le: "unat (write_count ?out) \<le> length S" by (rule carries_le [OF tx_inv_carries [OF tx]])
  consider "bts ?out \<noteq> []" | "unat (write_count ?out) = length S" | "bts ?out = []" "unat (write_count ?out) < length S"
    using le by linarith
  then show ?thesis
  proof cases
    case 1
    then show ?thesis by (intro exI [of _ "c_tx c"]) (simp add: conn_init)
  next
    case 2
    then show ?thesis
      by (intro exI [of _ "(c_tx c)\<lparr>tx_stream := end_input ?out\<rparr>"])
         (auto simp: end_input_def intro: conn_run_one conn_step.c_end [unfolded end_input_def])
  next
    case 3
    let ?d = "bslice S (unat (write_count ?out)) 1"
    have "length S < 2 ^ 64" "0 < b_size ?out" using tx_inv_length [OF tx] live by (simp_all add: live_inv_def)
    note w = write_one [OF tx_inv_carries [OF tx] this(1) 3(1) this(2) 3(2)]
    show ?thesis
      using conn_step.c_write [of ?d S c] w 3(2)
      by (intro exI [of _ "(c_tx c)\<lparr>tx_stream := snd (ByteStream_write ?d ?out)\<rparr>"]) (simp add: conn_run_one)
  qed
qed

lemma fill_progress:
  assumes live: "live_inv S isn c" and idle: "ack_s (c_tx c) = next_seqno (c_tx c)" and nofin: "\<not> fin_send (c_tx c)"
    and todo: "bts (tx_stream (c_tx c)) \<noteq> [] \<or> end_flag (tx_stream (c_tx c))"
  shows "\<exists>s. fill_window (c_tx c) = Inr s \<and> ack_s s = ack_s (c_tx c) \<and> unat (ack_s s) < unat (next_seqno s)"
proof -
  let ?s = "c_tx c"
  let ?stop = "ack_s ?s + ucast (tx_window ?s)"
  note tx = live_tx [OF live]
  obtain s where run: "fill_window ?s = Inr s" and post: "fill_post S ?stop ?s s"
    using fill_window_correct [OF tx] nofin by auto
  note stop = unat_stop [OF tx]
  have tx': "tx_inv S s" and same: "ack_s s = ack_s ?s" "write_count (tx_stream s) = write_count (tx_stream ?s)"
      "end_flag (tx_stream s) = end_flag (tx_stream ?s)"
    using post by (simp_all add: fill_post_def tx_same_def)
  have "0 < unat (tx_window ?s)" using live by (simp add: live_inv_def unat_gt_0)
  then have st: "unat (ack_s ?s) < unat ?stop" using stop by simp
  have "unat (ack_s ?s) < unat (next_seqno s)"
  proof (cases "?stop \<le> next_seqno s")
    case True
    then show ?thesis using st by (simp add: word_le_nat_alt)
  next
    case False
    then have e: "bts (tx_stream s) = []" "end_flag (tx_stream s) \<longrightarrow> fin_send s" using post by (simp_all add: fill_post_def)
    have "0 < ?stop" using st by (simp add: word_less_nat_alt)
    then have "next_seqno ?s = 0 \<longrightarrow> next_seqno s \<noteq> 0" "unat (next_seqno ?s) \<le> unat (next_seqno s)"
      using post unfolding fill_post_def by blast+
    then have nz: "next_seqno s \<noteq> 0" by (auto simp: unat_eq_0)
    have wc: "unat (write_count (tx_stream s)) = unat (read_count (tx_stream s))"
      using carries_length [OF tx_inv_carries [OF tx']] tx_inv_carries [OF tx'] e(1) by (simp add: carries_def)
    have "unat (next_seqno s) = 1 + unat (write_count (tx_stream ?s)) + (if fin_send s then 1 else 0)"
      using tx' nz wc same(2) by (simp add: tx_inv_def)
    moreover have "unat (next_seqno ?s) \<le> 1 + unat (read_count (tx_stream ?s))"
      using tx nofin by (auto simp: tx_inv_def split: if_splits)
    moreover have "unat (read_count (tx_stream ?s)) \<le> unat (write_count (tx_stream ?s))"
      using tx_inv_carries [OF tx] by (simp add: carries_def)
    moreover have "unat (read_count (tx_stream ?s)) < unat (write_count (tx_stream ?s))" if "bts (tx_stream ?s) \<noteq> []"
      using carries_length [OF tx_inv_carries [OF tx]] that by (metis length_greater_0_conv zero_less_diff)
    ultimately show ?thesis using todo e(2) same(3) idle by auto
  qed
  then show ?thesis using run same(1) by auto
qed

lemma send_progress:
  assumes live: "live_inv S isn c" and "ack_s (c_tx c) = next_seqno (c_tx c)" and "\<not> fin_send (c_tx c)"
  shows "\<exists>c'. conn_run S c c' \<and> ack_s (c_tx c') = ack_s (c_tx c) \<and> ack_s (c_tx c') \<noteq> next_seqno (c_tx c')"
proof -
  obtain s where s: "conn_run S c (c\<lparr>c_tx := s\<rparr>)" "bts (tx_stream s) \<noteq> [] \<or> end_flag (tx_stream s)"
      "next_seqno s = next_seqno (c_tx c)" "ack_s s = ack_s (c_tx c)" "fin_send s = fin_send (c_tx c)"
    using app_progress [OF live] by blast
  obtain s' where s': "fill_window s = Inr s'" "ack_s s' = ack_s s" "unat (ack_s s') < unat (next_seqno s')"
    using fill_progress [OF conn_run_live [OF s(1) live]] s assms by auto
  then have "conn_run S (c\<lparr>c_tx := s\<rparr>) (c\<lparr>c_tx := s'\<rparr>)"
    using conn_step.c_fill [of "c\<lparr>c_tx := s\<rparr>" s' S] by (simp add: conn_run_one)
  then show ?thesis
    using s s' conn_run_trans by (intro exI [of _ "c\<lparr>c_tx := s'\<rparr>"]) auto
qed

lemma transmit_all:
  "segments_out (c_tx c) = q \<Longrightarrow>
   conn_run S c (c\<lparr>c_tx := (c_tx c)\<lparr>segments_out := []\<rparr>, c_wire := c_wire c \<union> set q\<rparr>)"
proof (induction q arbitrary: c)
  case Nil
  then have "(c_tx c)\<lparr>segments_out := []\<rparr> = c_tx c" by simp
  then show ?case by (simp add: conn_init)
next
  case (Cons seg q)
  let ?c = "c\<lparr>c_tx := (c_tx c)\<lparr>segments_out := q\<rparr>, c_wire := insert seg (c_wire c)\<rparr>"
  have "conn_run S c ?c" by (rule conn_run_one [OF conn_step.c_transmit [OF Cons.prems]])
  then show ?case using conn_run_trans Cons.IH [of ?c] by fastforce
qed

text \<open>The reader can always empty the output, which opens the window.\<close>

lemma consume_all:
  assumes inv: "conn_inv S isn c"
  shows "\<exists>r x. conn_run S c (c\<lparr>c_rx := r, c_read := c_read c @ x\<rparr>) \<and> rx_pos (c\<lparr>c_rx := r\<rparr>) = rx_pos c \<and>
    bts (stream_out r) = [] \<and> read_count (stream_out r) = write_ptr (reassembler r)"
proof -
  let ?out = "stream_out (c_rx c)"
  have "rx_inv S isn (c_syn c) (c_rx c)" using inv by (simp add: conn_inv_def)
  then have sr: "sr_inv S (reassembler (c_rx c))" by (rule rx_inv_sr)
  have c: "carries S ?out" unfolding stream_out_def by (rule sr_inv_carries [OF sr])
  have len: "length (bts ?out) < 2 ^ 64"
    using bs_inv_length [OF carries_inv [OF c]] le_less_trans [OF _ unat_lt_size] by simp
  obtain x out where rd: "ByteStream_read (csize (bts ?out)) ?out = Inr (x, out)"
    using ByteStream_read_eq [OF carries_inv [OF c]] by blast
  note r = carries_read [OF c rd]
  have "unat (csize (bts ?out)) = length (bts ?out)" using len by (simp add: csize_def unat_of_nat)
  then have "unat (read_count out) = unat (write_count out)"
    using r(3,4) carries_length [OF c] c by (simp add: carries_def)
  then have eq: "read_count out = write_count out" by (rule word_unat_eq_iff [THEN iffD2])
  moreover have "write_count out = write_ptr (reassembler (c_rx c))"
    using r(4) sr_inv_wp [OF sr] by (simp add: stream_out_def)
  moreover have "bts out = []" using carries_length [OF r(1)] eq by simp
  ultimately show ?thesis
    using conn_run_one [OF conn_step.c_consume [OF rd]] consume_pos [OF inv rd, of "c_read c"]
    by (intro exI [of _ "(c_rx c)\<lparr>reassembler := (reassembler (c_rx c))\<lparr>sr_output := out\<rparr>\<rparr>"] exI [of _ x])
       (simp add: stream_out_def)
qed

text \<open>Delivering the segment that covers the number the receiver waits for moves it on.\<close>

text \<open>A segment that starts at or before the first missing number and reaches beyond it is progress.\<close>

lemma rx_advances:
  assumes rx: "rx_inv S isn True r" and post: "rx_step_post S isn True (a - 1) seg r r'" and seg: "seq_segment S isn a seg"
    and S: "length S < 2 ^ 63" and a: "0 < a"
  defines "wp \<equiv> unat (write_ptr (reassembler r))"
  assumes win: "wp < sr_window (reassembler r)"
    and reach: "a - 1 \<le> wp" "wp < a - 1 + length (buf_str (payload seg)) \<or> wp = a - 1 + length (buf_str (payload seg)) \<and> fin_flag (header seg)"
  shows "wp < unat (write_ptr (reassembler r')) \<or> wp \<le> unat (write_ptr (reassembler r')) \<and> input_ended (stream_out r')"
proof -
  have "syn_flag (header seg) \<longleftrightarrow> a = 0" using seg by (simp add: seq_segment_def)
  then have takes: "rx_takes True r seg" using a by (simp add: rx_takes_def)
  have rx': "rx_inv S isn True r'" using post by (simp add: rx_step_post_def Let_def)
  have old: "{0..<wp} \<subseteq> received (reassembler r')"
    using post by (auto simp: rx_step_post_def Let_def received_def wp_def)
  from reach(2) show ?thesis
  proof
    assume "wp < a - 1 + length (buf_str (payload seg))"
    then have "wp \<in> received (reassembler r')"
      using post takes reach(1) win by (auto simp: rx_step_post_def Let_def wp_def)
    then have "{0..<Suc wp} \<subseteq> received (reassembler r')" using old by (auto simp: less_Suc_eq)
    then show ?thesis using rx_reaches(1) [OF rx'] by fastforce
  next
    assume "wp = a - 1 + length (buf_str (payload seg)) \<and> fin_flag (header seg)"
    then have "eof_f (reassembler r')" "wp = length S"
      using post takes win seq_segment_fin [OF seg _ S] by (auto simp: rx_step_post_def Let_def wp_def)
    then show ?thesis using rx_reaches [OF rx' old] by simp
  qed
qed

lemma deliver_progress:
  assumes live: "live_inv S isn c" and seg: "seg \<in> c_wire c" "seq_segment S isn a seg"
    and here: "a \<le> rx_pos c" "rx_pos c < a + seg_len seg"
    and empty: "read_count (stream_out (c_rx c)) = write_ptr (reassembler (c_rx c))"
  shows "\<exists>c'. conn_step S c c' \<and> c_tx c' = c_tx c \<and> rx_pos c < rx_pos c'"
proof -
  let ?wp = "unat (write_ptr (reassembler (c_rx c)))" and ?n = "length (buf_str (payload seg))"
  note inv = live_conn [OF live]
  have rx: "rx_inv S isn (c_syn c) (c_rx c)" by (rule live_rx [OF live])
  have S: "length S < 2 ^ 63" using inv by (simp add: conn_inv_def)
  have pos: "0 < seg_len seg" using here by simp
  obtain r' where run: "segment_received seg (c_rx c) = Inr r'"
    and post: "rx_step_post S isn (c_syn c) (a - 1) seg (c_rx c) r'"
    using deliver_at [OF inv seg(2)] by blast
  let ?c = "c\<lparr>c_rx := r', c_syn := c_syn c \<or> syn_flag (header seg)\<rparr>"
  have syn: "syn_flag (header seg) \<longleftrightarrow> a = 0" using seg(2) by (simp add: seq_segment_def)
  have "rx_pos c < rx_pos ?c"
  proof (cases "c_syn c")
    case False
    then have "rx_pos c = 0" "a = 0" using here by (simp_all add: rx_pos_def)
    then show ?thesis using syn by (simp add: rx_pos_def)
  next
    case True
    have a: "0 < a"
      using live here seg(1) True syn by (auto simp: live_inv_def syn_taken_def syn_segs_def)
    have "a + seg_len seg \<le> length S + 2" by (rule seq_segment_bound(1) [OF seg(2) S])
    then have opn: "\<not> input_ended (stream_out (c_rx c))"
      using here(2) True sr_inv_ended [OF rx_inv_sr [OF rx]] by (auto simp: rx_pos_def stream_out_def)
    have w: "?wp < sr_window (reassembler (c_rx c))" using rx_window_pos [OF rx] empty by simp
    have p: "a - 1 \<le> ?wp" "?wp < a - 1 + ?n \<or> ?wp = a - 1 + ?n \<and> fin_flag (header seg)"
      using here True opn a syn by (auto simp: rx_pos_def seg_len_def split: if_splits)
    have "rx_inv S isn True (c_rx c)" "rx_step_post S isn True (a - 1) seg (c_rx c) r'" using rx post True by simp_all
    from rx_advances [OF this seg(2) S a w p] show ?thesis using True opn by (auto simp: rx_pos_def)
  qed
  then show ?thesis using conn_step.c_deliver [OF seg(1) pos run] by fastforce
qed

text \<open>A timeout, the transmission of what is queued, a read and a delivery bring the receiver past what is acknowledged.\<close>

lemma arrive_progress:
  assumes live: "live_inv S isn c" and out: "ack_s (c_tx c) \<noteq> next_seqno (c_tx c)"
  shows "\<exists>c'. conn_run S c c' \<and> ack_s (c_tx c') = ack_s (c_tx c) \<and> unat (ack_s (c_tx c')) < rx_pos c'"
proof (cases "unat (ack_s (c_tx c)) < rx_pos c")
  case True
  then show ?thesis using conn_init by blast
next
  case False
  note inv = live_conn [OF live] and tx = live_tx [OF live]
  then have at: "rx_pos c = unat (ack_s (c_tx c))" using False by (simp add: conn_inv_def)
  obtain k seg m where m: "segments_noack (c_tx c) = (k, seg) # m"
    using tx_outstanding_iff [OF tx] out by (cases "segments_noack (c_tx c)") auto
  obtain a where a: "a \<le> unat (ack_s (c_tx c))" "seq_segment S isn a seg" "unat (ack_s (c_tx c)) < a + seg_len seg"
    using tx_oldest [OF tx m] inv by (auto simp: conn_inv_def)
  let ?s = "tick (ucast (RTO (c_tx c))) (c_tx c)"
  have s: "segments_out ?s = segments_out (c_tx c) @ [seg]" "ack_s ?s = ack_s (c_tx c)"
    using tick_expired [OF tx, of "ucast (RTO (c_tx c))"] tx_start_iff [OF tx] out m by simp_all
  let ?c1 = "c\<lparr>c_tx := ?s\<rparr>"
  let ?c2 = "?c1\<lparr>c_tx := ?s\<lparr>segments_out := []\<rparr>, c_wire := c_wire c \<union> set (segments_out ?s)\<rparr>"
  have run2: "conn_run S c ?c2"
    using conn_run_trans [OF transmit_all [of ?c1] conn_run_one [OF conn_step.c_tick]] by simp
  obtain r x where run3: "conn_run S ?c2 (?c2\<lparr>c_rx := r, c_read := c_read ?c2 @ x\<rparr>)"
    and r: "rx_pos (?c2\<lparr>c_rx := r\<rparr>) = rx_pos ?c2" "read_count (stream_out r) = write_ptr (reassembler r)"
    using consume_all [OF live_conn [OF conn_run_live [OF run2 live]]] by blast
  let ?c3 = "?c2\<lparr>c_rx := r, c_read := c_read ?c2 @ x\<rparr>"
  have run: "conn_run S c ?c3" by (rule conn_run_trans [OF run3 run2])
  have "rx_pos ?c3 = rx_pos c" using r(1) by simp
  then obtain c' where "conn_step S ?c3 c'" "c_tx c' = c_tx ?c3" "rx_pos c < rx_pos c'"
    using deliver_progress [OF conn_run_live [OF run live], of seg a] a at r(2) s(1) by auto
  then show ?thesis using conn_more [OF run] at s(2) by (intro exI [of _ c']) simp
qed

lemma ack_progress:
  assumes live: "live_inv S isn c" and ahead: "unat (ack_s (c_tx c)) < rx_pos c"
  shows "\<exists>c'. conn_run S c c' \<and> unat (ack_s (c_tx c)) < unat (ack_s (c_tx c'))"
proof -
  note inv = live_conn [OF live] and tx = live_tx [OF live]
  have isn: "tx_isn (c_tx c) = isn" and S: "length S + 2 < 2 ^ 31" using inv by (simp_all add: conn_inv_def)
  let ?a = "wrap (of_nat (rx_pos c)) isn"
  have "c_syn c" using ahead by (auto simp: rx_pos_def split: if_splits)
  then have "rx_ackno (c_rx c) = Some ?a"
    using live_rx [OF live] by (auto simp: rx_inv_def rx_ackno_def rx_pos_def add.commute)
  then have r1: "conn_run S c (c\<lparr>c_acks := insert (?a, 1) (c_acks c)\<rparr>)" (is "conn_run S c ?c1")
    by (intro conn_run_one conn_step.c_reply)
  have r2: "conn_run S ?c1 (?c1\<lparr>c_tx := ack_received ?a 1 (c_tx c)\<rparr>)"
    using conn_step.c_ack [of ?a 1 ?c1 S] by (intro conn_run_one) simp
  have le: "rx_pos c \<le> unat (next_seqno (c_tx c))" "unat (next_seqno (c_tx c)) \<le> length S + 2"
    using conn_inv_rx_pos [OF inv] tx_next_bound(1) [OF tx] by simp_all
  then have uk: "unat (of_nat (rx_pos c) :: uint64_t) = rx_pos c" using S by (simp add: unat_of_nat)
  then have "unwrap ?a (tx_isn (c_tx c)) (next_seqno (c_tx c)) = of_nat (rx_pos c)"
    unfolding isn using le S by (intro wi.dec_enc) (auto simp: seq_dist_def)
  then have "ack_s (ack_received ?a 1 (c_tx c)) = of_nat (rx_pos c)"
    using ahead le(1) uk by (simp add: ack_received_cases [OF tx] word_less_nat_alt)
  then show ?thesis using conn_run_trans [OF r2 r1] ahead uk by fastforce
qed

lemma round_progress:
  assumes live: "live_inv S isn c" and "\<not> (fin_send (c_tx c) \<and> ack_s (c_tx c) = next_seqno (c_tx c))"
  shows "\<exists>c'. conn_run S c c' \<and> unat (ack_s (c_tx c)) < unat (ack_s (c_tx c'))"
proof -
  obtain c1 where c1: "conn_run S c c1" "ack_s (c_tx c1) = ack_s (c_tx c)" "ack_s (c_tx c1) \<noteq> next_seqno (c_tx c1)"
    using send_progress [OF live] assms(2) conn_init by (cases "ack_s (c_tx c) = next_seqno (c_tx c)") blast+
  obtain c2 where c2: "conn_run S c1 c2" "ack_s (c_tx c2) = ack_s (c_tx c)" "unat (ack_s (c_tx c2)) < rx_pos c2"
    using arrive_progress [OF conn_run_live [OF c1(1) live] c1(3)] c1(2) by auto
  have run: "conn_run S c c2" by (rule conn_run_trans [OF c2(1) c1(1)])
  obtain c3 where "conn_run S c2 c3" "unat (ack_s (c_tx c2)) < unat (ack_s (c_tx c3))"
    using ack_progress [OF conn_run_live [OF run live] c2(3)] by blast
  then show ?thesis using conn_run_trans [OF _ run] c2(2) by auto
qed

lemma all_acked_reachable:
  assumes "live_inv S isn c"
  shows "\<exists>c'. conn_run S c c' \<and> fin_send (c_tx c') \<and> ack_s (c_tx c') = next_seqno (c_tx c')"
  using assms
proof (induction "length S + 2 - unat (ack_s (c_tx c))" arbitrary: c rule: less_induct)
  case less
  show ?case
  proof (cases "fin_send (c_tx c) \<and> ack_s (c_tx c) = next_seqno (c_tx c)")
    case True
    then show ?thesis using conn_init by blast
  next
    case False
    obtain c1 where c1: "conn_run S c c1" "unat (ack_s (c_tx c)) < unat (ack_s (c_tx c1))"
      using round_progress [OF less.prems False] by blast
    note live = conn_run_live [OF c1(1) less.prems]
    have "unat (ack_s (c_tx c1)) \<le> length S + 2" using tx_next_bound [OF live_tx [OF live]] by simp
    then have "length S + 2 - unat (ack_s (c_tx c1)) < length S + 2 - unat (ack_s (c_tx c))" using c1(2) by simp
    then show ?thesis using less.hyps [OF _ live] conn_run_trans [OF _ c1(1)] by blast
  qed
qed

lemma completion_reachable:
  assumes "live_inv S isn c"
  shows "\<exists>c'. conn_run S c c' \<and> sender_state_summary (c_tx c') = FIN_ACKED \<and>
    receiver_state_summary (c_rx c') = FIN_RECV \<and> c_read c' = S"
proof -
  obtain c1 where c1: "conn_run S c c1" "fin_send (c_tx c1)" "ack_s (c_tx c1) = next_seqno (c_tx c1)"
    using all_acked_reachable [OF assms] by blast
  note live = conn_run_live [OF c1(1) assms]
  note tx = live_tx [OF live]
  have nz: "next_seqno (c_tx c1) \<noteq> 0" by (rule tx_fin_drained(2) [OF tx c1(2)])
  have fa: "sender_state_summary (c_tx c1) = FIN_ACKED"
    using sender_summary_eq [OF tx] c1 nz live by (simp add: live_inv_def)
  obtain r x where run: "conn_run S c1 (c1\<lparr>c_rx := r, c_read := c_read c1 @ x\<rparr>)" and e: "bts (stream_out r) = []"
    using consume_all [OF live_conn [OF live]] by blast
  note inv = live_conn [OF conn_run_live [OF run live]]
  note fin = conn_complete [OF inv conn_fin_acked [OF inv]]
  show ?thesis
    using conn_run_trans [OF run c1(1)] fin fa e by fastforce
qed

end
