(* ===== verification/Tcp_Wire.thy ===== *)
theory Tcp_Wire
  imports Tcp_Progress
begin

text \<open>
  A connection whose segments travel as bytes: the composition of the sender and the receiver with
  the wire format. A queued segment is given ports, an acknowledgment number and a window by whoever
  sends it, is serialized, and is parsed at the other end; acknowledgments travel in segments of
  their own. As in the network of segments, a byte string in transit may arrive at any time and any
  number of times, and may be lost at any time. This connection refines the one whose network carries segments.
\<close>

subsection \<open>The segments of a sender fit on the wire\<close>

definition seg_sized :: "TCPSegment \<Rightarrow> bool" where
  "seg_sized seg \<longleftrightarrow> doff (header seg) = 5 \<and> length (buf_str (payload seg)) \<le> unat MAX_PAYLOAD_SIZE"

definition tx_all :: "(TCPSegment \<Rightarrow> bool) \<Rightarrow> TCPSender \<Rightarrow> bool" where
  "tx_all P s \<longleftrightarrow> (\<forall>seg \<in> set (segments_out s). P seg) \<and> (\<forall>e \<in> set (segments_noack s). P (snd e))"

lemma tx_all_new: "tx_all P (TCPSender_new capacity retx fixed_isn rnd)"
  by (simp add: tx_all_def TCPSender_new_def)

lemma tx_all_stream [simp]: "tx_all P (s\<lparr>tx_stream := x\<rparr>) = tx_all P s"
  by (simp add: tx_all_def)

lemma tx_all_tick: "tx_all P s \<Longrightarrow> tx_all P (tick ms s)"
  by (auto simp: tx_all_def tick_def Let_def split: list.splits)

lemma tx_all_ack: "tx_all P s \<Longrightarrow> tx_all P (ack_received a w s)"
  by (auto simp: tx_all_def ack_received_def Let_def erase_acked_eq)

lemma tx_all_pop: "tx_all P s \<Longrightarrow> segments_out s = seg # q \<Longrightarrow> tx_all P (s\<lparr>segments_out := q\<rparr>)"
  by (simp add: tx_all_def)

lemma fill_segment_sized:
  assumes "tx_inv S s" and "next_seqno s < stop" and "fill_segment stop s = Inr (seg, s')"
  shows "seg_sized seg"
proof -
  have "filled S stop s seg s'" using fill_segment_correct [OF assms(1,2)] assms(3) by auto
  then have "length (buf_str (payload seg)) \<le> 1452" by (rule filledE) linarith
  moreover have "doff (header seg) = 5"
    using assms(3) by (auto simp: fill_segment_def Let_def bindE_eq_Inr TCPHeader_new_def split: if_splits)
  ultimately show ?thesis by (simp add: seg_sized_def MAX_PAYLOAD_SIZE_def)
qed

lemma tx_all_fill_loop:
  assumes P: "\<And>seg. seg_sized seg \<Longrightarrow> 0 < seg_len seg \<Longrightarrow> P seg"
  shows "fill_loop stop s = Inr s' \<Longrightarrow> tx_inv S s \<Longrightarrow> tx_all P s \<Longrightarrow> tx_all P s'"
proof (induction stop s rule: fill_loop.induct)
  case (1 stop s)
  show ?case
  proof (cases "next_seqno s < stop")
    case lt: True
    obtain seg s1 where f: "fill_segment stop s = Inr (seg, s1)" "filled S stop s seg s1"
      using fill_segment_correct [OF 1(3) lt] by blast
    have s1: "s1 = s\<lparr>tx_stream := tx_stream s1, fin_send := fin_send s \<or> fin_flag (header seg)\<rparr>"
      using filledE [OF f(2)] by metis
    have same: "segments_out s1 = segments_out s" "segments_noack s1 = segments_noack s"
      using arg_cong [OF s1, of segments_out] arg_cong [OF s1, of segments_noack] by simp_all
    show ?thesis
    proof (cases "length_in_sequence_space seg > 0")
      case True
      then have pos: "0 < seg_len seg"
        by (auto simp: seg_len_def length_in_sequence_space_def csize_def split: if_splits intro!: Nat.gr0I)
      then have "P seg" using P fill_segment_sized [OF 1(3) lt f(1)] by blast
      then have "tx_all P (send_segment seg s1)"
        using 1(4) same set_map_insert by (fastforce simp: tx_all_def send_segment_def Let_def)
      moreover have "fill_loop stop (send_segment seg s1) = Inr s'"
        using 1(2) lt f(1) True by (simp add: fill_loop.simps [of stop s])
      ultimately show ?thesis
        using 1(1) [OF lt f(1) refl True] filled_send(1) [OF 1(3) f(2) pos] by blast
    next
      case False
      then have "s' = s1" using 1(2) lt f(1) by (simp add: fill_loop.simps [of stop s])
      then show ?thesis using 1(4) same by (simp add: tx_all_def)
    qed
  next
    case False
    then show ?thesis using 1(2,4) by (simp add: fill_loop.simps [of stop s])
  qed
qed

lemma tx_all_fill:
  assumes "\<And>seg. seg_sized seg \<Longrightarrow> 0 < seg_len seg \<Longrightarrow> P seg"
    and "fill_window s = Inr s'" and "tx_inv S s" and "tx_all P s"
  shows "tx_all P s'"
  using assms(2-4) tx_all_fill_loop [of P, OF assms(1)] by (auto simp: fill_window_def Let_def split: if_splits)

lemma tx_step_sized: "tx_step S s s' \<Longrightarrow> tx_inv S s \<Longrightarrow> tx_all seg_sized s \<Longrightarrow> tx_all seg_sized s'"
proof (induction rule: tx_step.induct)
  case (fill s s')
  then show ?case using tx_all_fill [of seg_sized s s' S] by simp
next
  case (empty s)
  then show ?case
    by (simp add: tx_all_def send_empty_segment_def seg_sized_def TCPSegment_new_def TCPHeader_new_def
        Buffer_empty_def buf_str_def)
next
  case (dequeue s seg q)
  then show ?case by (simp add: tx_all_pop)
qed (simp_all add: tx_all_tick tx_all_ack)

lemma tx_run_sized:
  "tx_run S (TCPSender_new capacity retx fixed_isn rnd) s \<Longrightarrow> length S < 2 ^ 63 \<Longrightarrow> tx_all seg_sized s"
  by (induction rule: tx_run.induct) (use tx_all_new tx_step_sized tx_run_inv in blast)+

subsection \<open>A segment on the wire\<close>

text \<open>
  The fields that the sender leaves to the connection that owns it: ports, acknowledgment number and
  window.
\<close>

definition stamped :: "TCPSegment \<Rightarrow> TCPSegment \<Rightarrow> bool" where
  "stamped seg seg' \<longleftrightarrow> payload seg' = payload seg \<and> doff (header seg') = doff (header seg) \<and>
     seqno (header seg') = seqno (header seg) \<and> syn_flag (header seg') = syn_flag (header seg) \<and>
     fin_flag (header seg') = fin_flag (header seg)"

definition on_wire :: "uint32_t \<Rightarrow> TCPSegment \<Rightarrow> bytes \<Rightarrow> bool" where
  "on_wire dlc seg bs \<longleftrightarrow>
     (\<exists>seg' l. stamped seg seg' \<and> TCPSegment_serialize dlc seg' = Inr l \<and> bs = bl_concatenate l)"

lemma stamped_sized: "stamped seg seg' \<Longrightarrow> seg_sized seg' = seg_sized seg"
  by (simp add: stamped_def seg_sized_def)

lemma received_cong:
  assumes "seqno (header seg) = seqno (header seg')" and "syn_flag (header seg) = syn_flag (header seg')"
    and "fin_flag (header seg) = fin_flag (header seg')" and "buf_str (payload seg) = buf_str (payload seg')"
  shows "segment_received seg r = segment_received seg' r"
  using assms by (simp add: segment_received_def length_in_sequence_space_def buf_copy_def buf_size_def Let_def)

text \<open>Serializing a segment of a sender always succeeds, and what is parsed back is that segment with its checksum.\<close>

lemma sized_serialize_parse:
  assumes "seg_sized seg" and "unat dlc < 2 ^ 30" and "TCPSegment_serialize dlc seg = Inr l"
  obtains seg' c where "TCPSegment_parse (Buffer_of (bl_concatenate l)) dlc seg0 = Inr (NoError, seg')"
    and "header seg' = (header seg)\<lparr>cksum := c\<rparr>" and "buf_str (payload seg') = buf_str (payload seg)"
  using serialize_parse [of seg dlc seg0] assms by (auto simp: seg_sized_def MAX_PAYLOAD_SIZE_def)

lemma sized_serialize:
  assumes "seg_sized seg"
  shows "\<exists>l. TCPSegment_serialize dlc seg = Inr l \<and> length (bl_concatenate l) = 20 + length (buf_str (payload seg))"
  using segment_serialize_eq [of seg dlc] assms by (auto simp: seg_sized_def)

lemma on_wire_parses:
  assumes "on_wire dlc seg bs" and "seg_sized seg" and "unat dlc < 2 ^ 30"
  shows "\<exists>seg'. TCPSegment_parse (Buffer_of bs) dlc seg0 = Inr (NoError, seg')"
proof -
  obtain seg1 l where "stamped seg seg1" "TCPSegment_serialize dlc seg1 = Inr l" "bs = bl_concatenate l"
    using assms(1) by (auto simp: on_wire_def)
  then show ?thesis using sized_serialize_parse [OF _ assms(3)] stamped_sized assms(2) by metis
qed

lemma on_wire_parse:
  assumes "on_wire dlc seg bs" and "seg_sized seg" and "unat dlc < 2 ^ 30"
    and "TCPSegment_parse (Buffer_of bs) dlc seg0 = Inr (NoError, seg')"
  shows "segment_received seg' r = segment_received seg r"
proof -
  obtain seg1 l where s: "stamped seg seg1" "TCPSegment_serialize dlc seg1 = Inr l" "bs = bl_concatenate l"
    using assms(1) by (auto simp: on_wire_def)
  obtain seg2 c where p: "TCPSegment_parse (Buffer_of bs) dlc seg0 = Inr (NoError, seg2)"
    "header seg2 = (header seg1)\<lparr>cksum := c\<rparr>" "buf_str (payload seg2) = buf_str (payload seg1)"
    using sized_serialize_parse [OF _ assms(3) s(2), of seg0] stamped_sized [OF s(1)] assms(2) s(3) by blast
  then show ?thesis using assms(4) s(1) by (intro received_cong) (auto simp: stamped_def)
qed

subsection \<open>The connection over bytes\<close>

record wconn =
  w_tx :: TCPSender
  w_data :: "bytes set"
  w_acks :: "bytes set"
  w_rx :: TCPReceiver
  w_read :: bytes

definition wconn_new :: "TCPSender \<Rightarrow> size_t \<Rightarrow> wconn" where
  "wconn_new s capacity = \<lparr>w_tx = s, w_data = {}, w_acks = {}, w_rx = TCPReceiver_new capacity, w_read = []\<rparr>"

text \<open>
  The steps of the two ends. \<open>dlc\<close> is the checksum of the pseudo-header of the datagram layer. A reply
  is any segment of the other end that carries the acknowledgment number of the receiver.
\<close>

inductive wire_step :: "uint32_t \<Rightarrow> bytes \<Rightarrow> wconn \<Rightarrow> wconn \<Rightarrow> bool" for dlc S where
  w_write: "d = bslice S (unat (write_count (tx_stream (w_tx b)))) (length d) \<Longrightarrow>
    unat (write_count (tx_stream (w_tx b))) + length d \<le> length S \<Longrightarrow>
    wire_step dlc S b (b\<lparr>w_tx := (w_tx b)\<lparr>tx_stream := snd (ByteStream_write d (tx_stream (w_tx b)))\<rparr>\<rparr>)"
| w_end: "unat (write_count (tx_stream (w_tx b))) = length S \<Longrightarrow>
    wire_step dlc S b (b\<lparr>w_tx := (w_tx b)\<lparr>tx_stream := end_input (tx_stream (w_tx b))\<rparr>\<rparr>)"
| w_fill: "fill_window (w_tx b) = Inr s' \<Longrightarrow> wire_step dlc S b (b\<lparr>w_tx := s'\<rparr>)"
| w_tick: "wire_step dlc S b (b\<lparr>w_tx := tick ms (w_tx b)\<rparr>)"
| w_transmit: "segments_out (w_tx b) = seg # q \<Longrightarrow> stamped seg seg' \<Longrightarrow> TCPSegment_serialize dlc seg' = Inr l \<Longrightarrow>
    wire_step dlc S b (b\<lparr>w_tx := (w_tx b)\<lparr>segments_out := q\<rparr>, w_data := insert (bl_concatenate l) (w_data b)\<rparr>)"
| w_deliver: "bs \<in> w_data b \<Longrightarrow> TCPSegment_parse (Buffer_of bs) dlc TCPSegment_new = Inr (NoError, seg) \<Longrightarrow>
    segment_received seg (w_rx b) = Inr r' \<Longrightarrow> wire_step dlc S b (b\<lparr>w_rx := r'\<rparr>)"
| w_reply: "rx_ackno (w_rx b) = Some (ackno (header seg)) \<Longrightarrow> seg_sized seg \<Longrightarrow>
    TCPSegment_serialize dlc seg = Inr l \<Longrightarrow> wire_step dlc S b (b\<lparr>w_acks := insert (bl_concatenate l) (w_acks b)\<rparr>)"
| w_ack: "bs \<in> w_acks b \<Longrightarrow> TCPSegment_parse (Buffer_of bs) dlc TCPSegment_new = Inr (NoError, seg) \<Longrightarrow>
    wire_step dlc S b (b\<lparr>w_tx := ack_received (ackno (header seg)) (win (header seg)) (w_tx b)\<rparr>)"
| w_lose: "D \<subseteq> w_data b \<Longrightarrow> A \<subseteq> w_acks b \<Longrightarrow> wire_step dlc S b (b\<lparr>w_data := D, w_acks := A\<rparr>)"
| w_consume: "ByteStream_read n (stream_out (w_rx b)) = Inr (x, out) \<Longrightarrow>
    wire_step dlc S b (b\<lparr>w_rx := (w_rx b)\<lparr>reassembler := (reassembler (w_rx b))\<lparr>sr_output := out\<rparr>\<rparr>,
                         w_read := w_read b @ x\<rparr>)"

inductive wire_run :: "uint32_t \<Rightarrow> bytes \<Rightarrow> wconn \<Rightarrow> wconn \<Rightarrow> bool" for dlc S b0 where
  wire_init: "wire_run dlc S b0 b0"
| wire_more: "wire_run dlc S b0 b \<Longrightarrow> wire_step dlc S b b' \<Longrightarrow> wire_run dlc S b0 b'"

text \<open>The segment on the wire that a byte string stands for, and the acknowledgment.\<close>

definition seg_fits :: "TCPSegment \<Rightarrow> bool" where
  "seg_fits seg \<longleftrightarrow> seg_sized seg \<and> 0 < seg_len seg"

definition ack_on_wire :: "uint32_t \<Rightarrow> bytes \<Rightarrow> WrappingInt32 \<times> uint16_t \<Rightarrow> bool" where
  "ack_on_wire dlc bs aw \<longleftrightarrow> (\<exists>seg l. seg_sized seg \<and> TCPSegment_serialize dlc seg = Inr l \<and>
     bs = bl_concatenate l \<and> aw = (ackno (header seg), win (header seg)))"

definition data_on_wire :: "uint32_t \<Rightarrow> bytes \<Rightarrow> TCPSegment \<Rightarrow> bool" where
  "data_on_wire dlc bs seg \<longleftrightarrow> seg_fits seg \<and> on_wire dlc seg bs"

definition wire_sim :: "uint32_t \<Rightarrow> wconn \<Rightarrow> conn \<Rightarrow> bool" where
  "wire_sim dlc b c \<longleftrightarrow> c_tx c = w_tx b \<and> c_rx c = w_rx b \<and> c_read c = w_read b \<and> tx_all seg_fits (w_tx b) \<and>
     rel_set (data_on_wire dlc) (w_data b) (c_wire c) \<and> rel_set (ack_on_wire dlc) (w_acks b) (c_acks c)"

lemma rel_set_subset:
  assumes "rel_set R X Y" and "X' \<subseteq> X"
  obtains Y' where "Y' \<subseteq> Y" and "rel_set R X' Y'"
proof
  show "{y \<in> Y. \<exists>x \<in> X'. R x y} \<subseteq> Y" by blast
  show "rel_set R X' {y \<in> Y. \<exists>x \<in> X'. R x y}" using assms by (fastforce simp: rel_set_def)
qed

lemma rel_set_subset_right:
  assumes "rel_set R X Y" and "Y' \<subseteq> Y"
  obtains X' where "X' \<subseteq> X" and "rel_set R X' Y'"
proof
  show "{x \<in> X. \<exists>y \<in> Y'. R x y} \<subseteq> X" by blast
  show "rel_set R {x \<in> X. \<exists>y \<in> Y'. R x y} Y'" using assms by (fastforce simp: rel_set_def)
qed

lemma rel_set_insert: "R x y \<Longrightarrow> rel_set R X Y \<Longrightarrow> rel_set R (insert x X) (insert y Y)"
  by (auto simp: rel_set_def)

lemma ack_on_wire_parse:
  assumes "ack_on_wire dlc bs aw" and "unat dlc < 2 ^ 30"
    and "TCPSegment_parse (Buffer_of bs) dlc seg0 = Inr (NoError, seg)"
  shows "aw = (ackno (header seg), win (header seg))"
  using assms by (auto simp: ack_on_wire_def elim!: sized_serialize_parse [of _ dlc _ seg0])

lemma ack_on_wire_parses:
  assumes "ack_on_wire dlc bs aw" and "unat dlc < 2 ^ 30"
  shows "\<exists>seg. TCPSegment_parse (Buffer_of bs) dlc seg0 = Inr (NoError, seg)"
  using assms by (auto simp: ack_on_wire_def elim!: sized_serialize_parse [of _ dlc _ seg0])

lemma data_on_wire_parses:
  "data_on_wire dlc bs seg \<Longrightarrow> unat dlc < 2 ^ 30 \<Longrightarrow>
     \<exists>seg'. TCPSegment_parse (Buffer_of bs) dlc seg0 = Inr (NoError, seg')"
  using on_wire_parses by (auto simp: data_on_wire_def seg_fits_def)

lemma data_on_wire_parse:
  "data_on_wire dlc bs seg \<Longrightarrow> unat dlc < 2 ^ 30 \<Longrightarrow>
     TCPSegment_parse (Buffer_of bs) dlc seg0 = Inr (NoError, seg') \<Longrightarrow> segment_received seg' r = segment_received seg r"
  using on_wire_parse by (auto simp: data_on_wire_def seg_fits_def)

lemma fits_fill: "fill_window s = Inr s' \<Longrightarrow> tx_inv S s \<Longrightarrow> tx_all seg_fits s \<Longrightarrow> tx_all seg_fits s'"
  by (rule tx_all_fill) (simp_all add: seg_fits_def)

lemma transmit_sim:
  assumes "wire_sim dlc b c" and "segments_out (w_tx b) = seg # q" and "stamped seg seg'"
    and "TCPSegment_serialize dlc seg' = Inr l"
  shows "wire_sim dlc (b\<lparr>w_tx := (w_tx b)\<lparr>segments_out := q\<rparr>, w_data := insert (bl_concatenate l) (w_data b)\<rparr>)
    (c\<lparr>c_tx := (c_tx c)\<lparr>segments_out := q\<rparr>, c_wire := insert seg (c_wire c)\<rparr>)"
proof -
  have "data_on_wire dlc (bl_concatenate l) seg"
    using assms by (auto simp: data_on_wire_def on_wire_def wire_sim_def tx_all_def)
  then show ?thesis using assms tx_all_pop [of seg_fits "w_tx b"] by (auto simp: wire_sim_def intro: rel_set_insert)
qed

lemma reply_sim:
  assumes "wire_sim dlc b c" and "seg_sized seg" and "TCPSegment_serialize dlc seg = Inr l"
  shows "wire_sim dlc (b\<lparr>w_acks := insert (bl_concatenate l) (w_acks b)\<rparr>)
    (c\<lparr>c_acks := insert (ackno (header seg), win (header seg)) (c_acks c)\<rparr>)"
proof -
  have "ack_on_wire dlc (bl_concatenate l) (ackno (header seg), win (header seg))"
    using assms(2,3) unfolding ack_on_wire_def by blast
  then show ?thesis using assms(1) by (auto simp: wire_sim_def intro: rel_set_insert)
qed

lemma conn_run_keeps: "conn_run S c c' \<Longrightarrow> conn_inv S isn c \<Longrightarrow> conn_inv S isn c'"
  by (induction rule: conn_run.induct) (auto intro: conn_step_inv)

lemma wire_step_sim:
  assumes "wire_step dlc S b b'" and "wire_sim dlc b c" and "conn_inv S isn c" and "unat dlc < 2 ^ 30"
  shows "\<exists>c'. conn_step S c c' \<and> wire_sim dlc b' c'"
  using assms(1-3)
proof (induction rule: wire_step.induct)
  case (w_write d b)
  then show ?case using c_write [of d S c] by (auto simp: wire_sim_def)
next
  case (w_end b)
  then show ?case using c_end [of c S] by (auto simp: wire_sim_def)
next
  case (w_fill b s')
  then show ?case using c_fill [of c s' S] fits_fill [of "w_tx b" s' S] by (auto simp: wire_sim_def conn_inv_def)
next
  case (w_tick b ms)
  then show ?case using c_tick [of S c ms] tx_all_tick by (auto simp: wire_sim_def)
next
  case (w_transmit b seg q seg' l)
  then show ?case using c_transmit [of c seg q S] transmit_sim [of dlc b c seg q seg' l] by (auto simp: wire_sim_def)
next
  case (w_deliver bs b seg' r')
  then obtain seg where seg: "seg \<in> c_wire c" "data_on_wire dlc bs seg" by (auto simp: wire_sim_def dest: rel_setD1)
  then have "segment_received seg (c_rx c) = Inr r'"
    using data_on_wire_parse [OF seg(2) assms(4) w_deliver(2)] w_deliver by (simp add: wire_sim_def)
  then show ?case
    using seg w_deliver c_deliver [of seg c r' S] by (auto simp: wire_sim_def seg_fits_def data_on_wire_def)
next
  case (w_reply b seg l)
  then show ?case
    using c_reply [of c "ackno (header seg)" S "win (header seg)"] reply_sim [of dlc b c seg l]
    by (auto simp: wire_sim_def)
next
  case (w_ack bs b seg)
  then obtain aw where aw: "aw \<in> c_acks c" "ack_on_wire dlc bs aw" by (auto simp: wire_sim_def dest: rel_setD1)
  then have "(ackno (header seg), win (header seg)) \<in> c_acks c"
    using ack_on_wire_parse [OF aw(2) assms(4) w_ack(2)] by simp
  then show ?case
    using w_ack c_ack [of "ackno (header seg)" "win (header seg)" c S] tx_all_ack [of seg_fits "w_tx b"]
    by (auto simp: wire_sim_def)
next
  case (w_lose D b A)
  obtain W A' where "W \<subseteq> c_wire c" "rel_set (data_on_wire dlc) D W" "A' \<subseteq> c_acks c" "rel_set (ack_on_wire dlc) A A'"
    using w_lose rel_set_subset [of "data_on_wire dlc"] rel_set_subset [of "ack_on_wire dlc"] unfolding wire_sim_def by metis
  then show ?case using w_lose c_lose [of W c A' S] by (auto simp: wire_sim_def)
next
  case (w_consume n b x out)
  then show ?case using c_consume [of n c x out S] by (auto simp: wire_sim_def)
qed

lemma conn_step_wire:
  assumes "conn_step S c c'" and "wire_sim dlc b c" and "conn_inv S isn c" and "unat dlc < 2 ^ 30"
  shows "\<exists>b'. wire_step dlc S b b' \<and> wire_sim dlc b' c'"
  using assms(1-3)
proof (induction rule: conn_step.induct)
  case (c_write d c)
  then show ?case using w_write [of d S b dlc] by (auto simp: wire_sim_def)
next
  case (c_end c)
  then show ?case using w_end [of b S dlc] by (auto simp: wire_sim_def)
next
  case (c_fill c s')
  then show ?case using w_fill [of b s' dlc S] fits_fill [of "w_tx b" s' S] by (auto simp: wire_sim_def conn_inv_def)
next
  case (c_tick c ms)
  then show ?case using w_tick [of dlc S b ms] tx_all_tick by (auto simp: wire_sim_def)
next
  case (c_transmit c seg q)
  then have sized: "seg_sized seg" by (auto simp: wire_sim_def tx_all_def seg_fits_def)
  then obtain l where "TCPSegment_serialize dlc seg = Inr l" using sized_serialize by blast
  then show ?case
    using c_transmit w_transmit [of b seg q seg dlc l S] transmit_sim [of dlc b c seg q seg l]
    by (auto simp: wire_sim_def stamped_def)
next
  case (c_deliver seg c r')
  then obtain bs where bs: "bs \<in> w_data b" "data_on_wire dlc bs seg" by (auto simp: wire_sim_def dest: rel_setD2)
  then obtain seg' where p: "TCPSegment_parse (Buffer_of bs) dlc TCPSegment_new = Inr (NoError, seg')"
    using data_on_wire_parses assms(4) by blast
  then show ?case
    using bs c_deliver w_deliver [OF bs(1) p, of r' S] data_on_wire_parse [OF bs(2) assms(4) p] by (auto simp: wire_sim_def)
next
  case (c_reply c a w)
  let ?seg = "TCPSegment_new\<lparr>header := TCPHeader_new\<lparr>ackno := a, win := w\<rparr>\<rparr>"
  have "seg_sized ?seg"
    by (simp add: seg_sized_def TCPSegment_new_def TCPHeader_new_def Buffer_empty_def buf_str_def)
  moreover from this obtain l where "TCPSegment_serialize dlc ?seg = Inr l" using sized_serialize by blast
  ultimately show ?case
    using c_reply w_reply [of b ?seg dlc l S] reply_sim [of dlc b c ?seg l] by (auto simp: wire_sim_def)
next
  case (c_ack a w c)
  then obtain bs where bs: "bs \<in> w_acks b" "ack_on_wire dlc bs (a, w)" by (auto simp: wire_sim_def dest: rel_setD2)
  then obtain seg where p: "TCPSegment_parse (Buffer_of bs) dlc TCPSegment_new = Inr (NoError, seg)"
    using ack_on_wire_parses assms(4) by blast
  then show ?case
    using c_ack w_ack [OF bs(1) p, of S] ack_on_wire_parse [OF bs(2) assms(4) p] tx_all_ack [of seg_fits "w_tx b"]
    by (auto simp: wire_sim_def)
next
  case (c_lose W c A)
  obtain D A' where "D \<subseteq> w_data b" "rel_set (data_on_wire dlc) D W" "A' \<subseteq> w_acks b" "rel_set (ack_on_wire dlc) A' A"
    using c_lose rel_set_subset_right [of "data_on_wire dlc"] rel_set_subset_right [of "ack_on_wire dlc"]
    unfolding wire_sim_def by metis
  then show ?case using c_lose w_lose [of D b A' dlc S] by (auto simp: wire_sim_def)
next
  case (c_consume n c x out)
  then show ?case using w_consume [of n b x out dlc S] by (auto simp: wire_sim_def)
qed

lemma wire_run_sim:
  assumes "wire_run dlc S b0 b" and "wire_sim dlc b0 c0" and "conn_inv S isn c0" and "unat dlc < 2 ^ 30"
  shows "\<exists>c. conn_run S c0 c \<and> wire_sim dlc b c"
  using assms
proof (induction rule: wire_run.induct)
  case wire_init
  then show ?case using conn_init by blast
next
  case (wire_more b b')
  then obtain c where c: "conn_run S c0 c" "wire_sim dlc b c" by blast
  then show ?case
    using wire_step_sim [OF wire_more.hyps(2) c(2) conn_run_keeps [OF c(1)]] wire_more.prems conn_more [OF c(1)] by blast
qed

lemma conn_run_wire:
  assumes "conn_run S c0 c" and "wire_sim dlc b0 c0" and "conn_inv S isn c0" and "unat dlc < 2 ^ 30"
  shows "\<exists>b. wire_run dlc S b0 b \<and> wire_sim dlc b c"
  using assms
proof (induction rule: conn_run.induct)
  case conn_init
  then show ?case using wire_init by blast
next
  case (conn_more c c')
  then obtain b where b: "wire_run dlc S b0 b" "wire_sim dlc b c" by blast
  then show ?case
    using conn_step_wire [OF conn_more.hyps(2) b(2) conn_run_keeps [OF conn_more.hyps(1)]] conn_more.prems
      wire_more [OF b(1)] by blast
qed

lemma wire_sim_new: "wire_sim dlc (wconn_new (TCPSender_new cap retx fixed_isn rnd) capacity)
    (conn_new (TCPSender_new cap retx fixed_isn rnd) capacity)"
  by (simp add: wire_sim_def wconn_new_def conn_new_def tx_all_new rel_set_def)

text \<open>The two connections go through the same states of the two ends, and both can always be completed.\<close>

lemma wire_states:
  assumes "length S + 2 < 2 ^ 31" and "length S + unat capacity < 2 ^ 64" and "0 < capacity" and "unat dlc < 2 ^ 30"
  shows "(\<exists>b. wire_run dlc S (wconn_new (TCPSender_new cap retx (Some isn) rnd) capacity) b \<and>
      w_tx b = s \<and> w_rx b = r \<and> w_read b = x) \<longleftrightarrow>
    (\<exists>c. conn_run S (conn_new (TCPSender_new cap retx (Some isn) rnd) capacity) c \<and>
      c_tx c = s \<and> c_rx c = r \<and> c_read c = x)" (is "?wire \<longleftrightarrow> ?conn")
proof
  note inv = conn_inv_new [OF assms(1-3), of isn cap retx rnd]
  show ?conn if w: ?wire
    using w wire_run_sim [OF _ wire_sim_new inv assms(4)] by (auto simp: wire_sim_def)
  show ?wire if c: ?conn
    using c conn_run_wire [OF _ wire_sim_new inv assms(4)] by (auto simp: wire_sim_def) metis
qed

lemma wire_completion:
  assumes "wire_run dlc S (wconn_new (TCPSender_new cap retx (Some isn) rnd) capacity) b"
    and "length S + 2 < 2 ^ 31" and "length S + unat capacity < 2 ^ 64" and "0 < capacity" and "0 < cap"
    and "unat dlc < 2 ^ 30"
  shows "\<exists>b'. wire_run dlc S b b' \<and> sender_state_summary (w_tx b') = FIN_ACKED \<and>
    receiver_state_summary (w_rx b') = FIN_RECV \<and> w_read b' = S"
proof -
  obtain c where c: "conn_run S (conn_new (TCPSender_new cap retx (Some isn) rnd) capacity) c" "wire_sim dlc b c"
    using wire_run_sim [OF assms(1) wire_sim_new conn_inv_new [OF assms(2-4)] assms(6)] by blast
  note live = conn_run_live [OF c(1) live_inv_new [OF assms(2-5)]]
  obtain c' where c': "conn_run S c c'" "sender_state_summary (c_tx c') = FIN_ACKED"
    "receiver_state_summary (c_rx c') = FIN_RECV" "c_read c' = S"
    using completion_reachable [OF live] by blast
  obtain b' where "wire_run dlc S b b'" "wire_sim dlc b' c'"
    using conn_run_wire [OF c'(1) c(2) live_conn [OF live] assms(6)] by blast
  then show ?thesis using c' by (intro exI [of _ b']) (simp add: wire_sim_def)
qed

text \<open>
  (C10) Every segment a sender queues can be put on the wire and taken off it. In every run, whatever
  ports, acknowledgment number and window the queued segment is sent with, it serializes, to 20 bytes
  of header and at most 1452 of payload; parsing those bytes accepts the checksum and gives back a
  segment with the same flags, numbers and payload, to which every receiver reacts as it
  would to the queued segment itself.
\<close>
theorem sender_segments_on_wire:
  assumes "tx_run S (TCPSender_new capacity retx fixed_isn rnd) s" and "length S < 2 ^ 63"
    and "seg \<in> set (segments_out s)" and "stamped seg seg'" and "unat dlc < 2 ^ 30"
  shows "\<exists>l seg'' c. TCPSegment_serialize dlc seg' = Inr l \<and> length (bl_concatenate l) \<le> 1472 \<and>
    TCPSegment_parse (Buffer_of (bl_concatenate l)) dlc seg0 = Inr (NoError, seg'') \<and>
    header seg'' = (header seg')\<lparr>cksum := c\<rparr> \<and> buf_str (payload seg'') = buf_str (payload seg) \<and>
    (\<forall>r. segment_received seg'' r = segment_received seg r)"
proof -
  have sized: "seg_sized seg" "seg_sized seg'"
    using tx_run_sized [OF assms(1,2)] assms(3) stamped_sized [OF assms(4)] by (auto simp: tx_all_def)
  then obtain l where l: "TCPSegment_serialize dlc seg' = Inr l" "length (bl_concatenate l) \<le> 1472"
    using sized_serialize [of seg' dlc] by (auto simp: seg_sized_def MAX_PAYLOAD_SIZE_def)
  obtain seg'' c where p: "TCPSegment_parse (Buffer_of (bl_concatenate l)) dlc seg0 = Inr (NoError, seg'')"
    "header seg'' = (header seg')\<lparr>cksum := c\<rparr>" "buf_str (payload seg'') = buf_str (payload seg')"
    by (rule sized_serialize_parse [OF sized(2) assms(5) l(1)])
  have "on_wire dlc seg (bl_concatenate l)" using assms(4) l(1) by (auto simp: on_wire_def)
  then have "segment_received seg'' r = segment_received seg r" for r
    by (rule on_wire_parse [OF _ sized(1) assms(5) p(1)])
  moreover have "buf_str (payload seg') = buf_str (payload seg)" using assms(4) by (simp add: stamped_def)
  ultimately show ?thesis using l p by (intro exI [of _ l] exI [of _ seg''] exI [of _ c]) simp
qed

lemma sample_queued: "\<exists>s seg q. fill_window sample_written = Inr s \<and> segments_out s = seg # q"
proof -
  have "case fill_window sample_written of Inr s \<Rightarrow> segments_out s \<noteq> [] | Inl _ \<Rightarrow> False" by code_simp
  then show ?thesis by (auto simp: neq_Nil_conv split: sum.splits)
qed

theorem sender_segments_on_wire_witness:
  "\<exists>s seg q l seg''. fill_window sample_written = Inr s \<and> segments_out s = seg # q \<and>
     TCPSegment_serialize 17 (seg\<lparr>header := (header seg)\<lparr>sport := 80, win := 5\<rparr>\<rparr>) = Inr l \<and>
     TCPSegment_parse (Buffer_of (bl_concatenate l)) 17 TCPSegment_new = Inr (NoError, seg'') \<and>
     (\<forall>r. segment_received seg'' r = segment_received seg r)"
proof -
  obtain s seg q where s: "fill_window sample_written = Inr s" "segments_out s = seg # q"
    using sample_queued by blast
  then have run: "tx_run [1, 2, 3] (TCPSender_new 10 1000 (Some (WrappingInt32 7)) 0) s"
    using sample_sender_run by (simp add: sample_sender_def)
  have "stamped seg (seg\<lparr>header := (header seg)\<lparr>sport := 80, win := 5\<rparr>\<rparr>)" by (simp add: stamped_def)
  then show ?thesis
    using sender_segments_on_wire [OF run _ _ _, of seg _ 17 TCPSegment_new] s by fastforce
qed

end
