(* ===== verification/Text_Format.thy ===== *)
theory Text_Format
  imports Sponge_Prelude
begin

text \<open>
  Numbers as text, as \<open>std::to_string\<close> and the stream inserters of the standard library print them:
  digits of an unsigned number in base 10 or 16 without leading zeros, \<open>setw\<close> with a fill character,
  \<open>boolalpha\<close>; and string literals as bytes.
\<close>

definition digit_chars :: string where
  "digit_chars = ''0123456789abcdef''"

definition digit_char :: "nat \<Rightarrow> char" where
  "digit_char d = digit_chars ! d"

fun digits :: "nat \<Rightarrow> nat \<Rightarrow> string" where
  "digits b n = (if b \<le> 1 \<or> n < b then [digit_char n] else digits b (n div b) @ [digit_char (n mod b)])"

declare digits.simps [simp del]

definition to_string_nat :: "nat \<Rightarrow> string" where
  "to_string_nat n = digits 10 n"

definition to_string_int :: "int \<Rightarrow> string" where
  "to_string_int i = (if i < 0 then ''-'' @ digits 10 (nat (- i)) else digits 10 (nat i))"

definition hex :: "nat \<Rightarrow> string" where
  "hex n = digits 16 n"

definition setw :: "nat \<Rightarrow> char \<Rightarrow> string \<Rightarrow> string" where
  "setw w fill s = replicate (w - length s) fill @ s"

definition boolalpha :: "bool \<Rightarrow> string" where
  "boolalpha b = (if b then ''true'' else ''false'')"

definition str_bytes :: "string \<Rightarrow> bytes" where
  "str_bytes s = map of_char s"

text \<open>Reading digits back: \<open>std::stoi\<close> on a string of decimal digits.\<close>

definition char_digit :: "char \<Rightarrow> nat" where
  "char_digit c = (let n = of_char c in if n < (58 :: nat) then n - 48 else n - 87)"

definition read_digits :: "nat \<Rightarrow> string \<Rightarrow> nat" where
  "read_digits b s = foldl (\<lambda>n c. n * b + char_digit c) 0 s"

lemma digit_char_table:
  "\<forall>d \<in> set [0..<16]. char_digit (digit_char d) = d \<and> digit_char d \<in> set digit_chars"
  by code_simp

lemma digit_char_inverse [simp]: "d < 16 \<Longrightarrow> char_digit (digit_char d) = d"
  using bspec [OF digit_char_table, of d] by (simp del: upt_rec_numeral)

lemma digit_char_range: "d < 16 \<Longrightarrow> digit_char d \<in> set digit_chars"
  using bspec [OF digit_char_table, of d] by (simp del: upt_rec_numeral)

lemma mod_lt16: "1 < b \<Longrightarrow> b \<le> 16 \<Longrightarrow> n mod b < (16 :: nat)"
  by (rule less_le_trans [OF mod_less_divisor]) simp_all

lemma digits_set: "1 < b \<Longrightarrow> b \<le> 16 \<Longrightarrow> set (digits b n) \<subseteq> set digit_chars"
proof (induction b n rule: digits.induct)
  case (1 b n)
  note mod_lt16 [OF 1(2,3), of n]
  with digit_char_range have "digit_char (n mod b) \<in> set digit_chars" .
  moreover have "n < b \<Longrightarrow> n mod b = n" by simp
  ultimately show ?case using 1 by (auto simp: digits.simps [of b n])
qed

lemma read_digits_inverse: "1 < b \<Longrightarrow> b \<le> 16 \<Longrightarrow> read_digits b (digits b n) = n"
proof (induction b n rule: digits.induct)
  case (1 b n)
  show ?case
  proof (cases "n < b")
    case True
    then show ?thesis using 1(2,3) by (simp add: digits.simps [of b n] read_digits_def)
  next
    case False
    then have "read_digits b (digits b (n div b)) = n div b" using 1 by simp
    then show ?thesis using 1(2) False mod_lt16 [OF 1(2,3), of n] by (simp add: digits.simps [of b n] read_digits_def)
  qed
qed

lemma digits_inject: "1 < b \<Longrightarrow> b \<le> 16 \<Longrightarrow> digits b m = digits b n \<longleftrightarrow> m = n"
  by (metis read_digits_inverse)

lemma digits_nonempty [simp]: "digits b n \<noteq> []"
  by (simp add: digits.simps [of b n])

lemma boolalpha_inject [simp]: "boolalpha a = boolalpha b \<longleftrightarrow> a = b"
  by (simp add: boolalpha_def)

text \<open>A separator that does not occur in the fields splits a text in one way.\<close>

lemma split_unique:
  assumes "c \<notin> set xs" and "c \<notin> set xs'"
  shows "xs @ c # ys = xs' @ c # ys' \<longleftrightarrow> xs = xs' \<and> ys = ys'"
  using assms
proof (induction xs arbitrary: xs')
  case Nil
  then show ?case by (cases xs') auto
next
  case (Cons x xs)
  then show ?case by (cases xs') auto
qed

end
