(* ===== verification/System_Calls.thy ===== *)
theory System_Calls
  imports Text_Format
begin

text \<open>
  The boundary to the operating system. A system call is a parameter of the model: a function of the
  kernel's state that gives the return value, \<open>errno\<close>, the data written through pointer arguments and
  the kernel's next state. \<open>SystemCall\<close> (libsponge/util/util.cc) turns a failed call into an exception.
  An operation that can throw after it has changed something returns the state it leaves in either case.
\<close>

type_synonym ('m, 'a) io = "'m \<Rightarrow> (cpp_error + 'a) \<times> 'm"
type_synonym ('k, 'a) syscall = "'k \<Rightarrow> (int \<times> int \<times> 'a) \<times> 'k"

definition returnIO :: "'a \<Rightarrow> ('m, 'a) io" where
  "returnIO x m = (Inr x, m)"

definition throwIO :: "cpp_error \<Rightarrow> ('m, 'a) io" where
  "throwIO e m = (Inl e, m)"

definition liftE :: "cpp_error + 'a \<Rightarrow> ('m, 'a) io" where
  "liftE r m = (r, m)"

definition modifyIO :: "('m \<Rightarrow> 'm) \<Rightarrow> ('m, unit) io" where
  "modifyIO f m = (Inr (), f m)"

definition bindIO :: "('m, 'a) io \<Rightarrow> ('a \<Rightarrow> ('m, 'b) io) \<Rightarrow> ('m, 'b) io" where
  "bindIO f g m = (case f m of (Inl e, m') \<Rightarrow> (Inl e, m') | (Inr x, m') \<Rightarrow> g x m')"

text \<open>The value of a \<open>ssize_t\<close> or an \<open>int\<close> after the conversion to \<open>int\<close>.\<close>

definition to_int :: "int \<Rightarrow> int" where
  "to_int v = signed_take_bit 31 v"

definition SystemCall :: "string \<Rightarrow> int \<Rightarrow> int \<Rightarrow> int \<Rightarrow> cpp_error + int" where
  "SystemCall attempt return_value errno errno_mask =
     (let return_value = to_int return_value
      in if return_value \<ge> 0 \<or> errno = errno_mask then Inr return_value
         else Inl (UnixError attempt errno))"

text \<open>
  What an exception says: a \<open>tagged_error\<close> gives the attempt and the message of its category for the code,
  the other exceptions the text they were made with. The messages of the system and of the resolver,
  strerror(3) and gai_strerror(3), are parameters.
\<close>

definition tagged_error_what :: "(int \<Rightarrow> string) \<Rightarrow> string \<Rightarrow> int \<Rightarrow> string" where
  "tagged_error_what message attempt error_code = attempt @ '': '' @ message error_code"

fun exception_what :: "(int \<Rightarrow> string) \<Rightarrow> (int \<Rightarrow> string) \<Rightarrow> cpp_error \<Rightarrow> string" where
  "exception_what strerror gai_strerror (UnixError attempt code) = tagged_error_what strerror attempt code"
| "exception_what strerror gai_strerror (GaiError attempt code) = tagged_error_what gai_strerror attempt code"
| "exception_what strerror gai_strerror (OutOfRange s) = s"
| "exception_what strerror gai_strerror (LengthError s) = s"
| "exception_what strerror gai_strerror (InvalidArgument s) = s"
| "exception_what strerror gai_strerror (RuntimeError s) = s"
| "exception_what strerror gai_strerror (UndefinedBehaviour s) = s"

lemma bindIO_simps [simp]:
  "bindIO (returnIO x) g = g x" "bindIO (throwIO e) g = throwIO e"
  "bindIO (liftE (Inr x)) g = g x" "bindIO (liftE (Inl e)) g = throwIO e"
  by (rule ext, simp add: bindIO_def returnIO_def throwIO_def liftE_def)+

lemma bindIO_eq:
  "bindIO f g m = (r, m') \<longleftrightarrow>
     (\<exists>e. f m = (Inl e, m') \<and> r = Inl e) \<or> (\<exists>x m1. f m = (Inr x, m1) \<and> g x m1 = (r, m'))"
  by (auto simp: bindIO_def split: prod.splits sum.splits)

lemmas io_defs = bindIO_def returnIO_def throwIO_def liftE_def modifyIO_def

lemma returnIO_eq [simp]: "returnIO x m = (r, m') \<longleftrightarrow> r = Inr x \<and> m' = m"
  by (auto simp: returnIO_def)

lemma throwIO_eq [simp]: "throwIO e m = (r, m') \<longleftrightarrow> r = Inl e \<and> m' = m"
  by (auto simp: throwIO_def)

lemma liftE_eq [simp]: "liftE v m = (r, m') \<longleftrightarrow> r = v \<and> m' = m"
  by (auto simp: liftE_def)

lemma modifyIO_eq [simp]: "modifyIO f m = (r, m') \<longleftrightarrow> r = Inr () \<and> m' = f m"
  by (auto simp: modifyIO_def)

lemma to_int_id [simp]: "- (2 ^ 31) \<le> v \<Longrightarrow> v < 2 ^ 31 \<Longrightarrow> to_int v = v"
  by (simp add: to_int_def signed_take_bit_int_eq_self_iff)

lemma to_int_range: "- (2 ^ 31) \<le> to_int v" "to_int v < 2 ^ 31"
  unfolding to_int_def using signed_take_bit_int_greater_eq_minus_exp [of 31 v] signed_take_bit_int_less_exp [of 31 v]
  by simp_all

text \<open>A call that succeeds with a value in the range of \<open>int\<close>, and one that fails.\<close>

lemma SystemCall_ok: "0 \<le> v \<Longrightarrow> v < 2 ^ 31 \<Longrightarrow> SystemCall attempt v e errno_mask = Inr v"
  by (simp add: SystemCall_def Let_def)

lemma SystemCall_failed: "e \<noteq> errno_mask \<Longrightarrow> SystemCall attempt (- 1) e errno_mask = Inl (UnixError attempt e)"
  by (simp add: SystemCall_def Let_def)

lemma SystemCall_Inr: "SystemCall attempt v e errno_mask = Inr x \<Longrightarrow> x = to_int v \<and> (0 \<le> x \<or> e = errno_mask)"
  by (simp add: SystemCall_def Let_def split: if_splits)

end
