(* ===== verification/Net_Address.thy ===== *)
theory Net_Address
  imports System_Calls
begin

unbundle bit_operations_syntax

text \<open>
  \<open>Address\<close> (libsponge/util/address.hh, address.cc): a \<open>sockaddr_storage\<close> of 128 bytes and the number of
  bytes in use, in the layout of Linux on x86-64: the family in the first two bytes, low byte first, and
  for IPv4 the port in the next two and the address in the four after them, high byte first. The name
  resolver, getaddrinfo(3) and getnameinfo(3), is a parameter.
\<close>

record Address =
  addr_size :: uint32_t
  addr_storage :: bytes

record addrinfo =
  ai_flags :: int
  ai_family :: int

definition AF_INET :: int where "AF_INET = 2"
definition AI_NUMERICHOST :: int where "AI_NUMERICHOST = 0x4"
definition AI_ALL :: int where "AI_ALL = 0x10"
definition AI_NUMERICSERV :: int where "AI_NUMERICSERV = 0x400"

definition STORAGE_SIZE :: nat where "STORAGE_SIZE = 128"
definition SOCKADDR_IN_SIZE :: nat where "SOCKADDR_IN_SIZE = 16"

type_synonym getaddrinfo = "string \<Rightarrow> string \<Rightarrow> addrinfo \<Rightarrow> int \<times> (bytes \<times> size_t) option"
type_synonym getnameinfo = "bytes \<Rightarrow> uint32_t \<Rightarrow> int \<times> string \<times> string"

text \<open>The string a C function sees: up to the first zero character.\<close>

definition c_str :: "string \<Rightarrow> string" where
  "c_str s = takeWhile (\<lambda>c. c \<noteq> CHR 0x00) s"

text \<open>\<open>std::stoi\<close>: white space, a sign, then digits; throws without a digit and beyond the range of \<open>int\<close>.\<close>

definition is_space :: "char \<Rightarrow> bool" where
  "is_space c \<longleftrightarrow> c \<in> set [CHR '' '', CHR 0x09, CHR 0x0A, CHR 0x0B, CHR 0x0C, CHR 0x0D]"

definition is_digit :: "char \<Rightarrow> bool" where
  "is_digit c \<longleftrightarrow> c \<in> set ''0123456789''"

definition stoi :: "string \<Rightarrow> cpp_error + int" where
  "stoi s =
     (let s = dropWhile is_space s;
          minus = (s \<noteq> [] \<and> hd s = CHR ''-'');
          s = (if s \<noteq> [] \<and> (hd s = CHR ''-'' \<or> hd s = CHR ''+'') then tl s else s);
          ds = takeWhile is_digit s;
          n = (if minus then - int (read_digits 10 ds) else int (read_digits 10 ds))
      in if ds = [] then Inl (InvalidArgument ''stoi'')
         else if n < - (2 ^ 31) \<or> 2 ^ 31 \<le> n then Inl (OutOfRange ''stoi'')
         else Inr n)"

text \<open>
  The constructor from a raw socket address. Copying more bytes than \<open>addr\<close> has is undefined behaviour.
\<close>

definition Address_of_raw :: "bytes \<Rightarrow> size_t \<Rightarrow> cpp_error + Address" where
  "Address_of_raw addr len =
     (if unat len > STORAGE_SIZE then Inl (RuntimeError ''invalid sockaddr size'')
      else if length addr < unat len then Inl (UndefinedBehaviour ''memcpy past the end of addr'')
      else Inr \<lparr>addr_size = ucast len, addr_storage = take (unat len) addr @ replicate (STORAGE_SIZE - unat len) 0\<rparr>)"

definition Address_resolve :: "getaddrinfo \<Rightarrow> string \<Rightarrow> string \<Rightarrow> addrinfo \<Rightarrow> cpp_error + Address" where
  "Address_resolve getaddrinfo node service hints =
     (let (gai_ret, resolved_address) = getaddrinfo (c_str node) (c_str service) hints
      in if gai_ret \<noteq> 0 then Inl (GaiError (''getaddrinfo('' @ node @ '', '' @ service @ '')'') gai_ret)
         else case resolved_address of
                None \<Rightarrow> Inl (RuntimeError ''getaddrinfo returned successfully but with no results'')
              | Some (ai_addr, ai_addrlen) \<Rightarrow> Address_of_raw ai_addr ai_addrlen)"

definition make_hints :: "int \<Rightarrow> int \<Rightarrow> addrinfo" where
  "make_hints flags family = \<lparr>ai_flags = flags, ai_family = family\<rparr>"

definition Address_named :: "getaddrinfo \<Rightarrow> string \<Rightarrow> string \<Rightarrow> cpp_error + Address" where
  "Address_named getaddrinfo hostname service =
     Address_resolve getaddrinfo hostname service (make_hints AI_ALL AF_INET)"

definition Address_numeric :: "getaddrinfo \<Rightarrow> string \<Rightarrow> uint16_t \<Rightarrow> cpp_error + Address" where
  "Address_numeric getaddrinfo ip_string port =
     Address_resolve getaddrinfo ip_string (to_string_nat (unat port))
       (make_hints (AI_NUMERICHOST OR AI_NUMERICSERV) AF_INET)"

definition ip_port :: "getnameinfo \<Rightarrow> Address \<Rightarrow> cpp_error + (string \<times> uint16_t)" where
  "ip_port getnameinfo a =
     (let (gni_ret, ip, port) = getnameinfo (addr_storage a) (addr_size a)
      in if gni_ret \<noteq> 0 then Inl (GaiError ''getnameinfo'' gni_ret)
         else bindE (stoi port) (\<lambda>p. Inr (ip, of_int p)))"

definition Address_ip :: "getnameinfo \<Rightarrow> Address \<Rightarrow> cpp_error + string" where
  "Address_ip getnameinfo a = bindE (ip_port getnameinfo a) (\<lambda>(ip, port). Inr ip)"

definition Address_port :: "getnameinfo \<Rightarrow> Address \<Rightarrow> cpp_error + uint16_t" where
  "Address_port getnameinfo a = bindE (ip_port getnameinfo a) (\<lambda>(ip, port). Inr port)"

definition Address_to_string :: "getnameinfo \<Rightarrow> Address \<Rightarrow> cpp_error + string" where
  "Address_to_string getnameinfo a =
     bindE (ip_port getnameinfo a) (\<lambda>(ip, port). Inr (ip @ '':'' @ to_string_nat (unat port)))"

definition ss_family :: "bytes \<Rightarrow> uint16_t" where
  "ss_family s = ucast (s ! 0) OR push_bit 8 (ucast (s ! 1))"

definition be32toh :: "byte \<Rightarrow> byte \<Rightarrow> byte \<Rightarrow> byte \<Rightarrow> uint32_t" where
  "be32toh a b c d = push_bit 24 (ucast a) OR push_bit 16 (ucast b) OR push_bit 8 (ucast c) OR ucast d"

definition ipv4_numeric :: "Address \<Rightarrow> cpp_error + uint32_t" where
  "ipv4_numeric a =
     (if ss_family (addr_storage a) \<noteq> of_int AF_INET \<or> unat (addr_size a) \<noteq> SOCKADDR_IN_SIZE
      then Inl (RuntimeError ''ipv4_numeric called on non-IPV4 address'')
      else let s = addr_storage a in Inr (be32toh (s ! 4) (s ! 5) (s ! 6) (s ! 7)))"

definition from_ipv4_numeric :: "uint32_t \<Rightarrow> cpp_error + Address" where
  "from_ipv4_numeric ip_address =
     (let family = [of_int AF_INET, 0]; port = [0, 0];
          ip = [ucast (drop_bit 24 ip_address), ucast (drop_bit 16 ip_address), ucast (drop_bit 8 ip_address), ucast ip_address]
      in Address_of_raw (family @ port @ ip @ replicate 8 0) (of_nat SOCKADDR_IN_SIZE))"

definition Address_eq :: "Address \<Rightarrow> Address \<Rightarrow> bool" where
  "Address_eq a b \<longleftrightarrow>
     (if addr_size a \<noteq> addr_size b then False
      else take (unat (addr_size a)) (addr_storage a) = take (unat (addr_size b)) (addr_storage b))"

definition Address_neq :: "Address \<Rightarrow> Address \<Rightarrow> bool" where
  "Address_neq a b \<longleftrightarrow> \<not> Address_eq a b"

lemma be32toh_bytes:
  "be32toh (ucast (drop_bit 24 w)) (ucast (drop_bit 16 w)) (ucast (drop_bit 8 w)) (ucast w) = w"
proof (rule bit_word_eqI)
  fix n
  assume "n < LENGTH(32)"
  then consider "n < 8" | "8 \<le> n" "n < 16" | "16 \<le> n" "n < 24" | "24 \<le> n" "n < 32" by fastforce
  then show "bit (be32toh (ucast (drop_bit 24 w)) (ucast (drop_bit 16 w)) (ucast (drop_bit 8 w)) (ucast w)) n = bit w n"
    unfolding be32toh_def by cases (auto simp: bit_simps)
qed

definition ipv4_bytes :: "uint32_t \<Rightarrow> bytes" where
  "ipv4_bytes ip = [ucast (drop_bit 24 ip), ucast (drop_bit 16 ip), ucast (drop_bit 8 ip), ucast ip]"

lemma from_ipv4_numeric_eq:
  "from_ipv4_numeric ip = Inr \<lparr>addr_size = 16, addr_storage = [2, 0, 0, 0] @ ipv4_bytes ip @ replicate 8 0 @ replicate 112 0\<rparr>"
  by (simp add: from_ipv4_numeric_def Address_of_raw_def STORAGE_SIZE_def SOCKADDR_IN_SIZE_def AF_INET_def ipv4_bytes_def Let_def)

lemma ipv4_bytes_inject: "ipv4_bytes x = ipv4_bytes y \<longleftrightarrow> x = y"
  unfolding ipv4_bytes_def by (metis be32toh_bytes list.inject)

lemma length_ipv4_bytes [simp]: "length (ipv4_bytes x) = 4"
  by (simp add: ipv4_bytes_def)

lemma digits10_chars: "c \<in> set (digits 10 n) \<Longrightarrow> is_digit c"
proof (induction "10 :: nat" n rule: digits.induct)
  case (1 n)
  have d: "is_digit (digit_char d)" if "d < 10" for d
  proof -
    have "\<forall>d \<in> set [0..<10]. is_digit (digit_char d)" by code_simp
    then show ?thesis using that by (simp del: upt_rec_numeral)
  qed
  then show ?case using 1 by (auto simp: digits.simps [of 10 n] split: if_splits)
qed

lemma takeWhile_all: "(\<And>c. c \<in> set s \<Longrightarrow> P c) \<Longrightarrow> takeWhile P s = s"
  by simp

text \<open>\<open>stoi\<close> reads back what \<open>to_string\<close> prints.\<close>

lemma stoi_to_string:
  assumes "n < 2 ^ 31"
  shows "stoi (to_string_nat n) = Inr (int n)"
proof -
  let ?s = "digits 10 n"
  have h: "is_digit (hd ?s)" using digits10_chars [of "hd ?s" n] by simp
  have table: "\<forall>c \<in> set ''0123456789''. \<not> is_space c \<and> c \<noteq> CHR ''-'' \<and> c \<noteq> CHR ''+''" by code_simp
  have "\<not> is_space (hd ?s) \<and> hd ?s \<noteq> CHR ''-'' \<and> hd ?s \<noteq> CHR ''+''"
    using bspec [OF table, of "hd ?s"] h unfolding is_digit_def by blast
  moreover from this have "dropWhile is_space ?s = ?s" by (cases ?s) auto
  moreover have t: "takeWhile is_digit ?s = ?s" by (rule takeWhile_all) (rule digits10_chars)
  ultimately show ?thesis
    using assms by (simp add: stoi_def to_string_nat_def Let_def read_digits_inverse t)
qed

subsection \<open>Properties\<close>

text \<open>
  (C34) A numeric IPv4 address survives the conversion to a socket address and back, and two such socket
  addresses compare equal exactly when the numbers are equal. Neither conversion throws.
\<close>
theorem ipv4_numeric_roundtrip:
  "\<exists>a b. from_ipv4_numeric x = Inr a \<and> ipv4_numeric a = Inr x \<and> from_ipv4_numeric y = Inr b \<and>
     (Address_eq a b \<longleftrightarrow> x = y)"
proof -
  let ?raw = "\<lambda>x. \<lparr>addr_size = 16, addr_storage = [2, 0, 0, 0] @ ipv4_bytes x @ replicate 8 0 @ replicate 112 0\<rparr>"
  have "ipv4_numeric (?raw x) = Inr x"
    by (simp add: ipv4_numeric_def Let_def ss_family_def AF_INET_def SOCKADDR_IN_SIZE_def ipv4_bytes_def be32toh_bytes)
  moreover have "Address_eq (?raw x) (?raw y) \<longleftrightarrow> x = y"
    by (simp add: Address_eq_def ipv4_bytes_inject)
  ultimately show ?thesis unfolding from_ipv4_numeric_eq by blast
qed

end
