(* ===== verification/Tcp_Config.thy ===== *)
theory Tcp_Config
  imports Tcp_Sender Net_Address
begin

text \<open>
  The configuration classes \<open>TCPConfig\<close> and \<open>FdAdapterConfig\<close> (libsponge/tcp_helpers/tcp_config.hh) with
  their default values; the constants of \<open>TCPConfig\<close> are in the theory of the sender.
\<close>

record TCPConfig =
  cfg_rt_timeout :: uint16_t
  cfg_recv_capacity :: size_t
  cfg_send_capacity :: size_t
  cfg_fixed_isn :: "WrappingInt32 option"

definition TCPConfig_new :: TCPConfig where
  "TCPConfig_new = \<lparr>cfg_rt_timeout = TIMEOUT_DFLT, cfg_recv_capacity = DEFAULT_CAPACITY, cfg_send_capacity = DEFAULT_CAPACITY, cfg_fixed_isn = None\<rparr>"

record FdAdapterConfig =
  config_source :: Address
  config_destination :: Address
  loss_rate_dn :: uint16_t
  loss_rate_up :: uint16_t

text \<open>The two addresses are resolved when the object is made, so that making it can throw.\<close>

definition FdAdapterConfig_new :: "getaddrinfo \<Rightarrow> cpp_error + FdAdapterConfig" where
  "FdAdapterConfig_new gai =
     bindE (Address_numeric gai ''0'' 0) (\<lambda>source.
     bindE (Address_numeric gai ''0'' 0) (\<lambda>destination.
     Inr \<lparr>config_source = source, config_destination = destination, loss_rate_dn = 0, loss_rate_up = 0\<rparr>))"

lemma FdAdapterConfig_new_ok:
  "Address_numeric gai ''0'' 0 = Inr a \<Longrightarrow>
   FdAdapterConfig_new gai = Inr \<lparr>config_source = a, config_destination = a, loss_rate_dn = 0, loss_rate_up = 0\<rparr>"
  by (simp add: FdAdapterConfig_new_def)

end
