(* ===== verification/Header_Text.thy ===== *)
theory Header_Text
  imports Tcp_Segment Text_Format
begin

text \<open>
  The text of a TCP header: \<open>operator<<\<close> of \<open>WrappingInt32\<close> (libsponge/wrapping_integers.hh),
  \<open>TCPHeader::to_string\<close> and \<open>TCPHeader::summary\<close> (libsponge/tcp_helpers/tcp_header.cc). The number base is
  the state of the stream the number is inserted into.
\<close>

definition wi_insert :: "nat \<Rightarrow> WrappingInt32 \<Rightarrow> string" where
  "wi_insert base n = digits base (unat (raw_value n))"

definition header_to_string :: "TCPHeader \<Rightarrow> string" where
  "header_to_string h =
     ''TCP source port: '' @ hex (unat (sport h)) @ ''\<newline>'' @
     ''TCP dest port: '' @ hex (unat (dport h)) @ ''\<newline>'' @
     ''TCP seqno: '' @ wi_insert 16 (seqno h) @ ''\<newline>'' @
     ''TCP ackno: '' @ wi_insert 16 (ackno h) @ ''\<newline>'' @
     ''TCP doff: '' @ hex (unat (doff h)) @ ''\<newline>'' @
     ''Flags: urg: '' @ boolalpha (urg_flag h) @ '' ack: '' @ boolalpha (ack_flag h) @ '' psh: '' @ boolalpha (psh_flag h) @
     '' rst: '' @ boolalpha (rst_flag h) @ '' syn: '' @ boolalpha (syn_flag h) @ '' fin: '' @ boolalpha (fin_flag h) @ ''\<newline>'' @
     ''TCP winsize: '' @ hex (unat (win h)) @ ''\<newline>'' @
     ''TCP cksum: '' @ hex (unat (cksum h)) @ ''\<newline>'' @
     ''TCP uptr: '' @ hex (unat (uptr h)) @ ''\<newline>''"

definition flags_text :: "TCPHeader \<Rightarrow> string" where
  "flags_text h = (if syn_flag h then ''S'' else []) @ (if ack_flag h then ''A'' else []) @
     (if rst_flag h then ''R'' else []) @ (if fin_flag h then ''F'' else [])"

definition header_summary :: "TCPHeader \<Rightarrow> string" where
  "header_summary h =
     ''Header(flags='' @ flags_text h @ '',seqno='' @ wi_insert 10 (seqno h) @ '',ack='' @ wi_insert 10 (ackno h) @ '',win='' @ to_string_nat (unat (win h)) @ '')''"

subsection \<open>Fields and separators\<close>

text \<open>A field is free of the character that ends it, and fields are one-to-one.\<close>

lemma digits_free: "1 < b \<Longrightarrow> b \<le> 16 \<Longrightarrow> c \<notin> set digit_chars \<Longrightarrow> c \<notin> set (digits b n)"
  using digits_set [of b n] by blast

lemma field_free [simp]:
  "CHR 0x0A \<notin> set (hex n)" "CHR 0x0A \<notin> set (wi_insert 16 w)" "CHR '','' \<notin> set (wi_insert 10 w)"
  "CHR '')'' \<notin> set (to_string_nat n)" "CHR 0x0A \<notin> set (boolalpha b)" "CHR '' '' \<notin> set (boolalpha b)"
  by (simp_all add: hex_def wi_insert_def to_string_nat_def digits_free digit_chars_def boolalpha_def)

lemma unat_eq [simp]: "unat a = unat b \<longleftrightarrow> a = b"
  by (rule word_unat_eq_iff [symmetric])

lemma number_inject [simp]: "hex m = hex n \<longleftrightarrow> m = n" "to_string_nat m = to_string_nat n \<longleftrightarrow> m = n"
  by (simp_all add: hex_def to_string_nat_def digits_inject)

lemma wi_insert_inject [simp]: "1 < b \<Longrightarrow> b \<le> 16 \<Longrightarrow> wi_insert b v = wi_insert b w \<longleftrightarrow> v = w"
  by (cases v; cases w) (simp add: wi_insert_def digits_inject)

lemma flags_text_set [simp]:
  "CHR ''S'' \<in> set (flags_text h) \<longleftrightarrow> syn_flag h" "CHR ''A'' \<in> set (flags_text h) \<longleftrightarrow> ack_flag h"
  "CHR ''R'' \<in> set (flags_text h) \<longleftrightarrow> rst_flag h" "CHR ''F'' \<in> set (flags_text h) \<longleftrightarrow> fin_flag h"
  "CHR '','' \<notin> set (flags_text h)"
  by (simp_all add: flags_text_def)

lemma flags_text_eq:
  "flags_text h = flags_text h' \<longleftrightarrow>
     syn_flag h = syn_flag h' \<and> ack_flag h = ack_flag h' \<and> rst_flag h = rst_flag h' \<and> fin_flag h = fin_flag h'"
proof
  assume "flags_text h = flags_text h'"
  from arg_cong [OF this, of set]
  show "syn_flag h = syn_flag h' \<and> ack_flag h = ack_flag h' \<and> rst_flag h = rst_flag h' \<and> fin_flag h = fin_flag h'"
    by (simp only: flags_text_set(1-4) [symmetric] simp_thms)
qed (simp add: flags_text_def)

subsection \<open>Properties\<close>

text \<open>
  (C39) \<open>to_string\<close> shows the whole header: two headers with the same text agree in every field, the ones
  that \<open>operator==\<close> leaves out included.
\<close>
theorem header_to_string_inject:
  "header_to_string h = header_to_string h' \<longleftrightarrow> h = h'"
proof
  assume "header_to_string h = header_to_string h'"
  then have "sport h = sport h' \<and> dport h = dport h' \<and> seqno h = seqno h' \<and> ackno h = ackno h' \<and> doff h = doff h' \<and>
      urg_flag h = urg_flag h' \<and> ack_flag h = ack_flag h' \<and> psh_flag h = psh_flag h' \<and> rst_flag h = rst_flag h' \<and>
      syn_flag h = syn_flag h' \<and> fin_flag h = fin_flag h' \<and> win h = win h' \<and> cksum h = cksum h' \<and> uptr h = uptr h'"
    by (simp add: header_to_string_def split_unique)
  then show "h = h'" by (intro TCPHeader.equality) simp_all
qed simp

text \<open>The four flags in the summary, in the order SARF, and the three numbers can be read off it.\<close>

theorem header_summary_eq:
  "header_summary h = header_summary h' \<longleftrightarrow>
     syn_flag h = syn_flag h' \<and> ack_flag h = ack_flag h' \<and> rst_flag h = rst_flag h' \<and> fin_flag h = fin_flag h' \<and>
     seqno h = seqno h' \<and> ackno h = ackno h' \<and> win h = win h'"
  by (simp add: header_summary_def split_unique flags_text_eq)

end
