(* ===== verification/File_Descriptor.thy ===== *)
theory File_Descriptor
  imports System_Calls Buffers
begin

unbundle bit_operations_syntax

text \<open>
  \<open>FileDescriptor\<close> (libsponge/util/file_descriptor.hh, file_descriptor.cc). Copies of a descriptor
  share one \<open>FDWrapper\<close> through a \<open>shared_ptr\<close>: the wrappers are kept in a store, with the use count
  of the pointer, and a descriptor is the address of its wrapper. The kernel is a parameter.
\<close>

record FDWrapper =
  fd_num :: int
  fd_eof :: bool
  fd_closed :: bool
  fd_read_count :: uint32_t
  fd_write_count :: uint32_t
  use_count :: nat

type_synonym FileDescriptor = nat

record 'k machine =
  wrappers :: "FDWrapper list"
  kernel :: 'k

record 'k fd_calls =
  sys_close :: "int \<Rightarrow> ('k, unit) syscall"
  sys_read :: "int \<Rightarrow> size_t \<Rightarrow> ('k, bytes) syscall"
  sys_writev :: "int \<Rightarrow> (bytes \<times> size_t) list \<Rightarrow> ('k, unit) syscall"
  sys_getfl :: "int \<Rightarrow> ('k, unit) syscall"
  sys_setfl :: "int \<Rightarrow> int \<Rightarrow> ('k, unit) syscall"

abbreviation wrapper :: "FileDescriptor \<Rightarrow> 'k machine \<Rightarrow> FDWrapper" where
  "wrapper a m \<equiv> wrappers m ! a"

definition on_wrapper :: "FileDescriptor \<Rightarrow> (FDWrapper \<Rightarrow> FDWrapper) \<Rightarrow> 'k machine \<Rightarrow> 'k machine" where
  "on_wrapper a f m = m\<lparr>wrappers := (wrappers m)[a := f (wrapper a m)]\<rparr>"

text \<open>\<open>SystemCall(attempt, call)\<close>: runs the call and throws if it failed.\<close>

definition checked :: "string \<Rightarrow> ('k, 'a) syscall \<Rightarrow> ('k machine, int \<times> 'a) io" where
  "checked attempt call m =
     (let ((return_value, errno, data), k) = call (kernel m)
      in bindIO (liftE (SystemCall attempt return_value errno 0)) (\<lambda>r. returnIO (r, data)) (m\<lparr>kernel := k\<rparr>))"

definition FDWrapper_new :: "int \<Rightarrow> ('k machine, FileDescriptor) io" where
  "FDWrapper_new fd m =
     (if fd < 0 then throwIO (RuntimeError (''invalid fd number:'' @ to_string_int fd)) m
      else returnIO (length (wrappers m))
        (m\<lparr>wrappers := wrappers m @ [\<lparr>fd_num = fd, fd_eof = False, fd_closed = False, fd_read_count = 0,
             fd_write_count = 0, use_count = 1\<rparr>]\<rparr>))"

definition FileDescriptor_close :: "'k fd_calls \<Rightarrow> FileDescriptor \<Rightarrow> ('k machine, unit) io" where
  "FileDescriptor_close K a m =
     bindIO (checked ''close'' (sys_close K (fd_num (wrapper a m)))) (\<lambda>_.
       modifyIO (on_wrapper a (\<lambda>w. w\<lparr>fd_eof := True, fd_closed := True\<rparr>))) m"

text \<open>The destructor of the wrapper swallows the exception of \<open>close\<close>; its message is left out.\<close>

definition FDWrapper_destroy :: "'k fd_calls \<Rightarrow> FileDescriptor \<Rightarrow> 'k machine \<Rightarrow> 'k machine" where
  "FDWrapper_destroy K a m =
     (if fd_closed (wrapper a m) then m else snd (FileDescriptor_close K a m))"

definition FileDescriptor_new :: "int \<Rightarrow> ('k machine, FileDescriptor) io" where
  "FileDescriptor_new fd = FDWrapper_new fd"

definition FileDescriptor_duplicate :: "FileDescriptor \<Rightarrow> 'k machine \<Rightarrow> 'k machine" where
  "FileDescriptor_duplicate a = on_wrapper a (\<lambda>w. w\<lparr>use_count := use_count w + 1\<rparr>)"

text \<open>The default destructor of a descriptor: the last one destroys the wrapper.\<close>

definition FileDescriptor_release :: "'k fd_calls \<Rightarrow> FileDescriptor \<Rightarrow> 'k machine \<Rightarrow> 'k machine" where
  "FileDescriptor_release K a m =
     (let m = on_wrapper a (\<lambda>w. w\<lparr>use_count := use_count w - 1\<rparr>) m
      in if use_count (wrapper a m) = 0 then FDWrapper_destroy K a m else m)"

definition register_read :: "FileDescriptor \<Rightarrow> 'k machine \<Rightarrow> 'k machine" where
  "register_read a = on_wrapper a (\<lambda>w. w\<lparr>fd_read_count := fd_read_count w + 1\<rparr>)"

definition register_write :: "FileDescriptor \<Rightarrow> 'k machine \<Rightarrow> 'k machine" where
  "register_write a = on_wrapper a (\<lambda>w. w\<lparr>fd_write_count := fd_write_count w + 1\<rparr>)"

text \<open>
  \<open>read(str, limit)\<close>. The kernel overwrites the first bytes of the resized string. A negative count
  that passes \<open>SystemCall\<close> is converted to a huge \<open>size_t\<close>, which \<open>resize\<close> refuses.
\<close>

definition BUFFER_SIZE :: size_t where
  "BUFFER_SIZE = 1024 * 1024"

definition FileDescriptor_read_into ::
  "'k fd_calls \<Rightarrow> FileDescriptor \<Rightarrow> bytes \<Rightarrow> size_t \<Rightarrow> ('k machine, bytes) io" where
  "FileDescriptor_read_into K a str limit m =
     (let size_to_read = min BUFFER_SIZE limit;
          str = resize (unat size_to_read) str
      in bindIO (checked ''read'' (sys_read K (fd_num (wrapper a m)) size_to_read)) (\<lambda>(bytes_read, data).
         bindIO (modifyIO (if limit > 0 \<and> bytes_read = 0 then on_wrapper a (\<lambda>w. w\<lparr>fd_eof := True\<rparr>) else id)) (\<lambda>_.
         if bytes_read > uint size_to_read then throwIO (RuntimeError ''read() read more than requested'')
         else if bytes_read < 0 then throwIO (LengthError ''basic_string::_M_replace_aux'')
         else bindIO (modifyIO (register_read a)) (\<lambda>_.
              returnIO (resize (nat bytes_read) (data @ drop (length data) str))))) m)"

definition FileDescriptor_read :: "'k fd_calls \<Rightarrow> FileDescriptor \<Rightarrow> size_t \<Rightarrow> ('k machine, bytes) io" where
  "FileDescriptor_read K a limit = FileDescriptor_read_into K a [] limit"

text \<open>One iteration of the loop of \<open>write\<close>.\<close>

definition fd_write_once ::
  "'k fd_calls \<Rightarrow> FileDescriptor \<Rightarrow> BufferViewList \<Rightarrow> size_t \<Rightarrow> ('k machine, BufferViewList \<times> size_t) io" where
  "fd_write_once K a buffer written m =
     bindIO (checked ''writev'' (sys_writev K (fd_num (wrapper a m)) (bvl_as_iovecs buffer))) (\<lambda>(bytes_written, _).
       if bytes_written = 0 \<and> bvl_size buffer \<noteq> 0
       then throwIO (RuntimeError ''write returned 0 given non-empty input buffer'')
       else if bytes_written > sint (bvl_size buffer)
       then throwIO (RuntimeError ''write wrote more than length of input buffer'')
       else bindIO (modifyIO (register_write a)) (\<lambda>_.
            bindIO (liftE (bvl_remove_prefix (of_int bytes_written) buffer)) (\<lambda>buffer.
            returnIO (buffer, written + of_int bytes_written)))) m"

lemma checked_eq:
  "call (kernel m) = ((v, e, x), k) \<Longrightarrow>
     checked attempt call m = (map_sum id (\<lambda>r. (r, x)) (SystemCall attempt v e 0), m\<lparr>kernel := k\<rparr>)"
  by (cases "SystemCall attempt v e 0") (simp_all add: checked_def io_defs)

lemma checked_Inr:
  "checked attempt call m = (Inr (n, x), m') \<Longrightarrow>
     \<exists>v e k. call (kernel m) = ((v, e, x), k) \<and> m' = m\<lparr>kernel := k\<rparr> \<and> n = to_int v \<and> (0 \<le> n \<or> e = 0)"
  by (auto simp: checked_def bindIO_eq split: prod.splits dest!: sym [of "Inr _"] SystemCall_Inr)

lemma checked_Inl:
  "checked attempt call m = (Inl er, m') \<Longrightarrow>
     \<exists>v e x k. call (kernel m) = ((v, e, x), k) \<and> m' = m\<lparr>kernel := k\<rparr> \<and> er = UnixError attempt e \<and> to_int v < 0"
  by (auto simp: checked_def bindIO_eq SystemCall_def Let_def split: prod.splits if_splits)

lemma checked_kernel:
  "checked attempt call m = (r, m') \<Longrightarrow> kernel m' = snd (call (kernel m)) \<and> wrappers m' = wrappers m"
  by (cases "call (kernel m)") (auto simp: checked_def bindIO_eq split: prod.splits)

lemmas checked_wrappers = conjunct2 [OF checked_kernel]

lemma bvl_remove_loop_shrinks:
  "bvl_remove_loop n vs = Inr vs' \<Longrightarrow>
     csize (concat vs') = csize (concat vs) - n \<and> length (concat vs') \<le> length (concat vs) \<and>
     (0 < n \<longrightarrow> length (concat vs') < length (concat vs))"
proof (induction n vs rule: bvl_remove_loop.induct)
  case (2 n v vs)
  consider "n = 0" | "0 < n" "n < csize v" | "0 < n" "\<not> n < csize v" by (auto simp: word_gt_0)
  then show ?case
  proof cases
    case 2
    then have n: "0 < unat n" "unat n < unat (csize v)" by (simp_all add: word_less_nat_alt)
    have le: "unat (csize v) \<le> length v" by (simp add: unat_csize_le)
    have "csize (drop (unat n) v) = csize v - n"
      using n le by (simp add: csize_def of_nat_diff)
    then show ?thesis using 2 n le \<open>bvl_remove_loop n (v # vs) = Inr vs'\<close> by (auto simp: csize_append)
  next
    case 3
    then have "0 < csize v \<or> 0 < n - csize v" by (auto simp: word_gt_0)
    then have "length (concat vs') < length (concat (v # vs))"
      using "2.IH" [OF 3] "2.prems" 3 by (cases v) auto
    then show ?thesis using "2.IH" [OF 3] "2.prems" 3 by (simp add: csize_append)
  qed (use "2.prems" in simp)
qed (auto split: if_splits simp: word_gt_0)

lemma of_int_nonzero: "- (2 ^ 31) \<le> v \<Longrightarrow> v < 2 ^ 31 \<Longrightarrow> v \<noteq> 0 \<Longrightarrow> (of_int v :: size_t) \<noteq> 0"
proof
  assume v: "- (2 ^ 31) \<le> v" "v < 2 ^ 31" "v \<noteq> 0" and "(of_int v :: size_t) = 0"
  then have "2 ^ 64 dvd v" by (simp add: word_of_int_eq_0_iff)
  then show False using v zdvd_imp_le [of "2 ^ 64" v] zdvd_imp_le [of "2 ^ 64" "- v"] by (cases "0 < v") auto
qed

text \<open>What an iteration that does not throw has done.\<close>

lemma fd_write_once_Inr:
  assumes "fd_write_once K a buffer written m = (Inr (buffer', written'), m')"
  shows "\<exists>n k. checked ''writev'' (sys_writev K (fd_num (wrapper a m)) (bvl_as_iovecs buffer)) m = (Inr (n, ()), m\<lparr>kernel := k\<rparr>) \<and>
    (n = 0 \<longrightarrow> bvl_size buffer = 0) \<and> n \<le> sint (bvl_size buffer) \<and> - (2 ^ 31) \<le> n \<and> n < 2 ^ 31 \<and>
    bvl_remove_prefix (of_int n) buffer = Inr buffer' \<and> written' = written + of_int n \<and>
    m' = register_write a (m\<lparr>kernel := k\<rparr>)"
proof -
  obtain n m1 where c: "checked ''writev'' (sys_writev K (fd_num (wrapper a m)) (bvl_as_iovecs buffer)) m = (Inr (n, ()), m1)"
    and rest: "(n = 0 \<longrightarrow> bvl_size buffer = 0)" "n \<le> sint (bvl_size buffer)"
      "bvl_remove_prefix (of_int n) buffer = Inr buffer'" "written' = written + of_int n" "m' = register_write a m1"
    using assms by (auto simp: fd_write_once_def bindIO_eq split: if_splits)
  obtain k v where "m1 = m\<lparr>kernel := k\<rparr>" "n = to_int v" using checked_Inr [OF c] by blast
  then show ?thesis using c rest to_int_range [of v] by auto
qed

lemma fd_write_once_shrinks:
  assumes "fd_write_once K a buffer written m = (Inr (buffer', written'), m')" and "bvl_size buffer' \<noteq> 0"
  shows "length (concat (views buffer')) < length (concat (views buffer))"
proof -
  obtain n where n: "n = 0 \<longrightarrow> bvl_size buffer = 0" "- (2 ^ 31) \<le> n" "n < 2 ^ 31"
      "bvl_remove_prefix (of_int n) buffer = Inr buffer'"
    using fd_write_once_Inr [OF assms(1)] by blast
  then have rm: "bvl_remove_loop (of_int n) (views buffer) = Inr (views buffer')"
    by (auto simp: bvl_remove_prefix_def bindE_eq_Inr)
  have "n \<noteq> 0" using bvl_remove_loop_shrinks [OF rm] n(1) assms(2) by (auto simp: bvl_size_def view_size_loop_eq)
  then show ?thesis using bvl_remove_loop_shrinks [OF rm] of_int_nonzero [OF n(2,3)] by (simp add: word_gt_0)
qed

function fd_write_loop ::
  "'k fd_calls \<Rightarrow> FileDescriptor \<Rightarrow> bool \<Rightarrow> BufferViewList \<Rightarrow> size_t \<Rightarrow> ('k machine, size_t) io" where
  "fd_write_loop K a write_all buffer written m =
     (case fd_write_once K a buffer written m of
        (Inl e, m) \<Rightarrow> (Inl e, m)
      | (Inr (buffer, written), m) \<Rightarrow>
          if write_all \<and> bvl_size buffer \<noteq> 0 then fd_write_loop K a write_all buffer written m else (Inr written, m))"
  by pat_completeness auto
termination
  by (relation "measure (\<lambda>(K, a, all, buffer, written, m). length (concat (views buffer)))")
    (auto dest: fd_write_once_shrinks [OF sym])

declare fd_write_loop.simps [simp del]

definition FileDescriptor_write ::
  "'k fd_calls \<Rightarrow> FileDescriptor \<Rightarrow> BufferViewList \<Rightarrow> bool \<Rightarrow> ('k machine, size_t) io" where
  "FileDescriptor_write K a buffer write_all = fd_write_loop K a write_all buffer 0"

definition FileDescriptor_write_string ::
  "'k fd_calls \<Rightarrow> FileDescriptor \<Rightarrow> bytes \<Rightarrow> bool \<Rightarrow> ('k machine, size_t) io" where
  "FileDescriptor_write_string K a str write_all = FileDescriptor_write K a (BufferViewList_of_string str) write_all"

definition O_NONBLOCK :: uint32_t where
  "O_NONBLOCK = 2048"

definition blocking_flags :: "bool \<Rightarrow> uint32_t \<Rightarrow> uint32_t" where
  "blocking_flags blocking_state flags =
     (if blocking_state then flags XOR (flags AND O_NONBLOCK) else flags OR O_NONBLOCK)"

definition set_blocking :: "'k fd_calls \<Rightarrow> FileDescriptor \<Rightarrow> bool \<Rightarrow> ('k machine, unit) io" where
  "set_blocking K a blocking_state m =
     bindIO (checked ''fcntl'' (sys_getfl K (fd_num (wrapper a m)))) (\<lambda>(flags, _).
     bindIO (checked ''fcntl'' (sys_setfl K (fd_num (wrapper a m)) (sint (blocking_flags blocking_state (of_int flags))))) (\<lambda>_.
     returnIO ())) m"

subsection \<open>The store\<close>

lemma wrappers_on [simp]:
  "wrappers (on_wrapper a f m) = (wrappers m)[a := f (wrapper a m)]" "kernel (on_wrapper a f m) = kernel m"
  by (simp_all add: on_wrapper_def)

lemma counts_simps [simp]:
  "kernel (register_write a m) = kernel m" "kernel (register_read a m) = kernel m"
  "wrappers (register_write a m) = (wrappers m)[a := (wrapper a m)\<lparr>fd_write_count := fd_write_count (wrapper a m) + 1\<rparr>]"
  "wrappers (register_read a m) = (wrappers m)[a := (wrapper a m)\<lparr>fd_read_count := fd_read_count (wrapper a m) + 1\<rparr>]"
  by (simp_all add: register_write_def register_read_def)

subsection \<open>The behaviour of the kernel\<close>

text \<open>
  What writev(2) and read(2) document, for a history of the bytes accepted on each descriptor and for
  the bytes still to come from it. A call fails with -1 and an error number and transfers nothing, or
  transfers as many bytes as it returns, at most 0x7ffff000 of them. Reading 0 bytes means the end.
\<close>

definition writev_law :: "'k fd_calls \<Rightarrow> ('k \<Rightarrow> int \<Rightarrow> bytes) \<Rightarrow> bool" where
  "writev_law K sent \<longleftrightarrow> (\<forall>fd iov k r e u k'. sys_writev K fd iov k = ((r, e, u), k') \<longrightarrow>
     (if r < 0 then r = - 1 \<and> e \<noteq> 0 \<and> sent k' = sent k
      else r \<le> 0x7ffff000 \<and> nat r \<le> length (concat (map fst iov)) \<and>
           sent k' = (sent k)(fd := sent k fd @ take (nat r) (concat (map fst iov)))))"

definition read_law :: "'k fd_calls \<Rightarrow> ('k \<Rightarrow> int \<Rightarrow> bytes) \<Rightarrow> bool" where
  "read_law K incoming \<longleftrightarrow> (\<forall>fd n k r e data k'. sys_read K fd n k = ((r, e, data), k') \<longrightarrow>
     (if r < 0 then r = - 1 \<and> e \<noteq> 0 \<and> incoming k' = incoming k
      else r \<le> 0x7ffff000 \<and> r \<le> uint n \<and> length data = nat r \<and>
           incoming k = (incoming k')(fd := data @ incoming k' fd) \<and>
           (r = 0 \<and> n \<noteq> 0 \<longrightarrow> incoming k fd = [])))"

subsection \<open>Writing\<close>

lemma sint_small:
  assumes "unat (w :: size_t) < 2 ^ 63"
  shows "sint w = int (unat w)"
proof -
  have "int (unat w) < int (2 ^ 63)" using assms by (rule of_nat_less_iff [THEN iffD2])
  then have "uint w < 2 ^ 63" by simp
  then have "signed_take_bit 63 (uint w) = uint w" by (intro signed_take_bit_int_eq_self order_trans [OF _ uint_ge_0]) simp_all
  moreover have "sint w = signed_take_bit 63 (uint w)" by (simp only: sint_uint) simp
  ultimately show ?thesis by simp
qed

lemma unat_of_int:
  assumes "0 \<le> v" and "v < 2 ^ 64"
  shows "unat (of_int v :: size_t) = nat v"
proof -
  obtain n where "v = int n" using assms(1) nonneg_int_cases by blast
  then show ?thesis using assms(2) by (simp add: unat_of_nat)
qed

text \<open>The law of \<open>writev\<close>, for the call as \<open>write\<close> makes it.\<close>

lemma writev_checked:
  assumes law: "writev_law K sent"
    and run: "checked ''writev'' (sys_writev K fd (bvl_as_iovecs buffer)) m = (res, m')"
  shows "wrappers m' = wrappers m"
    and "res = Inl e \<Longrightarrow> (\<exists>errno. e = UnixError ''writev'' errno) \<and> sent (kernel m') = sent (kernel m)"
    and "res = Inr (n, u) \<Longrightarrow> 0 \<le> n \<and> n < 2 ^ 31 \<and> nat n \<le> length (bvl_str buffer) \<and>
      sent (kernel m') = (sent (kernel m))(fd := sent (kernel m) fd @ take (nat n) (bvl_str buffer))"
proof -
  have iov: "concat (map fst (bvl_as_iovecs buffer)) = bvl_str buffer"
    by (simp add: bvl_as_iovecs_def bvl_str_def comp_def)
  obtain v er x k where call: "sys_writev K fd (bvl_as_iovecs buffer) (kernel m) = ((v, er, x), k)"
    by (metis prod.exhaust)
  then have m': "m' = m\<lparr>kernel := k\<rparr>" and res: "res = map_sum id (\<lambda>r. (r, x)) (SystemCall ''writev'' v er 0)"
    using run checked_eq [of "sys_writev K fd (bvl_as_iovecs buffer)", OF call] by auto
  show "wrappers m' = wrappers m" by (simp add: m')
  note l = law [unfolded writev_law_def, rule_format, OF call, unfolded iov]
  have "SystemCall ''writev'' v er 0 = (if v < 0 then Inl (UnixError ''writev'' er) else Inr v)"
    using l by (auto simp: SystemCall_def Let_def split: if_splits)
  then show "res = Inl e \<Longrightarrow> (\<exists>errno. e = UnixError ''writev'' errno) \<and> sent (kernel m') = sent (kernel m)"
    "res = Inr (n, u) \<Longrightarrow> 0 \<le> n \<and> n < 2 ^ 31 \<and> nat n \<le> length (bvl_str buffer) \<and>
      sent (kernel m') = (sent (kernel m))(fd := sent (kernel m) fd @ take (nat n) (bvl_str buffer))"
    using l m' res by (auto split: if_splits)
qed

lemma writev_once_law:
  assumes law: "writev_law K sent" and len: "length (bvl_str buffer) < 2 ^ 63"
    and once: "fd_write_once K a buffer written m = (res, m')" and a: "a < length (wrappers m)"
  defines "fd \<equiv> fd_num (wrapper a m)"
  shows "\<exists>n \<le> length (bvl_str buffer).
    sent (kernel m') = (sent (kernel m))(fd := sent (kernel m) fd @ take n (bvl_str buffer)) \<and>
    (case res of
       Inl e \<Rightarrow> n = 0 \<and> ((\<exists>errno. e = UnixError ''writev'' errno) \<or> e = RuntimeError ''write returned 0 given non-empty input buffer'')
     | Inr (buffer', written') \<Rightarrow> written' = written + of_nat n \<and> bvl_str buffer' = drop n (bvl_str buffer)) \<and>
    fd_num (wrapper a m') = fd \<and> length (wrappers m') = length (wrappers m)"
proof -
  have ok: "bvl_ok buffer" using len by (simp add: bvl_ok_def bvl_str_def)
  have size: "unat (bvl_size buffer) = length (bvl_str buffer)" by (rule viewv.size_law [OF ok])
  then have sz: "sint (bvl_size buffer) = int (length (bvl_str buffer))" using len sint_small [of "bvl_size buffer"] by simp
  obtain r1 m1 where c: "checked ''writev'' (sys_writev K fd (bvl_as_iovecs buffer)) m = (r1, m1)"
    by (cases "checked ''writev'' (sys_writev K fd (bvl_as_iovecs buffer)) m")
  note w = writev_checked [OF law c]
  show ?thesis
  proof (cases r1)
    case (Inl e)
    then have "res = Inl e \<and> m' = m1" using once c by (simp add: fd_write_once_def fd_def io_defs)
    then show ?thesis using w(1) w(2) [OF Inl] by (intro exI [of _ 0]) (auto simp: fd_def)
  next
    case (Inr p)
    obtain n where p: "r1 = Inr (n, ())" using Inr by (cases p) auto
    note w3 = w(3) [OF p]
    obtain b' where b': "bvl_remove_prefix (of_int n) buffer = Inr b'" "bvl_str b' = drop (nat n) (bvl_str buffer)"
      using viewv.remove_law [OF ok, of "of_int n"] w3 unat_of_int [of n] by auto
    show ?thesis
    proof (cases "n = 0 \<and> bvl_size buffer \<noteq> 0")
      case True
      then have "res = Inl (RuntimeError ''write returned 0 given non-empty input buffer'') \<and> m' = m1"
        using once c p by (simp add: fd_write_once_def fd_def io_defs)
      then show ?thesis using w(1) w3 True by (intro exI [of _ 0]) (auto simp: fd_def)
    next
      case False
      have "\<not> n > sint (bvl_size buffer)" using w3 sz by (simp add: nat_le_iff)
      then have "res = Inr (b', written + of_int n) \<and> m' = register_write a m1"
        using once c p b'(1) False by (auto simp: fd_write_once_def fd_def io_defs)
      then show ?thesis using w(1) w3 b'(2) a by (intro exI [of _ "nat n"]) (auto simp: fd_def)
    qed
  qed
qed

lemma writev_loop_law:
  "fd_write_loop K a write_all buffer written m = (res, m') \<Longrightarrow> writev_law K sent \<Longrightarrow>
   length (bvl_str buffer) < 2 ^ 63 \<Longrightarrow> a < length (wrappers m) \<Longrightarrow>
   \<exists>n \<le> length (bvl_str buffer).
     sent (kernel m') = (sent (kernel m))(fd_num (wrapper a m) :=
       sent (kernel m) (fd_num (wrapper a m)) @ take n (bvl_str buffer)) \<and>
     (case res of
        Inl e \<Rightarrow> (\<exists>errno. e = UnixError ''writev'' errno) \<or> e = RuntimeError ''write returned 0 given non-empty input buffer''
      | Inr t \<Rightarrow> t = written + of_nat n \<and> (write_all \<longrightarrow> n = length (bvl_str buffer)))"
proof (induction K a write_all buffer written m arbitrary: m' rule: fd_write_loop.induct)
  case (1 K a write_all buffer written m)
  let ?fd = "fd_num (wrapper a m)" and ?b = "bvl_str buffer"
  obtain r1 m1 where once: "fd_write_once K a buffer written m = (r1, m1)"
    by (cases "fd_write_once K a buffer written m")
  obtain n where n: "n \<le> length ?b" "sent (kernel m1) = (sent (kernel m))(?fd := sent (kernel m) ?fd @ take n ?b)"
    and r1: "case r1 of
       Inl e \<Rightarrow> n = 0 \<and> ((\<exists>errno. e = UnixError ''writev'' errno) \<or> e = RuntimeError ''write returned 0 given non-empty input buffer'')
     | Inr (buffer', written') \<Rightarrow> written' = written + of_nat n \<and> bvl_str buffer' = drop n ?b"
    and same: "fd_num (wrapper a m1) = ?fd" "length (wrappers m1) = length (wrappers m)"
    using writev_once_law [OF 1(3,4) once 1(5)] by blast
  show ?case
  proof (cases r1)
    case (Inl e)
    then have "res = Inl e" "m' = m1" using 1(2) once by (simp_all add: fd_write_loop.simps [of K a write_all buffer written m])
    then show ?thesis using n r1 Inl by (intro exI [of _ n]) auto
  next
    case (Inr p)
    obtain b' w' where p: "r1 = Inr (b', w')" using Inr by (cases p) auto
    have b': "w' = written + of_nat n" "bvl_str b' = drop n ?b" using r1 p by simp_all
    have "bvl_ok b'" using b'(2) 1(4) by (simp add: bvl_ok_def bvl_str_def)
    then have size: "bvl_size b' \<noteq> 0 \<longleftrightarrow> n < length ?b"
      using viewv.size_law [of b'] b'(2) by (metis diff_is_0_eq length_drop not_less unat_eq_0)
    show ?thesis
    proof (cases "write_all \<and> bvl_size b' \<noteq> 0")
      case True
      then have run: "fd_write_loop K a write_all b' w' m1 = (res, m')"
        using 1(2) [unfolded fd_write_loop.simps [of K a write_all buffer written m]] once p by simp
      have "length (bvl_str b') < 2 ^ 63" "a < length (wrappers m1)" using b'(2) 1(4,5) same by simp_all
      then obtain n' where n': "n' \<le> length (bvl_str b')"
          "sent (kernel m') = (sent (kernel m1))(?fd := sent (kernel m1) ?fd @ take n' (bvl_str b'))"
          "case res of
             Inl e \<Rightarrow> (\<exists>errno. e = UnixError ''writev'' errno) \<or> e = RuntimeError ''write returned 0 given non-empty input buffer''
           | Inr t \<Rightarrow> t = w' + of_nat n' \<and> (write_all \<longrightarrow> n' = length (bvl_str b'))"
        using 1(1) [OF once [symmetric] p refl True run 1(3)] unfolding same(1) by blast
      then show ?thesis
        using n b' by (intro exI [of _ "n + n'"]) (auto simp: take_add add.assoc split: sum.splits)
    next
      case False
      then have "res = Inr w'" "m' = m1"
        using 1(2) once p by (auto simp: fd_write_loop.simps [of K a write_all buffer written m])
      then show ?thesis using n b' False size by (intro exI [of _ n]) auto
    qed
  qed
qed

text \<open>The iterations of \<open>write\<close>, counted by \<open>register_write\<close>, for any behaviour of the kernel.\<close>

lemma fd_write_once_count:
  assumes "fd_write_once K a buffer written m = (res, m')" and "a < length (wrappers m)"
  shows "\<exists>j \<le> 1. wrappers m' = (wrappers m)[a := (wrapper a m)\<lparr>fd_write_count := fd_write_count (wrapper a m) + of_nat j\<rparr>] \<and>
    ((\<exists>p. res = Inr p) \<longrightarrow> j = 1)"
proof -
  obtain r1 m1 where c: "checked ''writev'' (sys_writev K (fd_num (wrapper a m)) (bvl_as_iovecs buffer)) m = (r1, m1)"
    by (cases "checked ''writev'' (sys_writev K (fd_num (wrapper a m)) (bvl_as_iovecs buffer)) m")
  then have same: "wrappers m1 = wrappers m" by (cases r1) (auto dest: checked_Inl checked_Inr)
  show ?thesis
  proof (cases "m' = m1 \<and> (\<exists>e. res = Inl e)")
    case True
    then show ?thesis using same by (intro exI [of _ 0]) auto
  next
    case False
    then have "m' = register_write a m1"
      using assms(1) c by (auto simp: fd_write_once_def bindIO_eq split: if_splits)
    then show ?thesis using same by (intro exI [of _ 1]) simp
  qed
qed

lemma fd_write_loop_count:
  "fd_write_loop K a write_all buffer written m = (res, m') \<Longrightarrow> a < length (wrappers m) \<Longrightarrow>
   \<exists>j \<le> max 1 (length (bvl_str buffer)).
     wrappers m' = (wrappers m)[a := (wrapper a m)\<lparr>fd_write_count := fd_write_count (wrapper a m) + of_nat j\<rparr>] \<and>
     ((\<exists>t. res = Inr t) \<longrightarrow> 1 \<le> j)"
proof (induction K a write_all buffer written m arbitrary: m' rule: fd_write_loop.induct)
  case (1 K a write_all buffer written m)
  obtain r1 m1 where once: "fd_write_once K a buffer written m = (r1, m1)"
    by (cases "fd_write_once K a buffer written m")
  obtain j where j: "j \<le> 1" "(\<exists>p. r1 = Inr p) \<longrightarrow> j = 1"
      "wrappers m1 = (wrappers m)[a := (wrapper a m)\<lparr>fd_write_count := fd_write_count (wrapper a m) + of_nat j\<rparr>]"
    using fd_write_once_count [OF once 1(3)] by blast
  note run = 1(2) [unfolded fd_write_loop.simps [of K a write_all buffer written m]]
  show ?case
  proof (cases "\<exists>b' w'. r1 = Inr (b', w') \<and> write_all \<and> bvl_size b' \<noteq> 0")
    case True
    then obtain b' w' where p: "r1 = Inr (b', w')" and more: "write_all \<and> bvl_size b' \<noteq> 0" by blast
    have "fd_write_loop K a write_all b' w' m1 = (res, m')" using run once p more by simp
    then obtain j' where j': "j' \<le> max 1 (length (bvl_str b'))" "(\<exists>t. res = Inr t) \<longrightarrow> 1 \<le> j'"
        "wrappers m' = (wrappers m1)[a := (wrapper a m1)\<lparr>fd_write_count := fd_write_count (wrapper a m1) + of_nat j'\<rparr>]"
      using 1(1) [OF once [symmetric] p refl more] j(3) 1(3) by auto
    have "bvl_size b' = csize (bvl_str b')" by (simp add: bvl_str_def bvl_size_def view_size_loop_eq)
    then have "0 < length (bvl_str b')" using more by auto
    moreover have "length (bvl_str b') < length (bvl_str buffer)"
      using fd_write_once_shrinks [OF once [unfolded p]] more by (simp add: bvl_str_def)
    ultimately have "1 + j' \<le> max 1 (length (bvl_str buffer))" using j'(1) by linarith
    then show ?thesis using j j' 1(3) p by (intro exI [of _ "j + j'"]) (auto simp: add.assoc)
  next
    case False
    then have "m' = m1" "\<forall>t. res = Inr t \<longrightarrow> (\<exists>p. r1 = Inr p)"
      using run once by (auto split: sum.splits if_splits)
    then show ?thesis using j by (intro exI [of _ j]) auto
  qed
qed

subsection \<open>Reading\<close>

lemma read_checked:
  assumes law: "read_law K incoming"
    and run: "checked ''read'' (sys_read K fd n) m = (Inr (r, data), m')"
  shows "wrappers m' = wrappers m \<and> 0 \<le> r \<and> r \<le> uint n \<and> length data = nat r \<and>
    incoming (kernel m) = (incoming (kernel m'))(fd := data @ incoming (kernel m') fd) \<and>
    (r = 0 \<and> n \<noteq> 0 \<longrightarrow> incoming (kernel m) fd = [])"
proof -
  obtain v e k where call: "sys_read K fd n (kernel m) = ((v, e, data), k)" "m' = m\<lparr>kernel := k\<rparr>" "r = to_int v"
      "0 \<le> r \<or> e = 0"
    using checked_Inr [OF run] by blast
  note l = law [unfolded read_law_def, rule_format, OF call(1)]
  then have "r = v" "0 \<le> v" using call by (auto split: if_splits)
  then show ?thesis using l call by auto
qed

subsection \<open>Flags\<close>

text \<open>\<open>set_blocking\<close> changes the flag O_NONBLOCK and nothing else.\<close>

lemma blocking_flags_bits:
  "bit (blocking_flags blocking_state flags) i = (if i = 11 then \<not> blocking_state else bit flags i)"
proof -
  have "O_NONBLOCK = push_bit 11 1" by (simp add: O_NONBLOCK_def push_bit_eq_mult)
  then have "bit O_NONBLOCK i \<longleftrightarrow> bit (push_bit 11 (1 :: uint32_t)) i" by (rule arg_cong)
  then have "bit O_NONBLOCK i \<longleftrightarrow> i = 11" by (simp only: bit_simps) auto
  then show ?thesis by (auto simp: blocking_flags_def bit_simps)
qed

subsection \<open>A pipe\<close>

text \<open>
  An instance of the kernel that moves at most three bytes per call: the state is what was written to
  each descriptor and what can still be read from it.
\<close>

definition pipe_calls :: "((int \<Rightarrow> bytes) \<times> (int \<Rightarrow> bytes)) fd_calls" where
  "pipe_calls = \<lparr>
     sys_close = \<lambda>fd k. ((0, 0, ()), k),
     sys_read = \<lambda>fd n (out, inc).
       (let data = take (min 3 (unat n)) (inc fd) in ((int (length data), 0, data), (out, inc(fd := drop (length data) (inc fd))))),
     sys_writev = \<lambda>fd iov (out, inc).
       (let data = take 3 (concat (map fst iov)) in ((int (length data), 0, ()), (out(fd := out fd @ data), inc))),
     sys_getfl = \<lambda>fd k. ((0, 0, ()), k),
     sys_setfl = \<lambda>fd flags k. ((0, 0, ()), k)\<rparr>"

definition pipe_machine :: "bytes \<Rightarrow> ((int \<Rightarrow> bytes) \<times> (int \<Rightarrow> bytes)) machine" where
  "pipe_machine inc =
     \<lparr>wrappers = [\<lparr>fd_num = 7, fd_eof = False, fd_closed = False, fd_read_count = 0, fd_write_count = 0, use_count = 1\<rparr>],
      kernel = (\<lambda>_. [], (\<lambda>_. [])(7 := inc))\<rparr>"

lemma pipe_writev: "writev_law pipe_calls fst"
  by (auto simp: writev_law_def pipe_calls_def Let_def min_def)

lemma pipe_read: "read_law pipe_calls snd"
  unfolding read_law_def
proof (intro allI impI)
  fix fd n k r e data k'
  assume run: "sys_read pipe_calls fd n k = ((r, e, data), k')"
  obtain out inc where k: "k = (out, inc)" by (cases k)
  have d: "data = take (min 3 (unat n)) (inc fd)" "r = int (length data)" "k' = (out, inc(fd := drop (length data) (inc fd)))"
    using run by (auto simp: pipe_calls_def k Let_def)
  have "length data \<le> 3" "length data \<le> unat n" by (simp_all add: d(1))
  moreover from this(2) have "int (length data) \<le> uint n" by (simp only: uint_nat of_nat_le_iff)
  moreover have "data @ drop (length data) (inc fd) = inc fd"
    unfolding d(1) by (metis append_take_drop_id length_take min_def take_all nat_le_linear drop_all append_Nil2)
  moreover have "inc fd = []" if "data = []" "n \<noteq> 0"
    using d(1) that unat_gt_0 [of n] by (auto simp: min_def split: if_splits)
  ultimately show "if r < 0 then r = - 1 \<and> e \<noteq> 0 \<and> snd k' = snd k
      else r \<le> 0x7ffff000 \<and> r \<le> uint n \<and> length data = nat r \<and>
        snd k = (snd k')(fd := data @ snd k' fd) \<and> (r = 0 \<and> n \<noteq> 0 \<longrightarrow> snd k fd = [])"
    using d(2,3) k by simp
qed

subsection \<open>Properties\<close>

text \<open>
  (C28) What \<open>write\<close> has done when it returns or throws. Whatever the kernel accepts per call, the bytes
  accepted on the descriptor are the first n bytes of the buffers, in order, and no other descriptor is
  touched; a normal return reports n, and n is everything when \<open>write_all\<close> was asked for. The only
  failures are a failed writev(2) and a writev(2) that accepts nothing of a non-empty input.
\<close>
theorem fd_write_spec:
  assumes "writev_law K sent" and "a < length (wrappers m)" and "length (bvl_str buffer) < 2 ^ 63"
    and "FileDescriptor_write K a buffer write_all m = (res, m')"
  shows "\<exists>n \<le> length (bvl_str buffer).
     sent (kernel m') = (sent (kernel m))(fd_num (wrapper a m) :=
       sent (kernel m) (fd_num (wrapper a m)) @ take n (bvl_str buffer)) \<and>
     (case res of
        Inl e \<Rightarrow> (\<exists>errno. e = UnixError ''writev'' errno) \<or> e = RuntimeError ''write returned 0 given non-empty input buffer''
      | Inr t \<Rightarrow> t = of_nat n \<and> (write_all \<longrightarrow> n = length (bvl_str buffer)))"
  using writev_loop_law [OF assms(4) [unfolded FileDescriptor_write_def] assms(1,3,2)] unfolding add_0 .

theorem fd_write_spec_witness:
  "\<exists>m'. FileDescriptor_write pipe_calls 0 \<lparr>views = [[1, 2], [3, 4, 5]]\<rparr> True (pipe_machine []) = (Inr 5, m') \<and>
     fst (kernel m') 7 = [1, 2, 3, 4, 5]"
proof -
  let ?b = "\<lparr>views = [[1, 2], [3, 4, 5]]\<rparr>"
  have "fst (FileDescriptor_write pipe_calls 0 ?b True (pipe_machine [])) = Inr 5" by code_simp
  then obtain m' where run: "FileDescriptor_write pipe_calls 0 ?b True (pipe_machine []) = (Inr 5, m')"
    by (metis prod.collapse)
  have "fst (kernel m') 7 = [1, 2, 3, 4, 5]"
    using fd_write_spec [OF pipe_writev _ _ run] by (auto simp: pipe_machine_def bvl_str_def)
  then show ?thesis using run by blast
qed



text \<open>
  What \<open>read\<close> returns is the next piece of what the descriptor delivers, at most \<open>limit\<close> bytes and at
  most one mebibyte; it is empty, for a limit above zero, exactly when the input has ended, and then the
  end-of-file flag is set. One read is counted.
\<close>
theorem fd_read_spec:
  assumes "read_law K incoming" and "a < length (wrappers m)"
    and "FileDescriptor_read K a limit m = (Inr s, m')"
  defines "fd \<equiv> fd_num (wrapper a m)"
  shows "incoming (kernel m) fd = s @ incoming (kernel m') fd \<and> length s \<le> min (2 ^ 20) (unat limit) \<and>
    (0 < limit \<and> s = [] \<longrightarrow> incoming (kernel m) fd = []) \<and>
    wrappers m' = (wrappers m)[a := (wrapper a m)\<lparr>fd_eof := fd_eof (wrapper a m) \<or> (0 < limit \<and> s = []),
                                    fd_read_count := fd_read_count (wrapper a m) + 1\<rparr>]"
proof -
  let ?n = "min BUFFER_SIZE limit"
  obtain r1 m1 where c: "checked ''read'' (sys_read K fd ?n) m = (r1, m1)"
    by (cases "checked ''read'' (sys_read K fd ?n) m")
  obtain r data where r1: "r1 = Inr (r, data)"
    using assms(3) c by (cases r1) (auto simp: FileDescriptor_read_def FileDescriptor_read_into_def Let_def fd_def bindIO_eq)
  note l = read_checked [OF assms(1) c [unfolded r1]]
  have "nat r \<le> nat (uint ?n)" using l by (intro nat_mono) simp
  then have "length data \<le> unat ?n" using l by (simp only: unat_eq_nat_uint)
  moreover have n: "unat ?n = min (2 ^ 20) (unat limit)"
    by (simp add: min_def BUFFER_SIZE_def word_le_nat_alt)
  moreover have "?n \<noteq> 0 \<longleftrightarrow> 0 < limit" using n by (auto simp: word_gt_0 unat_eq_0 min_def split: if_splits)
  moreover have "s = data \<and> m' = register_read a (if limit > 0 \<and> r = 0 then on_wrapper a (\<lambda>w. w\<lparr>fd_eof := True\<rparr>) m1 else m1)"
    using assms(3) c l
    by (auto simp: FileDescriptor_read_def FileDescriptor_read_into_def Let_def fd_def bindIO_eq r1 resize_def split: if_splits)
  moreover have "s = [] \<longleftrightarrow> r = 0" using calculation(4) l by auto
  ultimately show ?thesis
    using l assms(2) by (auto intro!: arg_cong [where f = "list_update (wrappers m) a"] FDWrapper.equality)
qed

theorem fd_read_spec_witness:
  "\<exists>m'. FileDescriptor_read pipe_calls 0 100 (pipe_machine [1, 2, 3, 4]) = (Inr [1, 2, 3], m') \<and>
     [1, 2, 3, 4] = [1, 2, 3] @ snd (kernel m') 7"
proof -
  have "fst (FileDescriptor_read pipe_calls 0 100 (pipe_machine [1, 2, 3, 4])) = Inr [1, 2, 3]" by code_simp
  then obtain m' where run: "FileDescriptor_read pipe_calls 0 100 (pipe_machine [1, 2, 3, 4]) = (Inr [1, 2, 3], m')"
    by (metis prod.collapse)
  then show ?thesis using fd_read_spec [OF pipe_read _ run] by (auto simp: pipe_machine_def)
qed

end
