(* ===== verification/Event_Loop.thy ===== *)
theory Event_Loop
  imports File_Descriptor "HOL-Library.Sublist"
begin

unbundle bit_operations_syntax

text \<open>
  \<open>EventLoop\<close> (libsponge/util/eventloop.hh, eventloop.cc). A rule holds a duplicate of a descriptor,
  which shares its flags and counters with the descriptor the callbacks use, and three callbacks. The
  callbacks are parameters: they work on the same machine, may throw, and the main one may add rules to
  the loop that runs it (the rules it has added are part of its result). poll(2) is a parameter as well.
\<close>

datatype Direction = In | Out

definition POLLIN :: uint16_t where "POLLIN = 0x1"
definition POLLOUT :: uint16_t where "POLLOUT = 0x4"
definition POLLERR :: uint16_t where "POLLERR = 0x8"
definition POLLHUP :: uint16_t where "POLLHUP = 0x10"
definition POLLNVAL :: uint16_t where "POLLNVAL = 0x20"
definition EINTR :: int where "EINTR = 4"

definition direction_events :: "Direction \<Rightarrow> uint16_t" where
  "direction_events d = (case d of In \<Rightarrow> POLLIN | Out \<Rightarrow> POLLOUT)"

record 'c Rule =
  rule_fd :: FileDescriptor
  direction :: Direction
  callback :: 'c
  interest :: 'c
  cancel :: 'c

datatype Result = Success | Timeout | Exit

record ('c, 'k) callbacks =
  run_callback :: "'c \<Rightarrow> 'k machine \<Rightarrow> (cpp_error + unit) \<times> 'c Rule list \<times> 'k machine"
  run_interest :: "'c \<Rightarrow> ('k machine, bool) io"
  run_cancel :: "'c \<Rightarrow> ('k machine, unit) io"

record pollfd =
  poll_fd :: int
  events :: uint16_t
  revents :: uint16_t

type_synonym 'k poll_call = "(int \<times> uint16_t) list \<Rightarrow> int \<Rightarrow> ('k, nat \<Rightarrow> uint16_t) syscall"

definition service_count :: "'c Rule \<Rightarrow> 'k machine \<Rightarrow> uint32_t" where
  "service_count r m =
     (if direction r = In then fd_read_count (wrapper (rule_fd r) m) else fd_write_count (wrapper (rule_fd r) m))"

definition add_rule ::
  "FileDescriptor \<Rightarrow> Direction \<Rightarrow> 'c \<Rightarrow> 'c \<Rightarrow> 'c \<Rightarrow> 'c Rule list \<times> 'k machine \<Rightarrow> 'c Rule list \<times> 'k machine" where
  "add_rule fd dir cb int_cb can_cb = (\<lambda>(rules, m).
     (rules @ [\<lparr>rule_fd = fd, direction = dir, callback = cb, interest = int_cb, cancel = can_cb\<rparr>],
      FileDescriptor_duplicate fd m))"

text \<open>
  The first loop of \<open>wait_next_event\<close>: the poll structures of the rules that stay, whether any of them
  asks for events, the rules that are left and the machine. Erasing a rule destroys its descriptor.
\<close>

fun poll_setup ::
  "'k fd_calls \<Rightarrow> ('c, 'k) callbacks \<Rightarrow> 'c Rule list \<Rightarrow> 'k machine \<Rightarrow>
     (cpp_error + pollfd list \<times> bool) \<times> 'c Rule list \<times> 'k machine" where
  "poll_setup K C [] m = (Inr ([], False), [], m)"
| "poll_setup K C (r # rs) m =
     (if direction r = In \<and> fd_eof (wrapper (rule_fd r) m) \<or> fd_closed (wrapper (rule_fd r) m) then
        (case run_cancel C (cancel r) m of
           (Inl e, m) \<Rightarrow> (Inl e, r # rs, m)
         | (Inr _, m) \<Rightarrow> poll_setup K C rs (FileDescriptor_release K (rule_fd r) m))
      else
        (case run_interest C (interest r) m of
           (Inl e, m) \<Rightarrow> (Inl e, r # rs, m)
         | (Inr wanted, m) \<Rightarrow>
             (let p = \<lparr>poll_fd = fd_num (wrapper (rule_fd r) m),
                       events = (if wanted then direction_events (direction r) else 0), revents = 0\<rparr>
              in case poll_setup K C rs m of
                   (Inl e, rs, m) \<Rightarrow> (Inl e, r # rs, m)
                 | (Inr (ps, something_to_poll), rs, m) \<Rightarrow> (Inr (p # ps, wanted \<or> something_to_poll), r # rs, m))))"

text \<open>The second loop; \<open>pollfds[idx]\<close> past the end of the vector is undefined behaviour.\<close>

fun poll_results ::
  "'k fd_calls \<Rightarrow> ('c, 'k) callbacks \<Rightarrow> pollfd list \<Rightarrow> 'c Rule list \<Rightarrow> 'k machine \<Rightarrow>
     (cpp_error + Result) \<times> 'c Rule list \<times> 'k machine" where
  "poll_results K C ps [] m = (Inr Success, [], m)"
| "poll_results K C [] (r # rs) m = (Inl (UndefinedBehaviour ''pollfds index past the end''), r # rs, m)"
| "poll_results K C (p # ps) (r # rs) m =
     (if revents p AND (POLLERR OR POLLNVAL) \<noteq> 0
      then (Inl (RuntimeError ''EventLoop: error on polled file descriptor''), r # rs, m)
      else
        let poll_ready = (revents p AND events p \<noteq> 0);
            poll_hup = (revents p AND POLLHUP \<noteq> 0);
            keep = (\<lambda>(res, rs, m). (res, r # rs, m))
        in if poll_hup \<and> events p \<noteq> 0 \<and> \<not> poll_ready then
             (case run_cancel C (cancel r) m of
                (Inl e, m) \<Rightarrow> (Inl e, r # rs, m)
              | (Inr _, m) \<Rightarrow> poll_results K C ps rs (FileDescriptor_release K (rule_fd r) m))
           else if poll_ready then
             (let count_before = service_count r m
              in case run_callback C (callback r) m of
                   (Inl e, new, m) \<Rightarrow> (Inl e, r # rs @ new, m)
                 | (Inr _, new, m) \<Rightarrow>
                     if count_before = service_count r m then
                       (case run_interest C (interest r) m of
                          (Inl e, m) \<Rightarrow> (Inl e, r # rs @ new, m)
                        | (Inr True, m) \<Rightarrow> (Inl (RuntimeError
                            ''EventLoop: busy wait detected: callback did not read/write fd and is still interested''), r # rs @ new, m)
                        | (Inr False, m) \<Rightarrow> keep (poll_results K C ps (rs @ new) m))
                     else keep (poll_results K C ps (rs @ new) m))
           else keep (poll_results K C ps rs m))"

text \<open>
  The call of poll(2): \<open>None\<close> stands for falling through to the second loop, which also happens when the
  call has failed with an error other than \<open>EINTR\<close>.
\<close>

definition poll_outcome :: "int \<Rightarrow> int \<Rightarrow> Result option" where
  "poll_outcome return_value errno =
     (case SystemCall ''poll'' return_value errno 0 of
        Inr n \<Rightarrow> if n = 0 then Some Timeout else None
      | Inl (UnixError _ code) \<Rightarrow> if code = EINTR then Some Exit else None
      | Inl _ \<Rightarrow> None)"

definition wait_next_event ::
  "'k fd_calls \<Rightarrow> 'k poll_call \<Rightarrow> ('c, 'k) callbacks \<Rightarrow> int \<Rightarrow> 'c Rule list \<Rightarrow> 'k machine \<Rightarrow>
     (cpp_error + Result) \<times> 'c Rule list \<times> 'k machine" where
  "wait_next_event K poll C timeout_ms rules m =
     (case poll_setup K C rules m of
        (Inl e, rules, m) \<Rightarrow> (Inl e, rules, m)
      | (Inr (pollfds, something_to_poll), rules, m) \<Rightarrow>
          if \<not> something_to_poll then (Inr Exit, rules, m)
          else
            let ((return_value, errno, answer), k) = poll (map (\<lambda>p. (poll_fd p, events p)) pollfds) timeout_ms (kernel m);
                pollfds = map (\<lambda>(i, p). p\<lparr>revents := answer i\<rparr>) (enumerate 0 pollfds);
                m = m\<lparr>kernel := k\<rparr>
            in case poll_outcome return_value errno of
                 Some result \<Rightarrow> (Inr result, rules, m)
               | None \<Rightarrow> poll_results K C pollfds rules m)"

subsection \<open>References\<close>

definition refs :: "'k machine \<Rightarrow> nat list" where
  "refs m = map use_count (wrappers m)"

abbreviation held :: "'c Rule list \<Rightarrow> FileDescriptor \<Rightarrow> nat" where
  "held rules a \<equiv> count_list (map rule_fd rules) a"

text \<open>Every rule owns a reference to a wrapper of the store.\<close>

definition rules_ok :: "'c Rule list \<Rightarrow> 'k machine \<Rightarrow> bool" where
  "rules_ok rules m \<longleftrightarrow> (\<forall>r \<in> set rules. rule_fd r < length (refs m)) \<and> (\<forall>a < length (refs m). held rules a \<le> refs m ! a)"

text \<open>Callbacks that neither keep nor drop descriptors, and add no rules.\<close>

definition callbacks_ok :: "('c, 'k) callbacks \<Rightarrow> bool" where
  "callbacks_ok C \<longleftrightarrow>
     (\<forall>c m res new m'. run_callback C c m = (res, new, m') \<longrightarrow> new = [] \<and> refs m' = refs m \<and> (\<forall>w. res \<noteq> Inl (UndefinedBehaviour w))) \<and>
     (\<forall>c m res m'. run_interest C c m = (res, m') \<longrightarrow> refs m' = refs m \<and> (\<forall>w. res \<noteq> Inl (UndefinedBehaviour w))) \<and>
     (\<forall>c m res m'. run_cancel C c m = (res, m') \<longrightarrow> refs m' = refs m \<and> (\<forall>w. res \<noteq> Inl (UndefinedBehaviour w)))"

definition rules_post :: "'c Rule list \<Rightarrow> 'k machine \<Rightarrow> cpp_error + 'a \<Rightarrow> 'c Rule list \<Rightarrow> 'k machine \<Rightarrow> bool" where
  "rules_post rules m res rules' m' \<longleftrightarrow>
     subseq rules' rules \<and> length (refs m') = length (refs m) \<and>
     (\<forall>a < length (refs m). refs m' ! a + held rules a = refs m ! a + held rules' a) \<and>
     (\<forall>w. res \<noteq> Inl (UndefinedBehaviour w))"

lemma refs_on:
  "(\<And>w. use_count (f w) = use_count w) \<Longrightarrow> refs (on_wrapper a f m) = refs m"
  by (auto simp: refs_def map_update list_update_id intro!: nth_equalityI) (metis list_update_id map_update nth_map)

lemma refs_close: "refs (snd (FileDescriptor_close K a m)) = refs m"
proof -
  obtain r m' where run: "FileDescriptor_close K a m = (r, m')" by (cases "FileDescriptor_close K a m")
  obtain r1 m1 where c: "checked ''close'' (sys_close K (fd_num (wrapper a m))) m = (r1, m1)"
    by (cases "checked ''close'' (sys_close K (fd_num (wrapper a m))) m")
  have "m' = m1 \<or> m' = on_wrapper a (\<lambda>w. w\<lparr>fd_eof := True, fd_closed := True\<rparr>) m1"
    using run c by (auto simp: FileDescriptor_close_def bindIO_eq)
  moreover have "refs m1 = refs m" using checked_wrappers [OF c] by (simp add: refs_def)
  ultimately show ?thesis using run refs_on [of "\<lambda>w. w\<lparr>fd_eof := True, fd_closed := True\<rparr>" a m1] by auto
qed

lemma refs_release: "a < length (refs m) \<Longrightarrow> refs (FileDescriptor_release K a m) = (refs m)[a := refs m ! a - 1]"
proof -
  assume a: "a < length (refs m)"
  let ?m = "on_wrapper a (\<lambda>w. w\<lparr>use_count := use_count w - 1\<rparr>) m"
  have "refs ?m = (refs m)[a := refs m ! a - 1]" using a by (simp add: refs_def map_update)
  then show ?thesis by (simp add: FileDescriptor_release_def FDWrapper_destroy_def Let_def refs_close)
qed

lemma held_Cons: "held (r # rs) a = held rs a + (if rule_fd r = a then 1 else 0)"
  by simp

lemma rules_ok_release:
  assumes "rules_ok (r # rs) m" and "refs m1 = refs m"
  shows "rules_ok rs (FileDescriptor_release K (rule_fd r) m1)"
proof -
  have a: "rule_fd r < length (refs m1)" using assms by (simp add: rules_ok_def)
  have "held rs b \<le> (refs m1)[rule_fd r := refs m1 ! rule_fd r - 1] ! b" if "b < length (refs m1)" for b
    using assms that unfolding rules_ok_def held_Cons by (cases "rule_fd r = b") (auto dest!: spec [of _ b])
  then show ?thesis using assms by (simp add: rules_ok_def refs_release [OF a])
qed

lemma rules_ok_tail:
  assumes "rules_ok (r # rs) m" and "refs m1 = refs m"
  shows "rules_ok rs m1"
proof -
  have "held rs b \<le> held (r # rs) b" for b by simp
  then show ?thesis using assms unfolding rules_ok_def by (auto intro: order_trans simp del: count_list.simps)
qed

lemma rules_post_drop:
  assumes "rules_post rs (FileDescriptor_release K (rule_fd r) m1) res rs' m'" and "refs m1 = refs m" and "rules_ok (r # rs) m"
  shows "rules_post (r # rs) m res rs' m'"
proof -
  let ?a = "rule_fd r"
  have a: "?a < length (refs m1)" and pos: "0 < refs m ! ?a" using assms(2,3) by (auto simp: rules_ok_def dest!: spec [of _ ?a])
  have "refs m' ! b + held (r # rs) b = refs m ! b + held rs' b" if "b < length (refs m)" for b
  proof -
    have "refs m' ! b + held rs b = (refs m)[?a := refs m ! ?a - 1] ! b + held rs' b"
      using assms(1,2) that by (simp add: rules_post_def refs_release [OF a])
    then show ?thesis using pos that by (cases "?a = b") (auto simp: held_Cons)
  qed
  then show ?thesis
    using assms(1,2) by (auto simp: rules_post_def refs_release [OF a] simp del: count_list.simps)
qed

lemma rules_post_keep:
  "rules_post rs m1 res rs' m' \<Longrightarrow> refs m1 = refs m \<Longrightarrow> rules_post (r # rs) m res (r # rs') m'"
  by (auto simp: rules_post_def)

lemma rules_post_stop:
  "refs m' = refs m \<Longrightarrow> (\<And>w. res \<noteq> Inl (UndefinedBehaviour w)) \<Longrightarrow> rules_post rs m res rs m'"
  by (simp add: rules_post_def)

lemma callbacks_okD:
  assumes "callbacks_ok C"
  shows "run_callback C c m = (res, new, m') \<Longrightarrow> new = [] \<and> refs m' = refs m \<and> (\<forall>w. res \<noteq> Inl (UndefinedBehaviour w))"
    and "run_interest C c m = (ri, m') \<Longrightarrow> refs m' = refs m \<and> (\<forall>w. ri \<noteq> Inl (UndefinedBehaviour w))"
    and "run_cancel C c m = (res, m') \<Longrightarrow> refs m' = refs m \<and> (\<forall>w. res \<noteq> Inl (UndefinedBehaviour w))"
  using assms unfolding callbacks_ok_def by blast+

lemma poll_setup_post:
  assumes ok: "callbacks_ok C"
  shows "poll_setup K C rs m = (res, rs', m') \<Longrightarrow> rules_ok rs m \<Longrightarrow>
    rules_post rs m res rs' m' \<and> (\<forall>ps b. res = Inr (ps, b) \<longrightarrow> length ps = length rs')"
proof (induction rs arbitrary: m res rs' m')
  case Nil
  then show ?case by (auto simp: rules_post_def)
next
  case (Cons r rs)
  show ?case
  proof (cases "direction r = In \<and> fd_eof (wrapper (rule_fd r) m) \<or> fd_closed (wrapper (rule_fd r) m)")
    case True
    obtain r1 m1 where c: "run_cancel C (cancel r) m = (r1, m1)" by (cases "run_cancel C (cancel r) m")
    note k = callbacks_okD(3) [OF ok c]
    show ?thesis
    proof (cases r1)
      case (Inl e)
      then show ?thesis using Cons.prems(1) True c k by (auto intro!: rules_post_stop)
    next
      case (Inr x)
      then have "poll_setup K C rs (FileDescriptor_release K (rule_fd r) m1) = (res, rs', m')"
        using Cons.prems(1) True c by simp
      from Cons.IH [OF this rules_ok_release [OF Cons.prems(2)]] show ?thesis
        using k rules_post_drop Cons.prems(2) by blast
    qed
  next
    case False
    obtain r1 m1 where c: "run_interest C (interest r) m = (r1, m1)" by (cases "run_interest C (interest r) m")
    note k = callbacks_okD(2) [OF ok c]
    show ?thesis
    proof (cases r1)
      case (Inl e)
      then show ?thesis using Cons.prems(1) False c k by (auto intro!: rules_post_stop)
    next
      case (Inr x)
      obtain r2 rs2 m2 where s: "poll_setup K C rs m1 = (r2, rs2, m2)" by (cases "poll_setup K C rs m1") auto
      have "rules_post rs m1 r2 rs2 m2 \<and> (\<forall>ps b. r2 = Inr (ps, b) \<longrightarrow> length ps = length rs2)"
        using Cons.IH [OF s rules_ok_tail [OF Cons.prems(2)]] k by blast
      moreover have "rs' = r # rs2 \<and> m' = m2 \<and> (\<forall>e. res = Inl e \<longleftrightarrow> r2 = Inl e) \<and>
          (\<forall>ps b. res = Inr (ps, b) \<longrightarrow> (\<exists>ps' b'. r2 = Inr (ps', b') \<and> length ps = Suc (length ps')))"
        using Cons.prems(1) False c Inr s by (auto split: sum.splits)
      moreover have "rules_post (r # rs) m res (r # rs2) m2" if "rules_post rs m1 r2 rs2 m2" "\<forall>e. res = Inl e \<longleftrightarrow> r2 = Inl e"
        using rules_post_keep [OF that(1)] that(2) k by (simp add: rules_post_def)
      ultimately show ?thesis by auto
    qed
  qed
qed

text \<open>One iteration of the second loop: the rule stays, is cancelled, or an exception is thrown.\<close>

lemma poll_results_cases:
  assumes ok: "callbacks_ok C" and run: "poll_results K C (p # ps) (r # rs) m = (res, rs', m')"
  obtains (thrown) e where "res = Inl e" "\<And>w. e \<noteq> UndefinedBehaviour w" "rs' = r # rs" "refs m' = refs m"
  | (cancelled) m1 where "refs m1 = refs m" "poll_results K C ps rs (FileDescriptor_release K (rule_fd r) m1) = (res, rs', m')"
  | (kept) m1 rs1 where "refs m1 = refs m" "poll_results K C ps rs m1 = (res, rs1, m')" "rs' = r # rs1"
proof -
  obtain r1 m1 where c: "run_cancel C (cancel r) m = (r1, m1)" by (cases "run_cancel C (cancel r) m")
  obtain r2 new m2 where b: "run_callback C (callback r) m = (r2, new, m2)" by (cases "run_callback C (callback r) m") auto
  obtain r3 m3 where i: "run_interest C (interest r) m2 = (r3, m3)" by (cases "run_interest C (interest r) m2")
  note k = callbacks_okD(3) [OF ok c] and kb = callbacks_okD(1) [OF ok b] and ki = callbacks_okD(2) [OF ok i]
  let ?ready = "revents p AND events p \<noteq> 0"
  consider (error) "revents p AND (POLLERR OR POLLNVAL) \<noteq> 0"
    | (hup) "revents p AND (POLLERR OR POLLNVAL) = 0" "revents p AND POLLHUP \<noteq> 0 \<and> events p \<noteq> 0 \<and> \<not> ?ready"
    | (ready) "revents p AND (POLLERR OR POLLNVAL) = 0" "\<not> (revents p AND POLLHUP \<noteq> 0 \<and> events p \<noteq> 0 \<and> \<not> ?ready)" ?ready
    | (idle) "revents p AND (POLLERR OR POLLNVAL) = 0" "\<not> (revents p AND POLLHUP \<noteq> 0 \<and> events p \<noteq> 0 \<and> \<not> ?ready)" "\<not> ?ready"
    by blast
  then show thesis
  proof cases
    case error
    then show thesis using run by (intro thrown) auto
  next
    case hup
    then show thesis using run c k thrown cancelled by (cases r1) auto
  next
    case idle
    then show thesis using run kept [OF refl] by (auto split: prod.splits)
  next
    case ready
    then consider e where "res = Inl e" "\<forall>w. e \<noteq> UndefinedBehaviour w" "rs' = r # rs" "refs m' = refs m"
      | m4 where "(\<lambda>(res, rs, m). (res, r # rs, m)) (poll_results K C ps rs m4) = (res, rs', m')" "refs m4 = refs m"
      using run b i kb ki
      by (cases r2; cases "service_count r m = service_count r m2"; cases r3) (auto simp: Let_def split: bool.splits)
    then show thesis using thrown kept by cases (auto split: prod.splits)
  qed
qed

lemma poll_results_post:
  assumes ok: "callbacks_ok C"
  shows "poll_results K C ps rs m = (res, rs', m') \<Longrightarrow> rules_ok rs m \<Longrightarrow> length ps = length rs \<Longrightarrow> rules_post rs m res rs' m'"
proof (induction ps arbitrary: rs m res rs' m')
  case Nil
  then show ?case by (auto simp: rules_post_def)
next
  case (Cons p ps rs0)
  then obtain r rs where rs0: "rs0 = r # rs" and len: "length ps = length rs" by (cases rs0) auto
  note rok = Cons.prems(2) [unfolded rs0]
  from ok Cons.prems(1) [unfolded rs0] show ?case unfolding rs0
  proof (cases rule: poll_results_cases)
    case (thrown e)
    then show "rules_post (r # rs) m res rs' m'" by (auto intro!: rules_post_stop)
  next
    case (cancelled m1)
    then have "rules_post rs (FileDescriptor_release K (rule_fd r) m1) res rs' m'"
      using Cons.IH rules_ok_release [OF rok] len by blast
    then show "rules_post (r # rs) m res rs' m'" using rules_post_drop rok cancelled(1) by blast
  next
    case (kept m1 rs1)
    then show "rules_post (r # rs) m res rs' m'"
      using Cons.IH [OF kept(2) rules_ok_tail [OF rok kept(1)] len] rules_post_keep by blast
  qed
qed

lemma poll_setup_length:
  "poll_setup K C rs m = (Inr (ps, b), rs', m') \<Longrightarrow> length ps = length rs'"
  by (induction K C rs m arbitrary: ps b rs' m' rule: poll_setup.induct)
     (auto simp: Let_def split: if_splits prod.splits sum.splits)

text \<open>When no structure reports anything, no callback runs and every rule stays.\<close>

lemma poll_results_silent:
  "length ps = length rs \<Longrightarrow> \<forall>p \<in> set ps. revents p = 0 \<Longrightarrow> poll_results K C ps rs m = (Inr Success, rs, m)"
  by (induction ps rs rule: list_induct2) auto

lemma rules_post_rules_ok:
  assumes "rules_post rules m res rules' m'" and "rules_ok rules m"
  shows "rules_ok rules' m'"
proof -
  have "held rules' a \<le> refs m' ! a" if a: "a < length (refs m)" for a
  proof -
    have "refs m' ! a + held rules a = refs m ! a + held rules' a" "held rules a \<le> refs m ! a"
      using assms a by (auto simp: rules_post_def rules_ok_def)
    then show ?thesis by linarith
  qed
  then show ?thesis using assms by (auto simp: rules_post_def rules_ok_def dest: list_emb_set)
qed

lemma rules_post_trans:
  assumes "rules_post rules m r1 rules1 m1" and "refs m2 = refs m1" and "rules_post rules1 m2 res rules' m'"
  shows "rules_post rules m res rules' m'"
proof -
  have "refs m' ! a + held rules a = refs m ! a + held rules' a" if a: "a < length (refs m)" for a
  proof -
    have "refs m1 ! a + held rules a = refs m ! a + held rules1 a" "refs m' ! a + held rules1 a = refs m1 ! a + held rules' a"
      using assms a by (auto simp: rules_post_def)
    then show ?thesis by linarith
  qed
  then show ?thesis using assms by (auto simp: rules_post_def intro: subseq_order.trans)
qed

subsection \<open>The rules that are polled\<close>

definition defunct :: "'k machine \<Rightarrow> 'c Rule \<Rightarrow> bool" where
  "defunct m r \<longleftrightarrow> direction r = In \<and> fd_eof (wrapper (rule_fd r) m) \<or> fd_closed (wrapper (rule_fd r) m)"

lemma close_frame:
  assumes "b \<noteq> a"
  shows "wrapper b (snd (FileDescriptor_close K a m)) = wrapper b m"
proof -
  obtain r m' where run: "FileDescriptor_close K a m = (r, m')" by (cases "FileDescriptor_close K a m")
  obtain r1 m1 where c: "checked ''close'' (sys_close K (fd_num (wrapper a m))) m = (r1, m1)"
    by (cases "checked ''close'' (sys_close K (fd_num (wrapper a m))) m")
  have "m' = m1 \<or> m' = on_wrapper a (\<lambda>w. w\<lparr>fd_eof := True, fd_closed := True\<rparr>) m1"
    using run c by (auto simp: FileDescriptor_close_def bindIO_eq)
  then show ?thesis using run assms checked_wrappers [OF c] by auto
qed

text \<open>Giving up one reference does not change what the rules that are left see of their descriptors.\<close>

lemma release_frame:
  assumes ok: "rules_ok (r # rs) m" and r': "r' \<in> set rs"
  shows "\<exists>n. wrapper (rule_fd r') (FileDescriptor_release K (rule_fd r) m) = (wrapper (rule_fd r') m)\<lparr>use_count := n\<rparr>"
proof (cases "rule_fd r' = rule_fd r")
  case True
  let ?a = "rule_fd r"
  have a: "?a < length (wrappers m)" using ok by (simp add: rules_ok_def refs_def)
  have "0 < held rs ?a" using r' True by (metis count_list_0_iff imageI list.set_map not_gr_zero)
  moreover have "held (r # rs) ?a \<le> refs m ! ?a" using ok a unfolding rules_ok_def refs_def length_map by blast
  ultimately have "1 < use_count (wrapper ?a m)" using a by (simp add: refs_def)
  then have "FileDescriptor_release K ?a m = on_wrapper ?a (\<lambda>w. w\<lparr>use_count := use_count w - 1\<rparr>) m"
    using a by (simp add: FileDescriptor_release_def)
  then show ?thesis using a True by auto
next
  case False
  have "wrapper (rule_fd r') (FileDescriptor_release K (rule_fd r) m) = wrapper (rule_fd r') m"
    using False close_frame [of "rule_fd r'" "rule_fd r" K "on_wrapper (rule_fd r) (\<lambda>w. w\<lparr>use_count := use_count w - 1\<rparr>) m"]
    by (simp add: FileDescriptor_release_def FDWrapper_destroy_def Let_def)
  then show ?thesis by (intro exI [of _ "use_count (wrapper (rule_fd r') m)"]) simp
qed

text \<open>
  The calls of the two callbacks that the first loop makes, as a log in the state that the callbacks share
  with the kernel. The callbacks return and leave the descriptors alone; what \<open>interest\<close> answers may depend
  on the whole state, and both may change it. close(2) does not write the log.
\<close>

datatype 'c call = Asked 'c bool | Cancelled 'c

definition logs_calls :: "'k fd_calls \<Rightarrow> ('c, 'k) callbacks \<Rightarrow> ('k \<Rightarrow> 'c call list) \<Rightarrow> bool" where
  "logs_calls K C log \<longleftrightarrow>
     (\<forall>c m. \<exists>b k. run_interest C c m = (Inr b, m\<lparr>kernel := k\<rparr>) \<and> log k = log (kernel m) @ [Asked c b]) \<and>
     (\<forall>c m. \<exists>k. run_cancel C c m = (Inr (), m\<lparr>kernel := k\<rparr>) \<and> log k = log (kernel m) @ [Cancelled c]) \<and>
     (\<forall>fd k. log (snd (sys_close K fd k)) = log k)"

lemma release_log:
  assumes "logs_calls K C log"
  shows "log (kernel (FileDescriptor_release K a m)) = log (kernel m)"
proof -
  have "log (kernel (snd (FileDescriptor_close K a m))) = log (kernel m)" for m
  proof -
    obtain r m' where run: "FileDescriptor_close K a m = (r, m')" by (cases "FileDescriptor_close K a m")
    then have "kernel m' = snd (sys_close K (fd_num (wrapper a m)) (kernel m))"
      by (auto simp: FileDescriptor_close_def bindIO_eq dest!: checked_kernel)
    then show ?thesis using assms run by (simp add: logs_calls_def)
  qed
  then show ?thesis by (simp add: FileDescriptor_release_def FDWrapper_destroy_def Let_def)
qed

definition rule_poll :: "'k machine \<Rightarrow> 'c Rule \<times> bool \<Rightarrow> pollfd" where
  "rule_poll m = (\<lambda>(r, wanted). \<lparr>poll_fd = fd_num (wrapper (rule_fd r) m),
     events = (if wanted then direction_events (direction r) else 0), revents = 0\<rparr>)"

definition rule_call :: "'k machine \<Rightarrow> 'c Rule \<times> bool \<Rightarrow> 'c call" where
  "rule_call m = (\<lambda>(r, wanted). if defunct m r then Cancelled (cancel r) else Asked (interest r) wanted)"

definition setup_post ::
  "'k fd_calls \<Rightarrow> ('c, 'k) callbacks \<Rightarrow> ('k \<Rightarrow> 'c call list) \<Rightarrow> 'c Rule list \<Rightarrow> 'k machine \<Rightarrow> 'k machine \<Rightarrow> bool list \<Rightarrow> bool" where
  "setup_post K C log rules m m' ans \<longleftrightarrow>
     (let kept = filter (\<lambda>(r, wanted). \<not> defunct m r) (zip rules ans)
      in length ans = length rules \<and>
         poll_setup K C rules m = (Inr (map (rule_poll m) kept, True \<in> set (map snd kept)), map fst kept, m') \<and>
         log (kernel m') = log (kernel m) @ map (rule_call m) (zip rules ans))"

lemma setup_post_cong:
  assumes same: "\<And>r. r \<in> set rules \<Longrightarrow> defunct m1 r = defunct m r \<and>
      fd_num (wrapper (rule_fd r) m1) = fd_num (wrapper (rule_fd r) m)"
    and post: "setup_post K C log rules m1 m' ans" and log: "log (kernel m1) = l"
  shows "length ans = length rules \<and>
    poll_setup K C rules m1 =
      (Inr (map (rule_poll m) (filter (\<lambda>(r, wanted). \<not> defunct m r) (zip rules ans)),
            True \<in> set (map snd (filter (\<lambda>(r, wanted). \<not> defunct m r) (zip rules ans)))),
       map fst (filter (\<lambda>(r, wanted). \<not> defunct m r) (zip rules ans)), m') \<and>
    log (kernel m') = l @ map (rule_call m) (zip rules ans)"
proof -
  have z: "r \<in> set rules" if "(r, b) \<in> set (zip rules ans)" for r b using that by (rule set_zip_leftD)
  have f: "filter (\<lambda>(r, wanted). \<not> defunct m1 r) (zip rules ans) = filter (\<lambda>(r, wanted). \<not> defunct m r) (zip rules ans)"
    using same z by (intro filter_cong) auto
  have "map (rule_poll m1) (filter (\<lambda>(r, wanted). \<not> defunct m r) (zip rules ans)) =
      map (rule_poll m) (filter (\<lambda>(r, wanted). \<not> defunct m r) (zip rules ans))"
    using same z by (auto simp: rule_poll_def)
  moreover have "map (rule_call m1) (zip rules ans) = map (rule_call m) (zip rules ans)"
    using same z by (auto simp: rule_call_def)
  ultimately show ?thesis using post log unfolding setup_post_def f Let_def by simp
qed

lemma poll_setup_calls:
  assumes logs: "logs_calls K C log"
  shows "rules_ok rules m \<Longrightarrow> \<exists>m' ans. setup_post K C log rules m m' ans"
proof (induction rules arbitrary: m)
  case Nil
  then show ?case by (simp add: setup_post_def)
next
  case (Cons r rs)
  show ?case
  proof (cases "defunct m r")
    case True
    obtain k where k: "run_cancel C (cancel r) m = (Inr (), m\<lparr>kernel := k\<rparr>)" "log k = log (kernel m) @ [Cancelled (cancel r)]"
      using logs unfolding logs_calls_def by blast
    let ?m1 = "m\<lparr>kernel := k\<rparr>" let ?m = "FileDescriptor_release K (rule_fd r) ?m1"
    have ok: "rules_ok (r # rs) ?m1" using Cons.prems by (simp add: rules_ok_def refs_def)
    have same: "defunct ?m r' = defunct m r' \<and> fd_num (wrapper (rule_fd r') ?m) = fd_num (wrapper (rule_fd r') m)"
      if "r' \<in> set rs" for r'
      using release_frame [OF ok that, of K] by (auto simp: defunct_def)
    have lg: "log (kernel ?m) = log (kernel m) @ [Cancelled (cancel r)]" using release_log [OF logs] k(2) by simp
    obtain m' ans where post: "setup_post K C log rs ?m m' ans"
      using Cons.IH [OF rules_ok_release [OF ok refl]] by blast
    then have "setup_post K C log (r # rs) m m' (False # ans)"
      using setup_post_cong [OF same post lg] True k(1) by (simp add: setup_post_def defunct_def rule_call_def Let_def)
    then show ?thesis by blast
  next
    case False
    obtain b k where k: "run_interest C (interest r) m = (Inr b, m\<lparr>kernel := k\<rparr>)" "log k = log (kernel m) @ [Asked (interest r) b]"
      using logs unfolding logs_calls_def by blast
    let ?m = "m\<lparr>kernel := k\<rparr>"
    have ok: "rules_ok rs ?m" by (rule rules_ok_tail [OF Cons.prems]) (simp add: refs_def)
    have same: "defunct ?m r' = defunct m r' \<and> fd_num (wrapper (rule_fd r') ?m) = fd_num (wrapper (rule_fd r') m)" for r'
      by (simp add: defunct_def)
    have lg: "log (kernel ?m) = log (kernel m) @ [Asked (interest r) b]" using k(2) by simp
    obtain m' ans where post: "setup_post K C log rs ?m m' ans" using Cons.IH [OF ok] by blast
    then have "setup_post K C log (r # rs) m m' (b # ans)"
      using setup_post_cong [OF same post lg] False k(1)
      by (auto simp: setup_post_def defunct_def rule_call_def rule_poll_def Let_def)
    then show ?thesis by blast
  qed
qed

subsection \<open>Callbacks that add rules\<close>

lemma poll_results_quiet_prefix:
  "length qs = length rs1 \<Longrightarrow> \<forall>q \<in> set qs. revents q = 0 \<Longrightarrow> poll_results K C ps rs m = (res, rs', m') \<Longrightarrow>
   poll_results K C (qs @ ps) (rs1 @ rs) m = (res, rs1 @ rs', m')"
  by (induction qs rs1 rule: list_induct2) auto

lemma poll_results_too_many:
  assumes "length ps = length rs" and "\<forall>p \<in> set ps. revents p = 0" and "new \<noteq> []"
  shows "poll_results K C ps (rs @ new) m = (Inl (UndefinedBehaviour ''pollfds index past the end''), rs @ new, m)"
  using poll_results_quiet_prefix [OF assms(1,2), of K C "[]" new m] assms(3) by (cases new) auto

lemma poll_results_added:
  assumes len: "length ps = length rs" and n: "n < length ps"
    and quiet: "\<forall>i < length ps. i \<noteq> n \<longrightarrow> revents (ps ! i) = 0"
    and ready: "revents (ps ! n) AND events (ps ! n) \<noteq> 0" "revents (ps ! n) AND (POLLERR OR POLLNVAL) = 0"
    and cb: "run_callback C (callback (rs ! n)) m = (Inr (), new, m1)" "new \<noteq> []"
    and served: "service_count (rs ! n) m1 \<noteq> service_count (rs ! n) m"
  shows "poll_results K C ps rs m = (Inl (UndefinedBehaviour ''pollfds index past the end''), rs @ new, m1)"
proof -
  let ?p = "ps ! n" and ?r = "rs ! n"
  have ps: "ps = take n ps @ ?p # drop (Suc n) ps" and rs: "rs = take n rs @ ?r # drop (Suc n) rs"
    using n len id_take_nth_drop [of n ps] id_take_nth_drop [of n rs] by simp_all
  have q1: "\<forall>q \<in> set (take n ps). revents q = 0" using quiet n by (auto simp: in_set_conv_nth)
  have q2: "\<forall>q \<in> set (drop (Suc n) ps). revents q = 0"
    using quiet n by (auto simp: in_set_conv_nth)
  have l2: "length (drop (Suc n) ps) = length (drop (Suc n) rs)" using len by simp
  have "poll_results K C (?p # drop (Suc n) ps) (?r # drop (Suc n) rs) m =
      (Inl (UndefinedBehaviour ''pollfds index past the end''), ?r # drop (Suc n) rs @ new, m1)"
    using ready cb(1) served poll_results_too_many [OF l2 q2 cb(2), of K C m1] by (simp add: Let_def)
  then have "poll_results K C (take n ps @ ?p # drop (Suc n) ps) (take n rs @ ?r # drop (Suc n) rs) m =
      (Inl (UndefinedBehaviour ''pollfds index past the end''), take n rs @ ?r # drop (Suc n) rs @ new, m1)"
    using n len by (intro poll_results_quiet_prefix [OF _ q1]) simp_all
  then show ?thesis unfolding ps [symmetric] using arg_cong [OF rs, of "\<lambda>x. x @ new"] by (simp add: rs [symmetric])
qed

subsection \<open>Properties\<close>

text \<open>
  (C30) The event loop keeps its references straight. For callbacks that keep the descriptors they were
  given and add no rules, and whatever poll(2) reports, \<open>wait_next_event\<close> only removes rules, in whatever
  way it returns or throws; for every descriptor the number of references other than those of the loop's
  own rules is unchanged, so a rule that is cancelled gives up exactly its one reference; and the loop
  itself never runs into undefined behaviour.
\<close>
theorem event_loop_references:
  assumes "callbacks_ok C" and "rules_ok rules m"
    and "wait_next_event K poll C timeout_ms rules m = (res, rules', m')"
  shows "subseq rules' rules \<and> length (refs m') = length (refs m) \<and>
     (\<forall>a < length (refs m). refs m' ! a + held rules a = refs m ! a + held rules' a) \<and>
     (\<forall>w. res \<noteq> Inl (UndefinedBehaviour w))"
proof -
  obtain r1 rules1 m1 where s: "poll_setup K C rules m = (r1, rules1, m1)" by (cases "poll_setup K C rules m") auto
  note post = poll_setup_post [OF assms(1) s assms(2)]
  note ok1 = rules_post_rules_ok [OF conjunct1 [OF post] assms(2)]
  have "rules_post rules m res rules' m'"
  proof (cases r1)
    case (Inl e)
    then show ?thesis using assms(3) post s by (auto simp: wait_next_event_def rules_post_def)
  next
    case (Inr x)
    obtain ps b where x: "r1 = Inr (ps, b)" using Inr by (cases x) auto
    let ?m2 = "\<lambda>k. m1\<lparr>kernel := k\<rparr>"
    let ?ps = "\<lambda>answer. map (\<lambda>(i, p). p\<lparr>revents := answer i\<rparr>) (enumerate 0 ps)"
    have same: "refs (?m2 k) = refs m1" for k by (simp add: refs_def)
    consider v k where "res = Inr v" "rules' = rules1" "m' = m1 \<or> m' = ?m2 k"
      | k answer where "poll_results K C (?ps answer) rules1 (?m2 k) = (res, rules', m')"
      using assms(3) s x unfolding wait_next_event_def
      by (auto simp: Let_def split: if_splits prod.splits option.splits)
    then show ?thesis
    proof cases
      case 1
      then have "refs m' = refs m1" using same by auto
      then show ?thesis using 1(1,2) post by (simp add: rules_post_def)
    next
      case 2
      have "length (?ps answer) = length rules1" using post x by simp
      moreover have "rules_ok rules1 (?m2 k)" using ok1 same by (simp add: rules_ok_def)
      ultimately show ?thesis
        using rules_post_trans [OF conjunct1 [OF post] same] poll_results_post [OF assms(1) 2] by blast
    qed
  qed
  then show ?thesis by (simp add: rules_post_def)
qed

definition sample_callbacks :: "(bool, (int \<Rightarrow> bytes) \<times> (int \<Rightarrow> bytes)) callbacks" where
  "sample_callbacks = \<lparr>
     run_callback = \<lambda>c m. (Inr (), [], register_read 0 m),
     run_interest = \<lambda>c m. (Inr c, m),
     run_cancel = \<lambda>c m. (Inr (), m)\<rparr>"

definition sample_rule :: "bool \<Rightarrow> bool Rule" where
  "sample_rule wanted = \<lparr>rule_fd = 0, direction = In, callback = True, interest = wanted, cancel = True\<rparr>"

lemma sample_callbacks_ok: "callbacks_ok sample_callbacks"
  by (auto simp: callbacks_ok_def sample_callbacks_def register_read_def refs_on)

theorem event_loop_references_witness:
  "\<exists>res rules' m'. wait_next_event pipe_calls (\<lambda>_ _ k. ((1, 0, \<lambda>_. POLLIN), k)) sample_callbacks 0 [sample_rule True] (pipe_machine [1]) =
     (res, rules', m') \<and> subseq rules' [sample_rule True] \<and> (\<forall>w. res \<noteq> Inl (UndefinedBehaviour w))"
proof -
  have "rules_ok [sample_rule True] (pipe_machine [1])"
    by (simp add: rules_ok_def refs_def pipe_machine_def sample_rule_def)
  note post = event_loop_references [OF sample_callbacks_ok this]
  obtain res rules' m' where "wait_next_event pipe_calls (\<lambda>_ _ k. ((1, 0, \<lambda>_. POLLIN), k)) sample_callbacks 0
      [sample_rule True] (pipe_machine [1]) = (res, rules', m')"
    by (rule prod_cases3)
  with post [OF this] show ?thesis by blast
qed

text \<open>
  (C31) What is polled, and which callbacks run. The first loop of \<open>wait_next_event\<close> goes through the rules in
  order and makes one call for each: a rule whose descriptor is closed, or at end of file for a reading
  rule, has its \<open>cancel\<close> called and is removed; every other rule has its \<open>interest\<close> called, stays, in order,
  and is polled with the number of its descriptor, for the event of its direction if the answer was yes
  and for no event if not; there is something to poll exactly when one answer was yes. The answers
  \<open>ans\<close> may depend on the state, which both callbacks may change; they are assumed to return and to leave
  the descriptors alone. Dropping the descriptors of the cancelled rules closes none that another rule
  still holds. A writing rule at end of file stays.
\<close>
theorem event_loop_polls:
  assumes "logs_calls K C log" and "rules_ok rules m"
  shows "\<exists>m' ans. length ans = length rules \<and>
    (let kept = filter (\<lambda>(r, wanted). \<not> defunct m r) (zip rules ans)
     in poll_setup K C rules m =
          (Inr (map (\<lambda>(r, wanted). \<lparr>poll_fd = fd_num (wrapper (rule_fd r) m),
                        events = (if wanted then direction_events (direction r) else 0), revents = 0\<rparr>) kept,
                True \<in> set (map snd kept)),
           map fst kept, m')) \<and>
    log (kernel m') = log (kernel m) @
      map (\<lambda>(r, wanted). if defunct m r then Cancelled (cancel r) else Asked (interest r) wanted) (zip rules ans)"
proof -
  obtain m' ans where "setup_post K C log rules m m' ans" using poll_setup_calls [OF assms] by blast
  then show ?thesis
    unfolding setup_post_def rule_poll_def rule_call_def Let_def by (intro exI [of _ m'] exI [of _ ans]) simp
qed

text \<open>An instance whose state is the log itself and whose interest changes with every call.\<close>

definition log_calls :: "nat call list fd_calls" where
  "log_calls = \<lparr>
     sys_close = \<lambda>fd k. ((0, 0, ()), k),
     sys_read = \<lambda>fd n k. ((0, 0, []), k),
     sys_writev = \<lambda>fd iov k. ((- 1, 5, ()), k),
     sys_getfl = \<lambda>fd k. ((0, 0, ()), k),
     sys_setfl = \<lambda>fd flags k. ((0, 0, ()), k)\<rparr>"

definition log_callbacks :: "(nat, nat call list) callbacks" where
  "log_callbacks = \<lparr>
     run_callback = \<lambda>c m. (Inr (), [], m),
     run_interest = \<lambda>c m. (let b = odd (length (kernel m)) in (Inr b, m\<lparr>kernel := kernel m @ [Asked c b]\<rparr>)),
     run_cancel = \<lambda>c m. (Inr (), m\<lparr>kernel := kernel m @ [Cancelled c]\<rparr>)\<rparr>"

definition log_machine :: "nat call list machine" where
  "log_machine =
     \<lparr>wrappers = [\<lparr>fd_num = 7, fd_eof = True, fd_closed = False, fd_read_count = 0, fd_write_count = 0, use_count = 3\<rparr>],
      kernel = []\<rparr>"

lemma log_logs: "logs_calls log_calls log_callbacks id"
  by (simp add: logs_calls_def log_calls_def log_callbacks_def Let_def)

theorem event_loop_polls_witness:
  "\<exists>m' ans. poll_setup log_calls log_callbacks
       [\<lparr>rule_fd = 0, direction = In, callback = 0, interest = 1, cancel = 2\<rparr>,
        \<lparr>rule_fd = 0, direction = Out, callback = 3, interest = 4, cancel = 5\<rparr>] log_machine =
     (Inr ([\<lparr>poll_fd = 7, events = (if ans then POLLOUT else 0), revents = 0\<rparr>], ans),
      [\<lparr>rule_fd = 0, direction = Out, callback = 3, interest = 4, cancel = 5\<rparr>], m') \<and>
     kernel m' = [Cancelled 2, Asked 4 ans]"
proof -
  let ?r1 = "\<lparr>rule_fd = 0, direction = In, callback = 0, interest = 1, cancel = 2\<rparr> :: nat Rule"
  let ?r2 = "\<lparr>rule_fd = 0, direction = Out, callback = 3, interest = 4, cancel = 5\<rparr> :: nat Rule"
  have ok: "rules_ok [?r1, ?r2] log_machine" by (simp add: rules_ok_def refs_def log_machine_def)
  have d: "defunct log_machine ?r1" "\<not> defunct log_machine ?r2" "kernel log_machine = []"
      "fd_num (wrapper 0 log_machine) = 7"
    by (simp_all add: defunct_def log_machine_def)
  obtain m' ans where len: "length ans = length [?r1, ?r2]" and run: "let kept = filter (\<lambda>(r, wanted). \<not> defunct log_machine r) (zip [?r1, ?r2] ans)
     in poll_setup log_calls log_callbacks [?r1, ?r2] log_machine =
          (Inr (map (\<lambda>(r, wanted). \<lparr>poll_fd = fd_num (wrapper (rule_fd r) log_machine),
                        events = (if wanted then direction_events (direction r) else 0), revents = 0\<rparr>) kept,
                True \<in> set (map snd kept)),
           map fst kept, m')"
    and lg: "id (kernel m') = id (kernel log_machine) @
      map (\<lambda>(r, wanted). if defunct log_machine r then Cancelled (cancel r) else Asked (interest r) wanted) (zip [?r1, ?r2] ans)"
    using event_loop_polls [OF log_logs ok] by blast
  obtain a b where ans: "ans = [a, b]" using len by (cases ans; cases "tl ans") auto
  show ?thesis
    using run lg d unfolding ans by (intro exI [of _ m'] exI [of _ b]) (simp add: direction_events_def del: poll_setup.simps)
qed

text \<open>
  The documentation says that an error during polling throws. It does only for a descriptor that
  poll(2) flags: when the call itself fails with an error other than a signal (so that no structure is
  filled in), the exception is caught and dropped, and \<open>wait_next_event\<close> reports success without running
  any callback.
\<close>
theorem poll_failure_is_success:
  assumes "poll_setup K C rules m = (Inr (pollfds, True), rules1, m1)"
    and "poll (map (\<lambda>p. (poll_fd p, events p)) pollfds) timeout_ms (kernel m1) = ((- 1, errno, \<lambda>_. 0), k)"
    and "errno \<noteq> 0" and "errno \<noteq> EINTR"
  shows "wait_next_event K poll C timeout_ms rules m = (Inr Success, rules1, m1\<lparr>kernel := k\<rparr>)"
proof -
  have "poll_outcome (- 1) errno = None" using assms(3,4) by (simp add: poll_outcome_def SystemCall_failed)
  moreover have "poll_results K C (map (\<lambda>(i, p). p\<lparr>revents := 0\<rparr>) (enumerate 0 pollfds)) rules1 (m1\<lparr>kernel := k\<rparr>) =
      (Inr Success, rules1, m1\<lparr>kernel := k\<rparr>)"
    using poll_setup_length [OF assms(1)] by (intro poll_results_silent) auto
  ultimately show ?thesis using assms(1,2) by (simp add: wait_next_event_def Let_def)
qed

theorem poll_failure_is_success_witness:
  "\<exists>rules' m'. wait_next_event pipe_calls (\<lambda>_ _ k. ((- 1, 22, \<lambda>_. 0), k)) sample_callbacks 0 [sample_rule True] (pipe_machine [1]) =
     (Inr Success, rules', m')"
proof -
  have "poll_setup pipe_calls sample_callbacks [sample_rule True] (pipe_machine [1]) =
     (Inr ([\<lparr>poll_fd = 7, events = POLLIN, revents = 0\<rparr>], True), [sample_rule True], pipe_machine [1])"
    by (simp add: sample_callbacks_def sample_rule_def pipe_machine_def direction_events_def)
  from poll_failure_is_success [OF this, of "\<lambda>_ _ k. ((- 1, 22, \<lambda>_. 0), k)"] show ?thesis by (simp add: EINTR_def)
qed

text \<open>
  (C40) A callback that adds a rule to the loop that runs it, as a listener that accepts a connection
  would, makes \<open>wait_next_event\<close> read past the end of its vector of poll structures: the new rules are at
  the end of the list the second loop walks, and no structure belongs to them. This holds for all
  rules and callbacks, when poll(2) reports one ready descriptor, its callback reads or writes it and adds
  rules without throwing.
\<close>
theorem adding_a_rule_in_a_callback_is_undefined:
  assumes "poll_setup K C rules m = (Inr (pollfds, True), rules1, m1)"
    and "poll (map (\<lambda>p. (poll_fd p, events p)) pollfds) timeout_ms (kernel m1) = ((1, 0, answer), k)"
    and "n < length rules1" and "\<forall>i. i \<noteq> n \<longrightarrow> answer i = 0"
    and "answer n AND events (pollfds ! n) \<noteq> 0" and "answer n AND (POLLERR OR POLLNVAL) = 0"
    and "run_callback C (callback (rules1 ! n)) (m1\<lparr>kernel := k\<rparr>) = (Inr (), new, m2)" and "new \<noteq> []"
    and "service_count (rules1 ! n) m2 \<noteq> service_count (rules1 ! n) (m1\<lparr>kernel := k\<rparr>)"
  shows "wait_next_event K poll C timeout_ms rules m =
    (Inl (UndefinedBehaviour ''pollfds index past the end''), rules1 @ new, m2)"
proof -
  let ?ps = "map (\<lambda>(i, p). p\<lparr>revents := answer i\<rparr>) (enumerate 0 pollfds)"
  have len: "length pollfds = length rules1" by (rule poll_setup_length [OF assms(1)])
  have at: "?ps ! i = (pollfds ! i)\<lparr>revents := answer i\<rparr>" if "i < length pollfds" for i
    using that by (simp add: nth_enumerate_eq)
  have "poll_results K C ?ps rules1 (m1\<lparr>kernel := k\<rparr>) =
      (Inl (UndefinedBehaviour ''pollfds index past the end''), rules1 @ new, m2)"
    by (rule poll_results_added [of _ _ n]) (use assms(3-9) len at in simp_all)
  moreover have "poll_outcome 1 0 = None" by (simp add: poll_outcome_def SystemCall_ok)
  ultimately show ?thesis using assms(1,2) by (simp add: wait_next_event_def Let_def)
qed

theorem adding_a_rule_in_a_callback_is_undefined_witness:
  "\<exists>rules' m'. wait_next_event pipe_calls (\<lambda>_ _ k. ((1, 0, \<lambda>i. if i = 0 then POLLIN else 0), k))
     (sample_callbacks\<lparr>run_callback := \<lambda>c m. (Inr (), [sample_rule False], FileDescriptor_duplicate 0 (register_read 0 m))\<rparr>)
     0 [sample_rule True] (pipe_machine [1]) = (Inl (UndefinedBehaviour ''pollfds index past the end''), rules', m')"
proof -
  let ?C = "sample_callbacks\<lparr>run_callback := \<lambda>c m. (Inr (), [sample_rule False], FileDescriptor_duplicate 0 (register_read 0 m))\<rparr>"
  have s: "poll_setup pipe_calls ?C [sample_rule True] (pipe_machine [1]) =
     (Inr ([\<lparr>poll_fd = 7, events = POLLIN, revents = 0\<rparr>], True), [sample_rule True], pipe_machine [1])"
    by (simp add: sample_callbacks_def sample_rule_def pipe_machine_def direction_events_def)
  show ?thesis
    using adding_a_rule_in_a_callback_is_undefined [OF s, where n = 0 and k = "kernel (pipe_machine [1])" and
        answer = "\<lambda>i. if i = 0 then POLLIN else 0" and timeout_ms = 0 and
        poll = "\<lambda>_ _ k. ((1, 0, \<lambda>i. if i = 0 then POLLIN else 0), k)"]
    by (auto simp: POLLIN_def POLLERR_def POLLNVAL_def sample_rule_def service_count_def pipe_machine_def
        FileDescriptor_duplicate_def)
qed

end
