(* ===== verification/Sockets.thy ===== *)
theory Sockets
  imports File_Descriptor Net_Address
begin

unbundle bit_operations_syntax

text \<open>
  \<open>Socket\<close>, \<open>UDPSocket\<close>, \<open>TCPSocket\<close> and \<open>LocalStreamSocket\<close> (libsponge/util/socket.hh, socket.cc) and
  \<open>TunTapFD\<close> (tun.hh, tun.cc): descriptors made by other system calls, which are parameters. A constructor
  that throws after its base class is complete destroys the base, that is, gives up the descriptor.
\<close>

definition AF_UNIX :: int where "AF_UNIX = 1"
definition SOCK_STREAM :: int where "SOCK_STREAM = 1"
definition SOCK_DGRAM :: int where "SOCK_DGRAM = 2"
definition SOL_SOCKET :: int where "SOL_SOCKET = 1"
definition SO_REUSEADDR :: int where "SO_REUSEADDR = 2"
definition SO_TYPE :: int where "SO_TYPE = 3"
definition SO_DOMAIN :: int where "SO_DOMAIN = 39"
definition SHUT_RD :: int where "SHUT_RD = 0"
definition SHUT_WR :: int where "SHUT_WR = 1"
definition SHUT_RDWR :: int where "SHUT_RDWR = 2"
definition MSG_TRUNC :: int where "MSG_TRUNC = 0x20"

record 'k socket_calls =
  sys_socket :: "int \<Rightarrow> int \<Rightarrow> int \<Rightarrow> ('k, unit) syscall"
  sys_getsockopt :: "int \<Rightarrow> int \<Rightarrow> int \<Rightarrow> uint32_t \<Rightarrow> ('k, int \<times> uint32_t) syscall"
  sys_setsockopt :: "int \<Rightarrow> int \<Rightarrow> int \<Rightarrow> int \<Rightarrow> ('k, unit) syscall"
  sys_getsockname :: "int \<Rightarrow> uint32_t \<Rightarrow> ('k, bytes \<times> uint32_t) syscall"
  sys_getpeername :: "int \<Rightarrow> uint32_t \<Rightarrow> ('k, bytes \<times> uint32_t) syscall"
  sys_bind :: "int \<Rightarrow> bytes \<Rightarrow> uint32_t \<Rightarrow> ('k, unit) syscall"
  sys_connect :: "int \<Rightarrow> bytes \<Rightarrow> uint32_t \<Rightarrow> ('k, unit) syscall"
  sys_shutdown :: "int \<Rightarrow> int \<Rightarrow> ('k, unit) syscall"
  sys_recvfrom :: "int \<Rightarrow> size_t \<Rightarrow> int \<Rightarrow> uint32_t \<Rightarrow> ('k, bytes \<times> bytes \<times> uint32_t) syscall"
  sys_sendmsg :: "int \<Rightarrow> (bytes \<times> uint32_t) option \<Rightarrow> (bytes \<times> size_t) list \<Rightarrow> ('k, unit) syscall"
  sys_listen :: "int \<Rightarrow> int \<Rightarrow> ('k, unit) syscall"
  sys_accept :: "int \<Rightarrow> ('k, unit) syscall"
  sys_open :: "string \<Rightarrow> int \<Rightarrow> ('k, unit) syscall"
  sys_tunsetiff :: "int \<Rightarrow> uint16_t \<times> string \<Rightarrow> ('k, unit) syscall"

text \<open>Clean up when a constructor throws, and when a scope is left in either way.\<close>

definition on_throw :: "('m \<Rightarrow> 'm) \<Rightarrow> ('m, 'a) io \<Rightarrow> ('m, 'a) io" where
  "on_throw cleanup f m = (case f m of (Inl e, m') \<Rightarrow> (Inl e, cleanup m') | (Inr x, m') \<Rightarrow> (Inr x, m'))"

text \<open>A zeroed \<open>Address::Raw\<close> that a call has written into.\<close>

definition raw_address :: "bytes \<Rightarrow> bytes" where
  "raw_address written = written @ drop (length written) (replicate STORAGE_SIZE 0)"

definition Socket_new :: "'k socket_calls \<Rightarrow> int \<Rightarrow> int \<Rightarrow> ('k machine, FileDescriptor) io" where
  "Socket_new N domain type =
     bindIO (checked ''socket'' (sys_socket N domain type 0)) (\<lambda>(fd, _). FileDescriptor_new fd)"

definition verify_option :: "'k socket_calls \<Rightarrow> FileDescriptor \<Rightarrow> int \<Rightarrow> int \<Rightarrow> string \<Rightarrow> ('k machine, unit) io" where
  "verify_option N a option expected complaint m =
     bindIO (checked ''getsockopt'' (sys_getsockopt N (fd_num (wrapper a m)) SOL_SOCKET option 4)) (\<lambda>(_, actual_value, len).
       if len \<noteq> 4 \<or> actual_value \<noteq> expected then throwIO (RuntimeError complaint) else returnIO ()) m"

definition Socket_of_fd ::
  "'k fd_calls \<Rightarrow> 'k socket_calls \<Rightarrow> FileDescriptor \<Rightarrow> int \<Rightarrow> int \<Rightarrow> ('k machine, FileDescriptor) io" where
  "Socket_of_fd K N a domain type =
     on_throw (FileDescriptor_release K a)
       (bindIO (verify_option N a SO_DOMAIN domain ''socket domain mismatch'') (\<lambda>_.
        bindIO (verify_option N a SO_TYPE type ''socket type mismatch'') (\<lambda>_. returnIO a)))"

definition get_address ::
  "string \<Rightarrow> (int \<Rightarrow> uint32_t \<Rightarrow> ('k, bytes \<times> uint32_t) syscall) \<Rightarrow> FileDescriptor \<Rightarrow> ('k machine, Address) io" where
  "get_address name_of_function call a m =
     bindIO (checked name_of_function (call (fd_num (wrapper a m)) (of_nat STORAGE_SIZE))) (\<lambda>(_, written, len).
       liftE (Address_of_raw (raw_address written) (ucast len))) m"

definition local_address :: "'k socket_calls \<Rightarrow> FileDescriptor \<Rightarrow> ('k machine, Address) io" where
  "local_address N = get_address ''getsockname'' (sys_getsockname N)"

definition peer_address :: "'k socket_calls \<Rightarrow> FileDescriptor \<Rightarrow> ('k machine, Address) io" where
  "peer_address N = get_address ''getpeername'' (sys_getpeername N)"

definition Socket_bind :: "'k socket_calls \<Rightarrow> FileDescriptor \<Rightarrow> Address \<Rightarrow> ('k machine, unit) io" where
  "Socket_bind N a address m =
     bindIO (checked ''bind'' (sys_bind N (fd_num (wrapper a m)) (addr_storage address) (addr_size address))) (\<lambda>_. returnIO ()) m"

definition Socket_connect :: "'k socket_calls \<Rightarrow> FileDescriptor \<Rightarrow> Address \<Rightarrow> ('k machine, unit) io" where
  "Socket_connect N a address m =
     bindIO (checked ''connect'' (sys_connect N (fd_num (wrapper a m)) (addr_storage address) (addr_size address))) (\<lambda>_. returnIO ()) m"

definition Socket_shutdown :: "'k socket_calls \<Rightarrow> FileDescriptor \<Rightarrow> int \<Rightarrow> ('k machine, unit) io" where
  "Socket_shutdown N a how m =
     bindIO (checked ''shutdown'' (sys_shutdown N (fd_num (wrapper a m)) how)) (\<lambda>_.
       if how = SHUT_RD then modifyIO (register_read a)
       else if how = SHUT_WR then modifyIO (register_write a)
       else if how = SHUT_RDWR then modifyIO (\<lambda>m. register_write a (register_read a m))
       else throwIO (RuntimeError ''Socket::shutdown() called with invalid `how`'')) m"

record received_datagram =
  source_address :: Address
  dg_payload :: bytes

definition UDPSocket_recv_into ::
  "'k socket_calls \<Rightarrow> FileDescriptor \<Rightarrow> received_datagram \<Rightarrow> size_t \<Rightarrow> ('k machine, received_datagram) io" where
  "UDPSocket_recv_into N a datagram mtu m =
     (if 2 ^ 63 \<le> mtu then throwIO (LengthError ''basic_string::_M_replace_aux'') m
      else let buffer = resize (unat mtu) (dg_payload datagram)
      in bindIO (checked ''recvfrom'' (sys_recvfrom N (fd_num (wrapper a m)) mtu MSG_TRUNC (of_nat STORAGE_SIZE)))
           (\<lambda>(recv_len, data, source, fromlen).
         if recv_len > sint mtu then throwIO (RuntimeError ''recvfrom (oversized datagram)'')
         else bindIO (modifyIO (register_read a)) (\<lambda>_.
              bindIO (liftE (Address_of_raw (raw_address source) (ucast fromlen))) (\<lambda>address.
              if recv_len < 0 then throwIO (LengthError ''basic_string::_M_replace_aux'')
              else returnIO \<lparr>source_address = address, dg_payload = resize (nat recv_len) (data @ drop (length data) buffer)\<rparr>))) m)"

definition UDPSocket_recv :: "'k socket_calls \<Rightarrow> FileDescriptor \<Rightarrow> size_t \<Rightarrow> ('k machine, received_datagram) io" where
  "UDPSocket_recv N a mtu =
     bindIO (liftE (Address_of_raw [] 0)) (\<lambda>nowhere.
       UDPSocket_recv_into N a \<lparr>source_address = nowhere, dg_payload = []\<rparr> mtu)"

definition sendmsg_helper ::
  "'k socket_calls \<Rightarrow> int \<Rightarrow> (bytes \<times> uint32_t) option \<Rightarrow> BufferViewList \<Rightarrow> ('k machine, unit) io" where
  "sendmsg_helper N fd destination payload =
     bindIO (checked ''sendmsg'' (sys_sendmsg N fd destination (bvl_as_iovecs payload))) (\<lambda>(bytes_sent, _).
       if of_int bytes_sent \<noteq> bvl_size payload then throwIO (RuntimeError ''datagram payload too big for sendmsg()'')
       else returnIO ())"

definition UDPSocket_sendto ::
  "'k socket_calls \<Rightarrow> FileDescriptor \<Rightarrow> Address \<Rightarrow> BufferViewList \<Rightarrow> ('k machine, unit) io" where
  "UDPSocket_sendto N a destination payload m =
     bindIO (sendmsg_helper N (fd_num (wrapper a m)) (Some (addr_storage destination, addr_size destination)) payload) (\<lambda>_.
       modifyIO (register_write a)) m"

definition UDPSocket_send :: "'k socket_calls \<Rightarrow> FileDescriptor \<Rightarrow> BufferViewList \<Rightarrow> ('k machine, unit) io" where
  "UDPSocket_send N a payload m =
     bindIO (sendmsg_helper N (fd_num (wrapper a m)) None payload) (\<lambda>_. modifyIO (register_write a)) m"

definition UDPSocket_new :: "'k socket_calls \<Rightarrow> ('k machine, FileDescriptor) io" where
  "UDPSocket_new N = Socket_new N AF_INET SOCK_DGRAM"

definition TCPSocket_new :: "'k socket_calls \<Rightarrow> ('k machine, FileDescriptor) io" where
  "TCPSocket_new N = Socket_new N AF_INET SOCK_STREAM"

definition UDPSocket_of_fd :: "'k fd_calls \<Rightarrow> 'k socket_calls \<Rightarrow> FileDescriptor \<Rightarrow> ('k machine, FileDescriptor) io" where
  "UDPSocket_of_fd K N a = Socket_of_fd K N a AF_INET SOCK_DGRAM"

definition TCPSocket_of_fd :: "'k fd_calls \<Rightarrow> 'k socket_calls \<Rightarrow> FileDescriptor \<Rightarrow> ('k machine, FileDescriptor) io" where
  "TCPSocket_of_fd K N a = Socket_of_fd K N a AF_INET SOCK_STREAM"

definition LocalStreamSocket_of_fd :: "'k fd_calls \<Rightarrow> 'k socket_calls \<Rightarrow> FileDescriptor \<Rightarrow> ('k machine, FileDescriptor) io" where
  "LocalStreamSocket_of_fd K N a = Socket_of_fd K N a AF_UNIX SOCK_STREAM"

definition TCPSocket_listen :: "'k socket_calls \<Rightarrow> FileDescriptor \<Rightarrow> int \<Rightarrow> ('k machine, unit) io" where
  "TCPSocket_listen N a backlog m =
     bindIO (checked ''listen'' (sys_listen N (fd_num (wrapper a m)) backlog)) (\<lambda>_. returnIO ()) m"

definition TCPSocket_accept :: "'k fd_calls \<Rightarrow> 'k socket_calls \<Rightarrow> FileDescriptor \<Rightarrow> ('k machine, FileDescriptor) io" where
  "TCPSocket_accept K N a m =
     bindIO (modifyIO (register_read a)) (\<lambda>_.
     bindIO (checked ''accept'' (sys_accept N (fd_num (wrapper a m)))) (\<lambda>(fd, _).
     bindIO (FileDescriptor_new fd) (\<lambda>b. TCPSocket_of_fd K N b))) m"

definition Socket_setsockopt :: "'k socket_calls \<Rightarrow> FileDescriptor \<Rightarrow> int \<Rightarrow> int \<Rightarrow> int \<Rightarrow> ('k machine, unit) io" where
  "Socket_setsockopt N a level option option_value m =
     bindIO (checked ''setsockopt'' (sys_setsockopt N (fd_num (wrapper a m)) level option option_value)) (\<lambda>_. returnIO ()) m"

definition set_reuseaddr :: "'k socket_calls \<Rightarrow> FileDescriptor \<Rightarrow> ('k machine, unit) io" where
  "set_reuseaddr N a = Socket_setsockopt N a SOL_SOCKET SO_REUSEADDR 1"

subsection \<open>TUN and TAP devices\<close>

definition CLONEDEV :: string where "CLONEDEV = ''/dev/net/tun''"
definition O_RDWR :: int where "O_RDWR = 2"
definition IFF_TUN :: uint16_t where "IFF_TUN = 0x1"
definition IFF_TAP :: uint16_t where "IFF_TAP = 0x2"
definition IFF_NO_PI :: uint16_t where "IFF_NO_PI = 0x1000"
definition IFNAMSIZ :: nat where "IFNAMSIZ = 16"

text \<open>The name the device request holds: at most fifteen characters of the name, up to a zero character.\<close>

definition ifr_name :: "string \<Rightarrow> string" where
  "ifr_name devname = c_str (take (IFNAMSIZ - 1) devname)"

definition TunTapFD_new :: "'k fd_calls \<Rightarrow> 'k socket_calls \<Rightarrow> string \<Rightarrow> bool \<Rightarrow> ('k machine, FileDescriptor) io" where
  "TunTapFD_new K N devname is_tun =
     bindIO (checked ''open'' (sys_open N CLONEDEV O_RDWR)) (\<lambda>(fd, _).
     bindIO (FileDescriptor_new fd) (\<lambda>a m.
     on_throw (FileDescriptor_release K a)
       (bindIO (checked ''ioctl'' (sys_tunsetiff N (fd_num (wrapper a m))
          ((if is_tun then IFF_TUN else IFF_TAP) OR IFF_NO_PI, ifr_name devname))) (\<lambda>_. returnIO a)) m))"

definition TunFD_new :: "'k fd_calls \<Rightarrow> 'k socket_calls \<Rightarrow> string \<Rightarrow> ('k machine, FileDescriptor) io" where
  "TunFD_new K N devname = TunTapFD_new K N devname True"

definition TapFD_new :: "'k fd_calls \<Rightarrow> 'k socket_calls \<Rightarrow> string \<Rightarrow> ('k machine, FileDescriptor) io" where
  "TapFD_new K N devname = TunTapFD_new K N devname False"

subsection \<open>Descriptors are not leaked\<close>

definition close_law :: "'k fd_calls \<Rightarrow> bool" where
  "close_law K \<longleftrightarrow> (\<forall>fd k. \<exists>k'. sys_close K fd k = ((0, 0, ()), k'))"

lemma release_last:
  assumes law: "close_law K" and b: "b < length (wrappers m)"
    and last: "use_count (wrapper b m) = 1" "\<not> fd_closed (wrapper b m)"
  shows "wrappers (FileDescriptor_release K b m) =
    (wrappers m)[b := (wrapper b m)\<lparr>use_count := 0, fd_eof := True, fd_closed := True\<rparr>]"
proof -
  let ?m = "on_wrapper b (\<lambda>w. w\<lparr>use_count := use_count w - 1\<rparr>) m"
  obtain k where k: "sys_close K (fd_num (wrapper b ?m)) (kernel ?m) = ((0, 0, ()), k)" using law by (auto simp: close_law_def)
  have "FileDescriptor_close K b ?m =
      (Inr (), on_wrapper b (\<lambda>w. w\<lparr>fd_eof := True, fd_closed := True\<rparr>) (?m\<lparr>kernel := k\<rparr>))"
    using checked_eq [of "sys_close K (fd_num (wrapper b ?m))", OF k, of "''close''"]
    by (simp add: FileDescriptor_close_def io_defs SystemCall_ok)
  then have "FileDescriptor_release K b m = on_wrapper b (\<lambda>w. w\<lparr>fd_eof := True, fd_closed := True\<rparr>) (?m\<lparr>kernel := k\<rparr>)"
    using b last by (simp add: FileDescriptor_release_def FDWrapper_destroy_def Let_def)
  then show ?thesis using b by (simp add: on_wrapper_def last(1))
qed

lemma verify_option_wrappers: "verify_option N a option expected complaint m = (r, m') \<Longrightarrow> wrappers m' = wrappers m"
  by (auto simp: verify_option_def bindIO_eq dest: checked_wrappers split: if_splits)

lemma Socket_of_fd_cases:
  assumes "Socket_of_fd K N b domain type m = (res, m')"
  shows "(\<exists>e m1. res = Inl e \<and> wrappers m1 = wrappers m \<and> m' = FileDescriptor_release K b m1) \<or>
    res = Inr b \<and> wrappers m' = wrappers m"
  using assms
  by (auto simp: Socket_of_fd_def on_throw_def bindIO_eq split: prod.splits sum.splits dest!: verify_option_wrappers)

text \<open>
  \<open>accept\<close> does not leak descriptors: when it throws, be it that accept(2) fails, gives a bad number
  or a socket of another kind, every descriptor it has taken over is closed and given up; when it returns,
  the result is one open descriptor with one owner. close(2) is assumed to succeed; where it fails, the
  descriptor is given up but not marked as closed.
\<close>
theorem accept_does_not_leak:
  assumes "close_law K" and "TCPSocket_accept K N a m = (res, m')"
  shows "case res of
     Inl e \<Rightarrow> \<forall>w \<in> set (drop (length (wrappers m)) (wrappers m')). use_count w = 0 \<and> fd_closed w
   | Inr b \<Rightarrow> b = length (wrappers m) \<and> length (wrappers m') = b + 1 \<and>
       use_count (wrapper b m') = 1 \<and> \<not> fd_closed (wrapper b m') \<and> 0 \<le> fd_num (wrapper b m')"
proof -
  let ?m = "register_read a m" and ?n = "length (wrappers m)"
  obtain r1 m1 where c: "checked ''accept'' (sys_accept N (fd_num (wrapper a m))) ?m = (r1, m1)"
    by (cases "checked ''accept'' (sys_accept N (fd_num (wrapper a m))) ?m")
  have len: "length (wrappers m1) = ?n" using checked_wrappers [OF c] by simp
  consider e where "res = Inl e" "m' = m1"
    | fd m2 where "0 \<le> fd" "TCPSocket_of_fd K N ?n m2 = (res, m')"
        "wrappers m2 = wrappers m1 @ [\<lparr>fd_num = fd, fd_eof = False, fd_closed = False, fd_read_count = 0, fd_write_count = 0, use_count = 1\<rparr>]"
    using assms(2) c len
    by (auto simp: TCPSocket_accept_def bindIO_eq FileDescriptor_new_def FDWrapper_new_def not_less split: if_splits)
  then show ?thesis
  proof cases
    case 1
    then show ?thesis using len by simp
  next
    case 2
    from Socket_of_fd_cases [OF 2(2) [unfolded TCPSocket_of_fd_def]] show ?thesis
    proof
      assume "\<exists>e m3. res = Inl e \<and> wrappers m3 = wrappers m2 \<and> m' = FileDescriptor_release K ?n m3"
      then obtain e m3 where m3: "res = Inl e" "wrappers m3 = wrappers m2" "m' = FileDescriptor_release K ?n m3" by blast
      have "wrappers m' = (wrappers m3)[?n := (wrapper ?n m3)\<lparr>use_count := 0, fd_eof := True, fd_closed := True\<rparr>]"
        unfolding m3(3) by (rule release_last [OF assms(1)]) (simp_all add: m3(2) 2(3) len [symmetric])
      then show ?thesis using m3(1,2) 2(3) by (simp add: list_update_append len [symmetric])
    next
      assume "res = Inr ?n \<and> wrappers m' = wrappers m2"
      then show ?thesis using 2(1,3) by (simp add: len [symmetric])
    qed
  qed
qed

text \<open>An instance of the calls for a kernel whose descriptors are always the socket 7.\<close>

definition sample_sockets :: "((int \<Rightarrow> bytes) \<times> (int \<Rightarrow> bytes)) socket_calls" where
  "sample_sockets = \<lparr>
     sys_socket = \<lambda>domain type protocol k. ((7, 0, ()), k),
     sys_getsockopt = \<lambda>fd level option len k. ((0, 0, (if option = SO_DOMAIN then AF_UNIX else SOCK_STREAM, len)), k),
     sys_setsockopt = \<lambda>fd level option v k. ((0, 0, ()), k),
     sys_getsockname = \<lambda>fd len k. ((0, 0, ([], 0)), k),
     sys_getpeername = \<lambda>fd len k. ((0, 0, ([], 0)), k),
     sys_bind = \<lambda>fd address len k. ((0, 0, ()), k),
     sys_connect = \<lambda>fd address len k. ((0, 0, ()), k),
     sys_shutdown = \<lambda>fd how k. ((0, 0, ()), k),
     sys_recvfrom = \<lambda>fd len flags fromlen k. ((0, 0, ([], [], 0)), k),
     sys_sendmsg = \<lambda>fd destination iov k. ((int (length (concat (map fst iov))), 0, ()), k),
     sys_listen = \<lambda>fd backlog k. ((0, 0, ()), k),
     sys_accept = \<lambda>fd k. ((8, 0, ()), k),
     sys_open = \<lambda>path flags k. ((9, 0, ()), k),
     sys_tunsetiff = \<lambda>fd request k. ((0, 0, ()), k)\<rparr>"

lemma pipe_close: "close_law pipe_calls"
  by (simp add: close_law_def pipe_calls_def)

theorem accept_does_not_leak_witness:
  "\<exists>e m'. TCPSocket_accept pipe_calls sample_sockets 0 (pipe_machine []) = (Inl e, m') \<and>
     (\<forall>w \<in> set (drop 1 (wrappers m')). use_count w = 0 \<and> fd_closed w)"
proof -
  have "fst (TCPSocket_accept pipe_calls sample_sockets 0 (pipe_machine [])) = Inl (RuntimeError ''socket domain mismatch'')"
    by code_simp
  then obtain m' where run: "TCPSocket_accept pipe_calls sample_sockets 0 (pipe_machine []) =
      (Inl (RuntimeError ''socket domain mismatch''), m')"
    by (metis prod.collapse)
  then show ?thesis using accept_does_not_leak [OF pipe_close run] by (auto simp: pipe_machine_def)
qed

end
