(* ===== verification/Webget.thy ===== *)
theory Webget
  imports Sockets "HOL-Library.Sublist"
begin

text \<open>
  The program \<open>webget\<close> (apps/webget.cc): sends an HTTP request over a TCP socket and prints what comes
  back until the end of file. What is printed is part of the result. The read loop ends only with the
  input, so it is a partial function with the value \<open>None\<close> for a loop that does not end.
\<close>

type_synonym 'k web = "'k machine \<times> bytes"

definition crlf :: string where
  "crlf = [CHR 0x0D, CHR 0x0A]"

definition request_lines :: "string \<Rightarrow> string \<Rightarrow> string list" where
  "request_lines host path =
     [''GET '' @ path @ '' '' @ ''HTTP/1.1'' @ crlf, ''Host: '' @ host @ crlf, ''Connection:  close'' @ crlf @ crlf]"

partial_function (option) read_all_loop ::
  "'k fd_calls \<Rightarrow> FileDescriptor \<Rightarrow> 'k machine \<Rightarrow> bytes \<Rightarrow> ((cpp_error + unit) \<times> 'k web) option" where
  "read_all_loop K a m printed =
     (if fd_eof (wrapper a m) then Some (Inr (), m, printed)
      else case FileDescriptor_read K a npos m of
             (Inl e, m1) \<Rightarrow> Some (Inl e, m1, printed)
           | (Inr acc, m1) \<Rightarrow> read_all_loop K a m1 (printed @ acc))"

fun send_lines :: "'k fd_calls \<Rightarrow> FileDescriptor \<Rightarrow> string list \<Rightarrow> ('k machine, unit) io" where
  "send_lines K a [] = returnIO ()"
| "send_lines K a (l # ls) = bindIO (FileDescriptor_write_string K a (str_bytes l) True) (\<lambda>_. send_lines K a ls)"

text \<open>The body of \<open>get_URL\<close> between the construction of the socket and the read loop.\<close>

definition send_request ::
  "'k fd_calls \<Rightarrow> 'k socket_calls \<Rightarrow> getaddrinfo \<Rightarrow> FileDescriptor \<Rightarrow> string \<Rightarrow> string \<Rightarrow> ('k machine, unit) io" where
  "send_request K N gai a host path =
     bindIO (liftE (Address_named gai host ''http'')) (\<lambda>addr.
     bindIO (Socket_connect N a addr) (\<lambda>_.
     bindIO (send_lines K a (request_lines host path)) (\<lambda>_.
     Socket_shutdown N a SHUT_WR)))"

text \<open>Whatever way \<open>get_URL\<close> ends after the socket is made, the socket is destroyed.\<close>

definition get_URL ::
  "'k fd_calls \<Rightarrow> 'k socket_calls \<Rightarrow> getaddrinfo \<Rightarrow> string \<Rightarrow> string \<Rightarrow> 'k machine \<Rightarrow> ((cpp_error + unit) \<times> 'k web) option" where
  "get_URL K N gai host path m =
     (case TCPSocket_new N m of
        (Inl e, m) \<Rightarrow> Some (Inl e, m, [])
      | (Inr a, m) \<Rightarrow>
          (case send_request K N gai a host path m of
             (Inl e, m) \<Rightarrow> Some (Inl e, FileDescriptor_release K a m, [])
           | (Inr _, m) \<Rightarrow>
               (case read_all_loop K a m [] of
                  None \<Rightarrow> None
                | Some (Inl e, m, printed) \<Rightarrow> Some (Inl e, FileDescriptor_release K a m, printed)
                | Some (Inr _, m, printed) \<Rightarrow>
                    (case FileDescriptor_close K a m of
                       (res, m) \<Rightarrow> Some (res, FileDescriptor_release K a m, printed)))))"

datatype exit_status = EXIT_SUCCESS | EXIT_FAILURE | ABORTED | UNDEFINED

definition usage :: "string \<Rightarrow> string" where
  "usage program =
     ''Usage: '' @ program @ '' HOST PATH\<newline>'' @ [CHR 0x09] @ ''Example: '' @ program @ '' stanford.edu /class/cs144\<newline>''"

text \<open>
  \<open>main\<close> gives the exit status and what it prints on the error stream. Its \<open>catch\<close> takes exceptions, not
  undefined behaviour.
\<close>

definition webget_main ::
  "(int \<Rightarrow> string) \<Rightarrow> (int \<Rightarrow> string) \<Rightarrow> 'k fd_calls \<Rightarrow> 'k socket_calls \<Rightarrow> getaddrinfo \<Rightarrow> string list \<Rightarrow> 'k machine \<Rightarrow>
     (exit_status \<times> string \<times> 'k web) option" where
  "webget_main strerror gai_strerror K N gai argv m =
     (if length argv \<le> 0 then Some (ABORTED, [], m, [])
      else if length argv \<noteq> 3 then Some (EXIT_FAILURE, usage (argv ! 0), m, [])
      else let host = argv ! 1; path = argv ! 2
           in case get_URL K N gai host path m of
                None \<Rightarrow> None
              | Some (Inr _, m, printed) \<Rightarrow> Some (EXIT_SUCCESS, [], m, printed)
              | Some (Inl (UndefinedBehaviour w), m, printed) \<Rightarrow> Some (UNDEFINED, [], m, printed)
              | Some (Inl e, m, printed) \<Rightarrow> Some (EXIT_FAILURE, exception_what strerror gai_strerror e @ ''\<newline>'', m, printed))"

subsection \<open>The kernel and the server\<close>

text \<open>
  What is known of a TCP connection: the address the socket is connected to, what was sent, whether the
  sending side was shut down, and what was read. \<open>answer p x\<close> is what the server at the address p sends in
  answer to the bytes x, up to the end of file. The laws are those of socket(2), connect(2), writev(2),
  shutdown(2) and read(2) for a stream socket: a new socket has no history, whatever its number was used
  for before; a call returns -1 and sets \<open>errno\<close>, or does what it is documented to do; and once the request
  is complete, reads deliver the answer to what was sent, in pieces of any size, and 0 bytes only at its end.
\<close>

record tcp_stream =
  t_peer :: "(bytes \<times> uint32_t) option"
  t_sent :: bytes
  t_shut :: bool
  t_got :: bytes

type_synonym 'k tcp_view = "'k \<Rightarrow> int \<Rightarrow> tcp_stream"
type_synonym server = "bytes \<times> uint32_t \<Rightarrow> bytes \<Rightarrow> bytes"

definition socket_law :: "'k socket_calls \<Rightarrow> 'k tcp_view \<Rightarrow> bool" where
  "socket_law N view \<longleftrightarrow> (\<forall>d t p k r e u k'. sys_socket N d t p k = ((r, e, u), k') \<longrightarrow>
     (if r < 0 then r = - 1 \<and> e \<noteq> 0
      else r < 2 ^ 31 \<and> view k' r = \<lparr>t_peer = None, t_sent = [], t_shut = False, t_got = []\<rparr>))"

definition connect_law :: "'k socket_calls \<Rightarrow> 'k tcp_view \<Rightarrow> bool" where
  "connect_law N view \<longleftrightarrow> (\<forall>fd address len k r e u k'. sys_connect N fd address len k = ((r, e, u), k') \<longrightarrow>
     (if r = 0 then view k' fd = (view k fd)\<lparr>t_peer := Some (address, len)\<rparr> else r = - 1 \<and> e \<noteq> 0))"

definition shutdown_law :: "'k socket_calls \<Rightarrow> 'k tcp_view \<Rightarrow> bool" where
  "shutdown_law N view \<longleftrightarrow> (\<forall>fd k r e u k'. sys_shutdown N fd SHUT_WR k = ((r, e, u), k') \<longrightarrow>
     (if r = 0 then view k' fd = (view k fd)\<lparr>t_shut := True\<rparr> else r = - 1 \<and> e \<noteq> 0))"

definition send_law :: "'k fd_calls \<Rightarrow> 'k tcp_view \<Rightarrow> bool" where
  "send_law K view \<longleftrightarrow> writev_law K (\<lambda>k fd. t_sent (view k fd)) \<and>
     (\<forall>fd iov k fd'. let v = view k fd'; v' = view (snd (sys_writev K fd iov k)) fd'
        in t_peer v' = t_peer v \<and> t_shut v' = t_shut v \<and> t_got v' = t_got v)"

definition answer_law :: "'k fd_calls \<Rightarrow> 'k tcp_view \<Rightarrow> server \<Rightarrow> bool" where
  "answer_law K view answer \<longleftrightarrow> (\<forall>fd n k r e data k' p. sys_read K fd n k = ((r, e, data), k') \<longrightarrow>
     t_peer (view k fd) = Some p \<longrightarrow> t_shut (view k fd) \<longrightarrow>
     (if r < 0 then r = - 1 \<and> e \<noteq> 0
      else r \<le> 0x7ffff000 \<and> r \<le> uint n \<and> length data = nat r \<and>
           view k' fd = (view k fd)\<lparr>t_got := t_got (view k fd) @ data\<rparr> \<and>
           prefix (t_got (view k fd) @ data) (answer p (t_sent (view k fd))) \<and>
           (r = 0 \<and> n \<noteq> 0 \<longrightarrow> t_got (view k fd) = answer p (t_sent (view k fd)))))"

definition http_laws :: "'k fd_calls \<Rightarrow> 'k socket_calls \<Rightarrow> 'k tcp_view \<Rightarrow> server \<Rightarrow> bool" where
  "http_laws K N view answer \<longleftrightarrow>
     socket_law N view \<and> connect_law N view \<and> shutdown_law N view \<and> send_law K view \<and> answer_law K view answer"

lemma write_once_kernel:
  assumes "fd_write_once K a buffer written m = (r, m')"
  shows "kernel m' = snd (sys_writev K (fd_num (wrapper a m)) (bvl_as_iovecs buffer) (kernel m))"
  using assms by (auto simp: fd_write_once_def bindIO_eq dest!: checked_kernel split: if_splits)

lemma write_loop_keeps:
  "fd_write_loop K a write_all buffer written m = (r, m') \<Longrightarrow>
   \<forall>fd iov k. f (snd (sys_writev K fd iov k)) = f k \<Longrightarrow> f (kernel m') = f (kernel m)"
proof (induction K a write_all buffer written m arbitrary: m' rule: fd_write_loop.induct)
  case (1 K a write_all buffer written m)
  obtain r1 m1 where once: "fd_write_once K a buffer written m = (r1, m1)"
    by (cases "fd_write_once K a buffer written m")
  have "f (kernel m1) = f (kernel m)" using write_once_kernel [OF once] 1(3) by simp
  moreover have "m' = m1 \<or> (\<exists>b w. r1 = Inr (b, w) \<and> (write_all \<and> bvl_size b \<noteq> 0) \<and> fd_write_loop K a write_all b w m1 = (r, m'))"
    using 1(2) [unfolded fd_write_loop.simps [of K a write_all buffer written m]] once
    by (auto split: sum.splits if_splits)
  ultimately show ?case using 1(1) [OF once [symmetric] _ refl] 1(3) by metis
qed

subsection \<open>The read loop\<close>

definition reads_succeed :: "'k fd_calls \<Rightarrow> int \<Rightarrow> bool" where
  "reads_succeed K fd \<longleftrightarrow> (\<forall>a m. fd_num (wrapper a m) = fd \<longrightarrow> \<not> isl (fst (FileDescriptor_read K a npos m)))"

lemma read_answer:
  assumes law: "answer_law K view answer" and a: "a < length (wrappers m)"
    and run: "FileDescriptor_read K a npos m = (Inr s, m')"
  defines "fd \<equiv> fd_num (wrapper a m)"
  assumes v: "t_peer (view (kernel m) fd) = Some p" "t_shut (view (kernel m) fd)"
  shows "view (kernel m') fd = (view (kernel m) fd)\<lparr>t_got := t_got (view (kernel m) fd) @ s\<rparr>"
    and "prefix (t_got (view (kernel m) fd) @ s) (answer p (t_sent (view (kernel m) fd)))"
    and "s = [] \<longrightarrow> t_got (view (kernel m) fd) = answer p (t_sent (view (kernel m) fd))"
    and "wrappers m' = (wrappers m)[a := (wrapper a m)\<lparr>fd_eof := fd_eof (wrapper a m) \<or> s = [],
                                    fd_read_count := fd_read_count (wrapper a m) + 1\<rparr>]"
proof -
  let ?n = "min BUFFER_SIZE npos"
  have n: "?n \<noteq> 0" "0 < npos" by (simp_all add: min_def npos_def BUFFER_SIZE_def word_gt_0)
  obtain r data m1 where c: "checked ''read'' (sys_read K fd ?n) m = (Inr (r, data), m1)"
    and s: "0 \<le> r" "s = resize (nat r) (data @ drop (length data) (resize (unat ?n) []))"
      "m' = register_read a (if r = 0 then on_wrapper a (\<lambda>w. w\<lparr>fd_eof := True\<rparr>) m1 else m1)"
    using run n(2) by (auto simp: FileDescriptor_read_def FileDescriptor_read_into_def Let_def fd_def bindIO_eq split: if_splits)
  obtain x e k where call: "sys_read K fd ?n (kernel m) = ((x, e, data), k)" "m1 = m\<lparr>kernel := k\<rparr>" "r = to_int x" "0 \<le> r \<or> e = 0"
    using checked_Inr [OF c] by blast
  note l = law [unfolded answer_law_def, rule_format, OF call(1) v]
  have x: "r = x" "0 \<le> x" using l call(3,4) s(1) by (auto split: if_splits)
  then have sd: "s = data" using l s(2) by (simp add: resize_def)
  have z: "r = 0 \<longleftrightarrow> s = []" using l x sd by auto
  show "view (kernel m') fd = (view (kernel m) fd)\<lparr>t_got := t_got (view (kernel m) fd) @ s\<rparr>"
    using l x sd s(3) call(2) by simp
  show "prefix (t_got (view (kernel m) fd) @ s) (answer p (t_sent (view (kernel m) fd)))" using l x sd by simp
  show "s = [] \<longrightarrow> t_got (view (kernel m) fd) = answer p (t_sent (view (kernel m) fd))" using l x z n(1) by simp
  show "wrappers m' = (wrappers m)[a := (wrapper a m)\<lparr>fd_eof := fd_eof (wrapper a m) \<or> s = [],
                                    fd_read_count := fd_read_count (wrapper a m) + 1\<rparr>]"
    using s(3) z call(2) a by (auto intro!: arg_cong [where f = "list_update (wrappers m) a"] FDWrapper.equality)
qed

text \<open>The loop prints the rest of the answer: it always ends, and prints nothing else.\<close>

lemma read_all_answer:
  assumes law: "answer_law K view answer"
  shows "a < length (wrappers m) \<Longrightarrow> \<not> fd_eof (wrapper a m) \<Longrightarrow>
    t_peer (view (kernel m) (fd_num (wrapper a m))) = Some p \<Longrightarrow> t_shut (view (kernel m) (fd_num (wrapper a m))) \<Longrightarrow>
    t_sent (view (kernel m) (fd_num (wrapper a m))) = x \<Longrightarrow> t_got (view (kernel m) (fd_num (wrapper a m))) = printed \<Longrightarrow>
    prefix printed (answer p x) \<Longrightarrow>
    \<exists>res m' printed'. read_all_loop K a m printed = Some (res, m', printed') \<and> prefix printed' (answer p x) \<and>
      (res = Inr () \<longrightarrow> printed' = answer p x) \<and> (reads_succeed K (fd_num (wrapper a m)) \<longrightarrow> res = Inr ())"
proof (induction "length (answer p x) - length printed" arbitrary: m printed rule: less_induct)
  case less
  let ?fd = "fd_num (wrapper a m)"
  obtain r m1 where rd: "FileDescriptor_read K a npos m = (r, m1)" by (cases "FileDescriptor_read K a npos m")
  note unfold = read_all_loop.simps [of K a m]
  show ?case
  proof (cases r)
    case (Inl e)
    then have "\<not> reads_succeed K ?fd" using rd by (auto simp: reads_succeed_def intro!: exI [of _ a] exI [of _ m])
    then show ?thesis using Inl rd less.prems(2,7) by (simp add: unfold)
  next
    case (Inr s)
    note e = read_answer [OF law less.prems(1) rd [unfolded Inr] less.prems(3,4), unfolded less.prems(5,6)]
    have w: "fd_num (wrapper a m1) = ?fd" "fd_eof (wrapper a m1) \<longleftrightarrow> s = []" "a < length (wrappers m1)"
      using e(4) less.prems(1,2) by simp_all
    show ?thesis
    proof (cases "s = []")
      case True
      then show ?thesis using Inr rd less.prems(2) w(2) e(3) by (simp add: unfold read_all_loop.simps [of K a m1])
    next
      case False
      have "length (printed @ s) \<le> length (answer p x)" by (rule prefix_length_le [OF e(2)])
      then have shorter: "length (answer p x) - length (printed @ s) < length (answer p x) - length printed"
        using False by (cases s) auto
      have "\<exists>res m' printed'. read_all_loop K a m1 (printed @ s) = Some (res, m', printed') \<and> prefix printed' (answer p x) \<and>
          (res = Inr () \<longrightarrow> printed' = answer p x) \<and> (reads_succeed K (fd_num (wrapper a m1)) \<longrightarrow> res = Inr ())"
        by (rule less.hyps [OF shorter]) (use w False e less.prems in simp_all)
      then show ?thesis using Inr rd less.prems(2) w(1) by (simp add: unfold)
    qed
  qed
qed

subsection \<open>The request\<close>

text \<open>The effect of the steps before the read loop: they keep the descriptor open for reading.\<close>

definition same_fd :: "FileDescriptor \<Rightarrow> 'k machine \<Rightarrow> 'k machine \<Rightarrow> bool" where
  "same_fd a m m' \<longleftrightarrow> a < length (wrappers m') \<and>
     fd_num (wrapper a m') = fd_num (wrapper a m) \<and> fd_eof (wrapper a m') = fd_eof (wrapper a m)"

lemma write_string_effect:
  assumes law: "send_law K view" and a: "a < length (wrappers m)" and len: "length l < 2 ^ 63"
    and run: "FileDescriptor_write_string K a (str_bytes l) True m = (Inr t, m')"
  defines "fd \<equiv> fd_num (wrapper a m)"
  shows "view (kernel m') fd = (view (kernel m) fd)\<lparr>t_sent := t_sent (view (kernel m) fd) @ str_bytes l\<rparr>" and "same_fd a m m'"
proof -
  let ?b = "BufferViewList_of_string (str_bytes l)" and ?sent = "\<lambda>k fd. t_sent (view k fd)"
  let ?rest = "\<lambda>k fd. (t_peer (view k fd), t_shut (view k fd), t_got (view k fd))"
  have b: "bvl_str ?b = str_bytes l" by (simp add: bvl_str_def BufferViewList_of_string_def)
  have loop: "fd_write_loop K a True ?b 0 m = (Inr t, m')"
    using run by (simp add: FileDescriptor_write_string_def FileDescriptor_write_def)
  have "length (str_bytes l) = length l" by (simp add: str_bytes_def)
  then have "writev_law K ?sent" "length (bvl_str ?b) < 2 ^ 63" using law len by (simp_all add: send_law_def b)
  from writev_loop_law [OF loop this a] b
  have "?sent (kernel m') = (?sent (kernel m))(fd := ?sent (kernel m) fd @ str_bytes l)" by (auto simp: fd_def)
  then have "t_sent (view (kernel m') fd) = t_sent (view (kernel m) fd) @ str_bytes l" by (auto dest: fun_cong [of _ _ fd])
  moreover have "?rest (kernel m') = ?rest (kernel m)"
    by (rule write_loop_keeps [OF loop]) (use law in \<open>auto simp: send_law_def Let_def\<close>)
  then have "?rest (kernel m') fd = ?rest (kernel m) fd" by (rule fun_cong)
  ultimately show "view (kernel m') fd = (view (kernel m) fd)\<lparr>t_sent := t_sent (view (kernel m) fd) @ str_bytes l\<rparr>" by simp
  show "same_fd a m m'" using fd_write_loop_count [OF loop a] a by (auto simp: same_fd_def)
qed

lemma send_lines_effect:
  assumes law: "send_law K view"
  shows "send_lines K a ls m = (Inr (), m') \<Longrightarrow> a < length (wrappers m) \<Longrightarrow> \<forall>l \<in> set ls. length l < 2 ^ 63 \<Longrightarrow>
    view (kernel m') (fd_num (wrapper a m)) = (view (kernel m) (fd_num (wrapper a m)))
      \<lparr>t_sent := t_sent (view (kernel m) (fd_num (wrapper a m))) @ str_bytes (concat ls)\<rparr> \<and> same_fd a m m'"
proof (induction ls arbitrary: m)
  case Nil
  then show ?case by (simp add: same_fd_def str_bytes_def)
next
  case (Cons l ls)
  obtain t m1 where w: "FileDescriptor_write_string K a (str_bytes l) True m = (Inr t, m1)"
    and rest: "send_lines K a ls m1 = (Inr (), m')"
    using Cons.prems(1) by (auto simp: bindIO_eq)
  note e = write_string_effect [OF law Cons.prems(2) _ w]
  have len: "length l < 2 ^ 63" using Cons.prems(3) by simp
  have same: "fd_num (wrapper a m1) = fd_num (wrapper a m)" "a < length (wrappers m1)" using e(2) [OF len] by (simp_all add: same_fd_def)
  show ?case
    using Cons.IH [OF rest same(2)] Cons.prems(3) e [OF len] same(1) by (auto simp: same_fd_def str_bytes_def)
qed

lemma checked_zero:
  assumes "checked attempt call m = (Inr (n, u), m')" and "\<And>r e u k'. call (kernel m) = ((r, e, u), k') \<Longrightarrow> r = 0 \<and> P k' \<or> r = - 1 \<and> e \<noteq> 0"
  shows "wrappers m' = wrappers m \<and> P (kernel m')"
  using checked_Inr [OF assms(1)] assms(2) by fastforce

lemma send_request_effect:
  assumes laws: "http_laws K N view answer" and a: "a < length (wrappers m)"
    and len: "length host < 2 ^ 62" "length path < 2 ^ 62"
    and new: "view (kernel m) (fd_num (wrapper a m)) = \<lparr>t_peer = None, t_sent = [], t_shut = False, t_got = []\<rparr>"
    and run: "send_request K N gai a host path m = (Inr (), m')"
  shows "\<exists>addr. Address_named gai host ''http'' = Inr addr \<and> view (kernel m') (fd_num (wrapper a m)) =
      \<lparr>t_peer = Some (addr_storage addr, addr_size addr), t_sent = str_bytes (concat (request_lines host path)),
       t_shut = True, t_got = []\<rparr> \<and> same_fd a m m'"
proof -
  let ?fd = "fd_num (wrapper a m)"
  obtain addr m1 m2 where addr: "Address_named gai host ''http'' = Inr addr" and c: "Socket_connect N a addr m = (Inr (), m1)"
    and s: "send_lines K a (request_lines host path) m1 = (Inr (), m2)" and d: "Socket_shutdown N a SHUT_WR m2 = (Inr (), m')"
    using run by (auto simp: send_request_def bindIO_eq dest!: sym [of "Inr _"])
  obtain x where "checked ''connect'' (sys_connect N ?fd (addr_storage addr) (addr_size addr)) m = (Inr (x, ()), m1)"
    using c by (auto simp: Socket_connect_def bindIO_eq)
  then have m1: "wrappers m1 = wrappers m \<and>
      view (kernel m1) ?fd = (view (kernel m) ?fd)\<lparr>t_peer := Some (addr_storage addr, addr_size addr)\<rparr>"
    by (rule checked_zero) (use laws in \<open>fastforce simp: http_laws_def connect_law_def split: if_splits\<close>)
  have "\<forall>l \<in> set (request_lines host path). length l < 2 ^ 63" using len by (simp add: request_lines_def crlf_def)
  note e = send_lines_effect [OF _ s _ this, of view]
  have m2: "view (kernel m2) ?fd = \<lparr>t_peer = Some (addr_storage addr, addr_size addr),
      t_sent = str_bytes (concat (request_lines host path)), t_shut = False, t_got = []\<rparr>" "same_fd a m m2"
    using e laws m1 a new by (auto simp: http_laws_def same_fd_def)
  obtain y m3 where sh: "checked ''shutdown'' (sys_shutdown N (fd_num (wrapper a m2)) SHUT_WR) m2 = (Inr (y, ()), m3)"
    and m3: "m' = register_write a m3"
    using d by (auto simp: Socket_shutdown_def bindIO_eq SHUT_RD_def SHUT_WR_def SHUT_RDWR_def)
  have fd: "fd_num (wrapper a m2) = ?fd" using m2(2) by (simp add: same_fd_def)
  have "wrappers m3 = wrappers m2 \<and> view (kernel m3) ?fd = (view (kernel m2) ?fd)\<lparr>t_shut := True\<rparr>"
    by (rule checked_zero [OF sh]) (use laws fd in \<open>fastforce simp: http_laws_def shutdown_law_def split: if_splits\<close>)
  then show ?thesis using addr m2 m3 a by (auto simp: same_fd_def)
qed

lemma new_socket_effect:
  assumes law: "socket_law N view" and run: "TCPSocket_new N m = (Inr a, m')"
  shows "a < length (wrappers m')" "\<not> fd_eof (wrapper a m')"
    "view (kernel m') (fd_num (wrapper a m')) = \<lparr>t_peer = None, t_sent = [], t_shut = False, t_got = []\<rparr>"
proof -
  obtain fd m1 where c: "checked ''socket'' (sys_socket N AF_INET SOCK_STREAM 0) m = (Inr (fd, ()), m1)"
    and n: "FDWrapper_new fd m1 = (Inr a, m')"
    using run by (auto simp: TCPSocket_new_def Socket_new_def FileDescriptor_new_def bindIO_eq)
  obtain r e k where call: "sys_socket N AF_INET SOCK_STREAM 0 (kernel m) = ((r, e, ()), k)" "m1 = m\<lparr>kernel := k\<rparr>"
      "fd = to_int r" "0 \<le> fd \<or> e = 0"
    using checked_Inr [OF c] by blast
  have "fd = r" "view k r = \<lparr>t_peer = None, t_sent = [], t_shut = False, t_got = []\<rparr>"
    using law [unfolded socket_law_def, rule_format, OF call(1)] call(3,4) by (auto split: if_splits)
  then show "a < length (wrappers m')" "\<not> fd_eof (wrapper a m')"
    "view (kernel m') (fd_num (wrapper a m')) = \<lparr>t_peer = None, t_sent = [], t_shut = False, t_got = []\<rparr>"
    using n call(2) by (auto simp: FDWrapper_new_def split: if_splits)
qed

text \<open>The three lines as one request.\<close>

definition http_request :: "string \<Rightarrow> string \<Rightarrow> string" where
  "http_request host path =
     ''GET '' @ path @ '' HTTP/1.1'' @ [CHR 0x0D, CHR 0x0A] @ ''Host: '' @ host @ [CHR 0x0D, CHR 0x0A] @
     ''Connection:  close'' @ [CHR 0x0D, CHR 0x0A, CHR 0x0D, CHR 0x0A]"

lemma request_lines_eq: "concat (request_lines host path) = http_request host path"
  by (simp add: request_lines_def http_request_def crlf_def)

subsection \<open>Properties\<close>

text \<open>
  (C27) \<open>get_URL\<close> always ends, and when it ends without an exception it has done its job: it has printed
  exactly what the server at the address of the http service of the host answers to the request for the
  path, a GET in HTTP/1.1 with the fields Host and Connection and an empty line, whatever the answer of
  that server to that request is, and however the kernel splits the data over the reads and writes. When it
  ends with an exception it has printed a part of that answer, from its beginning, and nothing else.
  The server's answer is assumed to depend only on its address and the request, and to end.
\<close>
theorem get_URL_spec:
  assumes "http_laws K N view answer" and "length host < 2 ^ 62" and "length path < 2 ^ 62"
  shows "\<exists>res m' printed. get_URL K N gai host path m = Some (res, m', printed) \<and>
    (case Address_named gai host ''http'' of
       Inl e \<Rightarrow> res \<noteq> Inr () \<and> printed = []
     | Inr addr \<Rightarrow>
         let expected = answer (addr_storage addr, addr_size addr)
               (str_bytes (''GET '' @ path @ '' HTTP/1.1'' @ [CHR 0x0D, CHR 0x0A] @
                  ''Host: '' @ host @ [CHR 0x0D, CHR 0x0A] @
                  ''Connection:  close'' @ [CHR 0x0D, CHR 0x0A, CHR 0x0D, CHR 0x0A]))
         in prefix printed expected \<and> (res = Inr () \<longrightarrow> printed = expected))"
proof -
  let ?expected = "\<lambda>addr. answer (addr_storage addr, addr_size addr) (str_bytes (http_request host path))"
  have "\<exists>res m' printed. get_URL K N gai host path m = Some (res, m', printed) \<and>
      (case Address_named gai host ''http'' of Inl e \<Rightarrow> res \<noteq> Inr () \<and> printed = []
       | Inr addr \<Rightarrow> prefix printed (?expected addr) \<and> (res = Inr () \<longrightarrow> printed = ?expected addr))"
  proof -
    obtain r1 m1 where n: "TCPSocket_new N m = (r1, m1)" by (cases "TCPSocket_new N m")
    show ?thesis
    proof (cases r1)
      case (Inl e)
      then show ?thesis using n by (simp add: get_URL_def split: sum.split)
    next
      case r1: (Inr a)
      note ns = new_socket_effect [of N view, OF _ n [unfolded r1]]
      have sl: "socket_law N view" "answer_law K view answer" using assms(1) by (simp_all add: http_laws_def)
      obtain r2 m2 where s: "send_request K N gai a host path m1 = (r2, m2)" by (cases "send_request K N gai a host path m1")
      show ?thesis
      proof (cases r2)
        case (Inl e)
        then show ?thesis using n s r1 by (simp add: get_URL_def split: sum.split)
      next
        case (Inr u)
        then have r2: "r2 = Inr ()" by simp
        obtain addr where addr: "Address_named gai host ''http'' = Inr addr" and same: "same_fd a m1 m2"
          and v: "view (kernel m2) (fd_num (wrapper a m1)) = \<lparr>t_peer = Some (addr_storage addr, addr_size addr),
             t_sent = str_bytes (http_request host path), t_shut = True, t_got = []\<rparr>"
          using send_request_effect [OF assms(1) ns(1) assms(2,3) ns(3) s [unfolded r2]] sl(1)
          by (auto simp: request_lines_eq)
        have "\<exists>res m' printed'. read_all_loop K a m2 [] = Some (res, m', printed') \<and> prefix printed' (?expected addr) \<and>
            (res = Inr () \<longrightarrow> printed' = ?expected addr) \<and> (reads_succeed K (fd_num (wrapper a m2)) \<longrightarrow> res = Inr ())"
          by (rule read_all_answer [OF sl(2)]) (use same v ns(2) [OF sl(1)] in \<open>auto simp: same_fd_def\<close>)
        then obtain res m3 printed where l: "read_all_loop K a m2 [] = Some (res, m3, printed)"
            "prefix printed (?expected addr)" "res = Inr () \<longrightarrow> printed = ?expected addr" by blast
        obtain r4 m4 where c: "FileDescriptor_close K a m3 = (r4, m4)" by (cases "FileDescriptor_close K a m3")
        show ?thesis using n s r1 r2 l c addr by (cases res) (auto simp: get_URL_def)
      qed
    qed
  qed
  then show ?thesis unfolding http_request_def Let_def .
qed

text \<open>
  An instance: servers that send back what they are sent, and one socket, number 7. Its state is what has
  come back and what is still under way. writev(2) takes up to a hundred bytes at a time, read(2) gives up
  to fifty.
\<close>

record echo_stream =
  e_peer :: "(bytes \<times> uint32_t) option"
  e_back :: bytes
  e_way :: bytes
  e_shut :: bool

definition echo_new :: echo_stream where
  "echo_new = \<lparr>e_peer = None, e_back = [], e_way = [], e_shut = False\<rparr>"

definition echo_calls :: "echo_stream fd_calls" where
  "echo_calls = \<lparr>
     sys_close = \<lambda>fd k. ((0, 0, ()), k),
     sys_read = \<lambda>fd n k.
       (if fd \<noteq> 7 then ((- 1, 9, []), k)
        else let data = take (min 50 (unat n)) (e_way k)
             in ((int (length data), 0, data), k\<lparr>e_back := e_back k @ data, e_way := drop (length data) (e_way k)\<rparr>)),
     sys_writev = \<lambda>fd iov k.
       (if fd \<noteq> 7 then ((- 1, 9, ()), k)
        else let data = take 100 (concat (map fst iov)) in ((int (length data), 0, ()), k\<lparr>e_way := e_way k @ data\<rparr>)),
     sys_getfl = \<lambda>fd k. ((0, 0, ()), k),
     sys_setfl = \<lambda>fd flags k. ((0, 0, ()), k)\<rparr>"

definition echo_sockets :: "echo_stream socket_calls" where
  "echo_sockets = \<lparr>
     sys_socket = \<lambda>domain type protocol k. ((7, 0, ()), echo_new),
     sys_getsockopt = \<lambda>fd level option len k. ((0, 0, (0, len)), k),
     sys_setsockopt = \<lambda>fd level option v k. ((0, 0, ()), k),
     sys_getsockname = \<lambda>fd len k. ((0, 0, ([], 0)), k),
     sys_getpeername = \<lambda>fd len k. ((0, 0, ([], 0)), k),
     sys_bind = \<lambda>fd address len k. ((0, 0, ()), k),
     sys_connect = \<lambda>fd address len k. (if fd \<noteq> 7 then ((- 1, 9, ()), k) else ((0, 0, ()), k\<lparr>e_peer := Some (address, len)\<rparr>)),
     sys_shutdown = \<lambda>fd how k. (if fd \<noteq> 7 then ((- 1, 9, ()), k) else ((0, 0, ()), k\<lparr>e_shut := True\<rparr>)),
     sys_recvfrom = \<lambda>fd len flags fromlen k. ((0, 0, ([], [], 0)), k),
     sys_sendmsg = \<lambda>fd destination iov k. ((- 1, 5, ()), k),
     sys_listen = \<lambda>fd backlog k. ((0, 0, ()), k),
     sys_accept = \<lambda>fd k. ((8, 0, ()), k),
     sys_open = \<lambda>path flags k. ((9, 0, ()), k),
     sys_tunsetiff = \<lambda>fd request k. ((0, 0, ()), k)\<rparr>"

definition echo_view :: "echo_stream tcp_view" where
  "echo_view k fd =
     (if fd = 7 then \<lparr>t_peer = e_peer k, t_sent = e_back k @ e_way k, t_shut = e_shut k, t_got = e_back k\<rparr>
      else \<lparr>t_peer = None, t_sent = [], t_shut = False, t_got = []\<rparr>)"

definition echo_machine :: "echo_stream machine" where
  "echo_machine = \<lparr>wrappers = [], kernel = echo_new\<rparr>"

lemma echo_answer: "answer_law echo_calls echo_view (\<lambda>p x. x)"
  unfolding answer_law_def
proof (intro allI impI)
  fix fd n k r e data k' p
  assume run: "sys_read echo_calls fd n k = ((r, e, data), k')" and p: "t_peer (echo_view k fd) = Some p"
  have fd: "fd = 7" using p by (simp add: echo_view_def split: if_splits)
  have d: "data = take (min 50 (unat n)) (e_way k)" "r = int (length data)"
      "k' = k\<lparr>e_back := e_back k @ data, e_way := drop (length data) (e_way k)\<rparr>"
    using run by (auto simp: echo_calls_def Let_def fd)
  have "length data \<le> 50" "length data \<le> unat n" by (simp_all add: d(1))
  moreover from this(2) have "int (length data) \<le> uint n" by (simp only: uint_nat of_nat_le_iff)
  moreover have split: "data @ drop (length data) (e_way k) = e_way k"
    unfolding d(1) by (metis append_take_drop_id length_take min_def take_all nat_le_linear drop_all append_Nil2)
  moreover have "e_way k = []" if "data = []" "n \<noteq> 0"
    using d(1) that unat_gt_0 [of n] by (auto simp: min_def split: if_splits)
  moreover have "prefix data (e_way k)" by (simp add: d(1) take_is_prefix)
  ultimately show "if r < 0 then r = - 1 \<and> e \<noteq> 0
      else r \<le> 0x7ffff000 \<and> r \<le> uint n \<and> length data = nat r \<and>
           echo_view k' fd = (echo_view k fd)\<lparr>t_got := t_got (echo_view k fd) @ data\<rparr> \<and>
           prefix (t_got (echo_view k fd) @ data) (t_sent (echo_view k fd)) \<and>
           (r = 0 \<and> n \<noteq> 0 \<longrightarrow> t_got (echo_view k fd) = t_sent (echo_view k fd))"
    using d(2,3) fd by (simp add: echo_view_def)
qed

lemma echo_laws: "http_laws echo_calls echo_sockets echo_view (\<lambda>p x. x)"
proof -
  have "writev_law echo_calls (\<lambda>k fd. t_sent (echo_view k fd))"
    by (auto simp: writev_law_def echo_calls_def echo_view_def Let_def min_def split: if_splits intro!: ext)
  then have "send_law echo_calls echo_view" by (simp add: send_law_def echo_calls_def echo_view_def Let_def)
  moreover have "socket_law echo_sockets echo_view" "connect_law echo_sockets echo_view" "shutdown_law echo_sockets echo_view"
    by (auto simp: socket_law_def connect_law_def shutdown_law_def echo_sockets_def echo_view_def echo_new_def split: if_splits)
  ultimately show ?thesis using echo_answer by (simp add: http_laws_def)
qed

lemma echo_reads: "reads_succeed echo_calls 7"
  unfolding reads_succeed_def
proof (intro allI impI)
  fix a and m :: "echo_stream machine"
  assume fd: "fd_num (wrapper a m) = 7"
  let ?d = "take 50 (e_way (kernel m))"
  have n: "unat (min BUFFER_SIZE npos) = 2 ^ 20" "uint (min BUFFER_SIZE npos) = 2 ^ 20"
    by (simp_all add: min_def npos_def BUFFER_SIZE_def)
  obtain k where "sys_read echo_calls 7 (min BUFFER_SIZE npos) (kernel m) = ((int (length ?d), 0, ?d), k)"
    using n(1) by (simp add: echo_calls_def Let_def)
  note c = checked_eq [of "sys_read echo_calls 7 (min BUFFER_SIZE npos)", OF this, of "''read''"]
  show "\<not> isl (fst (FileDescriptor_read echo_calls a npos m))"
    using n(2) by (simp add: FileDescriptor_read_def FileDescriptor_read_into_def Let_def io_defs SystemCall_ok c fd)
qed

theorem get_URL_spec_witness:
  "\<exists>m'. get_URL echo_calls echo_sockets (\<lambda>_ _ _. (0, Some ([], 0))) ''h'' ''/'' echo_machine =
     Some (Inr (), m', str_bytes (''GET / HTTP/1.1'' @ [CHR 0x0D, CHR 0x0A] @ ''Host: h'' @ [CHR 0x0D, CHR 0x0A] @
       ''Connection:  close'' @ [CHR 0x0D, CHR 0x0A, CHR 0x0D, CHR 0x0A]))"
proof -
  let ?g = "\<lambda>_ _ _. (0, Some ([], 0))" and ?m = echo_machine
  have "fst (TCPSocket_new echo_sockets ?m) = Inr 0 \<and> fd_num (wrapper 0 (snd (TCPSocket_new echo_sockets ?m))) = 7" by code_simp
  then obtain m1 where 1: "TCPSocket_new echo_sockets ?m = (Inr 0, m1)" "fd_num (wrapper 0 m1) = 7" by (metis prod.collapse)
  have "fst (send_request echo_calls echo_sockets ?g 0 ''h'' ''/'' (snd (TCPSocket_new echo_sockets ?m))) = Inr ()" by code_simp
  then obtain m2 where 2: "send_request echo_calls echo_sockets ?g 0 ''h'' ''/'' m1 = (Inr (), m2)"
    by (metis prod.collapse 1(1) snd_conv)
  have laws: "socket_law echo_sockets echo_view" "answer_law echo_calls echo_view (\<lambda>p x. x)"
    using echo_laws by (simp_all add: http_laws_def)
  note new = new_socket_effect [OF laws(1) 1(1)]
  obtain addr where addr: "Address_named ?g ''h'' ''http'' = Inr addr" and same: "same_fd 0 m1 m2"
    and v: "echo_view (kernel m2) 7 = \<lparr>t_peer = Some (addr_storage addr, addr_size addr),
       t_sent = str_bytes (concat (request_lines ''h'' ''/'')), t_shut = True, t_got = []\<rparr>"
    using send_request_effect [OF echo_laws new(1) _ _ new(3) 2] 1(2) by auto
  have fd: "fd_num (wrapper 0 m2) = 7" using same 1(2) by (simp add: same_fd_def)
  have "\<exists>res m' printed'. read_all_loop echo_calls 0 m2 [] = Some (res, m', printed') \<and>
      prefix printed' (str_bytes (concat (request_lines ''h'' ''/''))) \<and>
      (res = Inr () \<longrightarrow> printed' = str_bytes (concat (request_lines ''h'' ''/''))) \<and>
      (reads_succeed echo_calls (fd_num (wrapper 0 m2)) \<longrightarrow> res = Inr ())"
    by (rule read_all_answer [OF laws(2)]) (use same v new(2) fd in \<open>auto simp: same_fd_def\<close>)
  then obtain m3 printed where 3: "read_all_loop echo_calls 0 m2 [] = Some (Inr (), m3, printed)" using fd echo_reads by auto
  have "fst (FileDescriptor_close echo_calls 0 m3) = Inr ()"
    using checked_eq [of "sys_close echo_calls (fd_num (wrapper 0 m3))" m3]
    by (simp add: FileDescriptor_close_def io_defs echo_calls_def SystemCall_ok)
  then obtain m4 where 4: "FileDescriptor_close echo_calls 0 m3 = (Inr (), m4)" by (metis prod.collapse)
  have run: "get_URL echo_calls echo_sockets ?g ''h'' ''/'' ?m = Some (Inr (), FileDescriptor_release echo_calls 0 m4, printed)"
    by (simp add: get_URL_def 1(1) 2 3 4)
  show ?thesis
    using get_URL_spec [OF echo_laws, where host = "''h''" and path = "''/''" and m = ?m and gai = ?g] run addr
    by (simp add: Let_def)
qed

end
