(* ===== verification/Descriptor_Scopes.thy ===== *)
theory Descriptor_Scopes
  imports Sockets
begin

text \<open>
  Scopes of descriptors. A local variable that holds a descriptor gives it up when its scope is left,
  by a return or by an exception. Code is \<open>leak_free\<close> when it leaves every descriptor it has made given
  up, and closed where close(2) succeeds, and keeps the owners of those that were there before. This
  composes, so that a program made of the operations of \<open>FileDescriptor\<close> and the sockets, and of scopes, leaks nothing.
\<close>

definition scoped :: "'k fd_calls \<Rightarrow> FileDescriptor \<Rightarrow> ('k machine, 'a) io \<Rightarrow> ('k machine, 'a) io" where
  "scoped K a f m = (case f m of (r, m') \<Rightarrow> (r, FileDescriptor_release K a m'))"

lemma scoped_eq: "scoped K a f m = (r, m') \<longleftrightarrow> (\<exists>m1. f m = (r, m1) \<and> m' = FileDescriptor_release K a m1)"
  by (auto simp: scoped_def split: prod.splits)

text \<open>
  \<open>c\<close> says whether close(2) is known to succeed; a wrapper whose close(2) has failed is given up but not
  marked as closed.
\<close>

definition owned :: "bool \<Rightarrow> FDWrapper list \<Rightarrow> FDWrapper list \<Rightarrow> bool" where
  "owned c ws ws' \<longleftrightarrow> length ws \<le> length ws' \<and>
     (\<forall>i < length ws. use_count (ws' ! i) = use_count (ws ! i) \<and> (fd_closed (ws ! i) \<longrightarrow> fd_closed (ws' ! i))) \<and>
     (\<forall>i < length ws'. length ws \<le> i \<longrightarrow> use_count (ws' ! i) = 0 \<and> (c \<longrightarrow> fd_closed (ws' ! i)))"

definition leak_free :: "bool \<Rightarrow> ('k machine, 'a) io \<Rightarrow> bool" where
  "leak_free c f \<longleftrightarrow> (\<forall>m r m'. f m = (r, m') \<longrightarrow> owned c (wrappers m) (wrappers m'))"

text \<open>Code that makes one descriptor, or throws and has made none that is left.\<close>

definition creates :: "bool \<Rightarrow> ('k machine, FileDescriptor) io \<Rightarrow> bool" where
  "creates c f \<longleftrightarrow> (\<forall>m r m'. f m = (r, m') \<longrightarrow>
     (case r of Inl e \<Rightarrow> owned c (wrappers m) (wrappers m')
      | Inr a \<Rightarrow> \<exists>ws w. owned c (wrappers m) ws \<and> a = length ws \<and> wrappers m' = ws @ [w] \<and> use_count w = 1))"

lemma owned_refl [simp]: "owned c ws ws"
  by (simp add: owned_def)

lemma owned_trans:
  assumes a: "owned c ws ws'" and b: "owned c ws' ws''"
  shows "owned c ws ws''"
proof -
  have "use_count (ws'' ! i) = 0 \<and> (c \<longrightarrow> fd_closed (ws'' ! i))" if "i < length ws''" "length ws \<le> i" for i
    using a b that by (cases "i < length ws'") (simp_all add: owned_def)
  then show ?thesis using a b by (simp add: owned_def)
qed

lemma owned_update:
  "use_count w = use_count (ws ! a) \<Longrightarrow> (fd_closed (ws ! a) \<longrightarrow> fd_closed w) \<Longrightarrow> owned c ws (ws[a := w])"
  by (cases "a < length ws") (auto simp: owned_def nth_list_update)

named_theorems leak_free_intros

lemma leak_free_pure [leak_free_intros]: "leak_free c (returnIO x)" "leak_free c (throwIO e)" "leak_free c (liftE v)"
  by (simp_all add: leak_free_def)

lemma leak_free_bind [leak_free_intros]: "leak_free c f \<Longrightarrow> (\<And>x. leak_free c (g x)) \<Longrightarrow> leak_free c (bindIO f g)"
  unfolding leak_free_def bindIO_eq by (blast intro: owned_trans)

lemma leak_free_if [leak_free_intros]: "leak_free c f \<Longrightarrow> leak_free c g \<Longrightarrow> leak_free c (if b then f else g)"
  by simp

lemma leak_free_case [leak_free_intros]: "(\<And>x y. leak_free c (f x y)) \<Longrightarrow> leak_free c (case p of (x, y) \<Rightarrow> f x y)"
  by (simp split: prod.split)

lemma leak_free_modify_if [leak_free_intros]: "leak_free c (modifyIO f) \<Longrightarrow> leak_free c (modifyIO g) \<Longrightarrow> leak_free c (modifyIO (if b then f else g))"
  by simp

lemma leak_free_at: "(\<And>m. leak_free c (bindIO (f m) (g m))) \<Longrightarrow> leak_free c (\<lambda>m. bindIO (f m) (g m) m)"
  unfolding leak_free_def by blast

lemma leak_free_checked [leak_free_intros]: "leak_free c (checked attempt call)"
  by (auto simp: leak_free_def dest: checked_wrappers)

lemma leak_free_counts [leak_free_intros]:
  "leak_free c (modifyIO (register_read a))" "leak_free c (modifyIO (register_write a))" "leak_free c (modifyIO id)"
  "leak_free c (modifyIO (on_wrapper a (\<lambda>w. w\<lparr>fd_eof := True\<rparr>)))"
  "leak_free c (modifyIO (on_wrapper a (\<lambda>w. w\<lparr>fd_eof := True, fd_closed := True\<rparr>)))"
  by (auto simp: leak_free_def intro!: owned_update)

lemma leak_free_both_counts [leak_free_intros]: "leak_free c (modifyIO (\<lambda>m. register_write a (register_read a m)))"
proof -
  have eq: "modifyIO (\<lambda>m. register_write a (register_read a m)) =
      bindIO (modifyIO (register_read a)) (\<lambda>_. modifyIO (register_write a))"
    by (rule ext) (simp add: io_defs)
  show ?thesis unfolding eq by (intro leak_free_intros)
qed

lemma leak_free_read [leak_free_intros]: "leak_free c (FileDescriptor_read K a limit)"
  unfolding FileDescriptor_read_def FileDescriptor_read_into_def [abs_def] Let_def
  by (rule leak_free_at) (intro leak_free_intros)

lemma leak_free_write_once: "leak_free c (fd_write_once K a buffer written)"
  unfolding fd_write_once_def [abs_def] by (rule leak_free_at) (intro leak_free_intros)

lemma leak_free_write_loop: "fd_write_loop K a write_all buffer written m = (r, m') \<Longrightarrow> owned c (wrappers m) (wrappers m')"
proof (induction K a write_all buffer written m arbitrary: m' rule: fd_write_loop.induct)
  case (1 K a write_all buffer written m)
  obtain r1 m1 where once: "fd_write_once K a buffer written m = (r1, m1)"
    by (cases "fd_write_once K a buffer written m")
  have "owned c (wrappers m) (wrappers m1)" using leak_free_write_once once unfolding leak_free_def by blast
  moreover have "m' = m1 \<or> (\<exists>b w. r1 = Inr (b, w) \<and> (write_all \<and> bvl_size b \<noteq> 0) \<and> fd_write_loop K a write_all b w m1 = (r, m'))"
    using 1(2) [unfolded fd_write_loop.simps [of K a write_all buffer written m]] once
    by (auto split: sum.splits if_splits)
  ultimately show ?case using 1(1) [OF once [symmetric] _ refl] owned_trans by blast
qed

lemma leak_free_write [leak_free_intros]: "leak_free c (FileDescriptor_write_string K a str write_all)"
  using leak_free_write_loop unfolding leak_free_def FileDescriptor_write_string_def FileDescriptor_write_def by blast

lemma leak_free_close [leak_free_intros]: "leak_free c (FileDescriptor_close K a)"
  unfolding FileDescriptor_close_def [abs_def] by (rule leak_free_at) (intro leak_free_intros)

lemma leak_free_socket_ops [leak_free_intros]:
  "leak_free c (Socket_bind N a address)" "leak_free c (Socket_connect N a address)" "leak_free c (TCPSocket_listen N a backlog)"
  "leak_free c (Socket_shutdown N a how)"
  unfolding Socket_bind_def [abs_def] Socket_connect_def [abs_def] TCPSocket_listen_def [abs_def] Socket_shutdown_def [abs_def]
  by (rule leak_free_at, intro leak_free_intros)+

lemma leak_free_send [leak_free_intros]: "leak_free c (UDPSocket_sendto N a destination payload)" "leak_free c (UDPSocket_send N a payload)"
  unfolding UDPSocket_sendto_def [abs_def] UDPSocket_send_def [abs_def] sendmsg_helper_def
  by (rule leak_free_at, intro leak_free_intros)+

lemma leak_free_recv_into: "leak_free c (UDPSocket_recv_into N a datagram mtu)"
proof (cases "2 ^ 63 \<le> mtu")
  case True
  then show ?thesis by (simp add: leak_free_def UDPSocket_recv_into_def)
next
  case False
  show ?thesis unfolding UDPSocket_recv_into_def [abs_def] Let_def if_not_P [OF False]
    by (rule leak_free_at) (intro leak_free_intros)
qed

lemma leak_free_recv [leak_free_intros]: "leak_free c (UDPSocket_recv N a mtu)"
  unfolding UDPSocket_recv_def by (intro leak_free_intros leak_free_recv_into)

subsection \<open>Making and giving up descriptors\<close>

lemma close_wrappers:
  "\<exists>w. wrappers (snd (FileDescriptor_close K a m)) = (wrappers m)[a := w] \<and> use_count w = use_count (wrapper a m)"
proof -
  obtain r m' where run: "FileDescriptor_close K a m = (r, m')" by (cases "FileDescriptor_close K a m")
  then have "wrappers m' = wrappers m \<or>
      wrappers m' = (wrappers m)[a := (wrapper a m)\<lparr>fd_eof := True, fd_closed := True\<rparr>]"
    by (auto simp: FileDescriptor_close_def bindIO_eq dest!: checked_wrappers)
  then show ?thesis
  proof
    assume "wrappers m' = wrappers m"
    then show ?thesis using run by (intro exI [of _ "wrapper a m"]) simp
  qed (use run in auto)
qed

lemma release_one:
  assumes law: "c \<longrightarrow> close_law K" and a: "a < length (wrappers m)" "use_count (wrapper a m) = 1"
  shows "\<exists>w. wrappers (FileDescriptor_release K a m) = (wrappers m)[a := w] \<and> use_count w = 0 \<and> (c \<longrightarrow> fd_closed w)"
proof (cases "fd_closed (wrapper a m)")
  case True
  then show ?thesis
    using a by (intro exI [of _ "(wrapper a m)\<lparr>use_count := 0\<rparr>"])
      (simp add: FileDescriptor_release_def FDWrapper_destroy_def Let_def)
next
  case False
  show ?thesis
  proof (cases c)
    case True
    then show ?thesis using release_last [OF _ a False] law by (intro exI) (rule conjI, blast, simp)
  next
    case no: False
    let ?m = "on_wrapper a (\<lambda>w. w\<lparr>use_count := use_count w - 1\<rparr>) m"
    obtain w where "wrappers (snd (FileDescriptor_close K a ?m)) = (wrappers ?m)[a := w]" "use_count w = use_count (wrapper a ?m)"
      using close_wrappers [of K a ?m] by blast
    then show ?thesis
      using a False no by (intro exI [of _ w]) (simp add: FileDescriptor_release_def FDWrapper_destroy_def Let_def)
  qed
qed

lemma owned_release:
  assumes "c \<longrightarrow> close_law K" and o: "owned c ws ws1" and "owned c (ws1 @ [w]) (wrappers m)" and "use_count w = 1"
  shows "owned c ws (wrappers (FileDescriptor_release K (length ws1) m))"
proof -
  let ?a = "length ws1"
  have m: "?a < length (wrappers m)" "use_count (wrapper ?a m) = 1"
    using assms(3,4) by (auto simp: owned_def nth_append)
  obtain w' where w': "wrappers (FileDescriptor_release K ?a m) = (wrappers m)[?a := w']" "use_count w' = 0" "c \<longrightarrow> fd_closed w'"
    using release_one [OF assms(1) m] by blast
  have "owned c ws1 ((wrappers m)[?a := w'])"
    using assms(3) w'(2,3) by (auto simp: owned_def nth_append nth_list_update split: if_splits)
  then show ?thesis unfolding w'(1) by (rule owned_trans [OF o])
qed

lemma leak_free_scope:
  assumes law: "c \<longrightarrow> close_law K" and f: "creates c f" and g: "\<And>a. leak_free c (g a)"
  shows "leak_free c (bindIO f (\<lambda>a. scoped K a (g a)))"
  unfolding leak_free_def
proof (intro allI impI)
  fix m r m'
  assume "bindIO f (\<lambda>a. scoped K a (g a)) m = (r, m')"
  then consider e where "f m = (Inl e, m')"
    | a m1 m2 where "f m = (Inr a, m1)" "g a m1 = (r, m2)" "m' = FileDescriptor_release K a m2"
    by (auto simp: bindIO_eq scoped_eq)
  then show "owned c (wrappers m) (wrappers m')"
  proof cases
    case 1
    then show ?thesis using f unfolding creates_def by force
  next
    case 2
    then obtain ws w where w: "owned c (wrappers m) ws" "a = length ws" "wrappers m1 = ws @ [w]" "use_count w = 1"
      using f unfolding creates_def by force
    have "owned c (ws @ [w]) (wrappers m2)" using g 2(2) w(3) unfolding leak_free_def by metis
    then show ?thesis unfolding 2(3) w(2) by (rule owned_release [OF law w(1) _ w(4)])
  qed
qed

lemma creates_fd: "creates c (FileDescriptor_new fd)"
  by (auto simp: creates_def FileDescriptor_new_def FDWrapper_new_def split: if_splits)

lemma creates_bind:
  assumes f: "leak_free c f" and g: "\<And>x. creates c (g x)"
  shows "creates c (bindIO f g)"
  unfolding creates_def
proof (intro allI impI)
  fix m r m'
  assume "bindIO f g m = (r, m')"
  then consider e where "r = Inl e" "f m = (Inl e, m')" | x m1 where "f m = (Inr x, m1)" "g x m1 = (r, m')"
    by (auto simp: bindIO_eq)
  then show "case r of Inl e \<Rightarrow> owned c (wrappers m) (wrappers m')
      | Inr a \<Rightarrow> \<exists>ws w. owned c (wrappers m) ws \<and> a = length ws \<and> wrappers m' = ws @ [w] \<and> use_count w = 1"
  proof cases
    case 1
    then show ?thesis using f by (simp add: leak_free_def)
  next
    case 2
    then have o: "owned c (wrappers m) (wrappers m1)" using f unfolding leak_free_def by blast
    from 2(2) g [of x] show ?thesis
      by (cases r) (fastforce simp: creates_def dest: owned_trans [OF o])+
  qed
qed

lemma creates_of_fd:
  assumes law: "c \<longrightarrow> close_law K" and f: "creates c f"
  shows "creates c (bindIO f (\<lambda>b. Socket_of_fd K N b domain type))"
  unfolding creates_def
proof (intro allI impI)
  fix m r m'
  assume "bindIO f (\<lambda>b. Socket_of_fd K N b domain type) m = (r, m')"
  then consider e where "r = Inl e" "f m = (Inl e, m')"
    | b m1 where "f m = (Inr b, m1)" "Socket_of_fd K N b domain type m1 = (r, m')"
    by (auto simp: bindIO_eq)
  then show "case r of Inl e \<Rightarrow> owned c (wrappers m) (wrappers m')
      | Inr a \<Rightarrow> \<exists>ws w. owned c (wrappers m) ws \<and> a = length ws \<and> wrappers m' = ws @ [w] \<and> use_count w = 1"
  proof cases
    case 1
    then show ?thesis using f by (force simp: creates_def)
  next
    case 2
    then obtain ws w where w: "owned c (wrappers m) ws" "b = length ws" "wrappers m1 = ws @ [w]" "use_count w = 1"
      using f unfolding creates_def by force
    from Socket_of_fd_cases [OF 2(2)] show ?thesis
    proof
      assume "\<exists>e m2. r = Inl e \<and> wrappers m2 = wrappers m1 \<and> m' = FileDescriptor_release K b m2"
      then show ?thesis using owned_release [OF law w(1), of w] w by auto
    qed (use w in auto)
  qed
qed

lemma creates_sockets: "creates c (UDPSocket_new N)" "creates c (TCPSocket_new N)"
  unfolding UDPSocket_new_def TCPSocket_new_def Socket_new_def
  by (intro creates_bind leak_free_checked; auto simp: creates_fd split: prod.split)+

lemma creates_accept:
  assumes "c \<longrightarrow> close_law K"
  shows "creates c (TCPSocket_accept K N a)"
proof -
  have "creates c (bindIO (modifyIO (register_read a)) (\<lambda>_. bindIO (checked ''accept'' (sys_accept N fd)) (\<lambda>(fd, _).
      bindIO (FileDescriptor_new fd) (\<lambda>b. TCPSocket_of_fd K N b))))" for fd
    unfolding TCPSocket_of_fd_def
    by (intro creates_bind leak_free_intros) (auto intro: creates_of_fd [OF assms] creates_fd split: prod.split)
  then show ?thesis unfolding creates_def TCPSocket_accept_def by blast
qed

end
