(* ===== verification/Doctests.thy ===== *)
theory Doctests
  imports Descriptor_Scopes Webget Tcp_Segment
begin

text \<open>
  The examples of the documentation and the programs that run them (doctests/): the parser, where four
  numbers of three widths are written behind a byte and read back; addresses; and datagram, TCP and local
  stream sockets. The random device, the resolver and the system calls are parameters.
\<close>

subsection \<open>Parser\<close>

definition parser_example :: "uint32_t \<Rightarrow> uint16_t \<Rightarrow> uint8_t \<Rightarrow> uint32_t \<Rightarrow> cpp_error + unit" where
  "parser_example val1 val2 val3 val4 =
     (let buffer = [] @ [0x32];
          buffer = nu_u32 val1 buffer;
          buffer = nu_u16 val2 buffer;
          buffer = nu_u8 val3 buffer;
          buffer = nu_u32 val4 buffer;
          p = NetParser_new (Buffer_of buffer)
      in bindE (np_u8 p) (\<lambda>(out0, p).
         bindE (np_u32 p) (\<lambda>(out1, p).
         bindE (np_u16 p) (\<lambda>(out2, p).
         bindE (np_u8 p) (\<lambda>(out3, p).
         bindE (np_u32 p) (\<lambda>(out4, p).
           if out0 \<noteq> 0x32 \<or> out1 \<noteq> val1 \<or> out2 \<noteq> val2 \<or> out3 \<noteq> val3 \<or> out4 \<noteq> val4
           then Inl (RuntimeError ''bad parse'') else Inr ()))))))"

definition parser_dt :: exit_status where
  "parser_dt = (case parser_example 0xdeadbeef 0xc0c0 0xff 0x0c05fefe of Inl _ \<Rightarrow> EXIT_FAILURE | Inr _ \<Rightarrow> EXIT_SUCCESS)"

text \<open>The example holds for all values, not only for those it is written with.\<close>

lemmas parse_8 = parse_field [where ?'a = 8, simplified]
  and parse_16 = parse_field [where ?'a = 16, simplified]
  and parse_32 = parse_field [where ?'a = 32, simplified]

theorem parser_example_ok: "parser_example val1 val2 val3 val4 = Inr ()"
proof -
  define b where "b = Buffer_of (nu_u32 val4 (nu_u8 val3 (nu_u16 val2 (nu_u32 val1 [0x32]))))"
  have "buf_str b = 0x32 # be_bytes 4 (unat val1) @ be_bytes 2 (unat val2) @ val3 # be_bytes 4 (unat val4) @ []" "buf_ok b"
    unfolding b_def nu_u8_def nu_u16_def nu_u32_def unparse_int_eq by simp_all
  note 0 = parse_8 [OF this(2,1)]
  note 1 = parse_32 [OF 0(2,3)]
  note 2 = parse_16 [OF 1(2,3)]
  note 3 = parse_8 [OF 2(2,3)]
  note 4 = parse_32 [OF 3(2,3)]
  show ?thesis
    by (simp add: parser_example_def Let_def b_def [symmetric] np_u8_def np_u16_def np_u32_def 0(1) 1(1) 2(1) 3(1) 4(1))
qed

theorem parser_dt_ok: "parser_dt = EXIT_SUCCESS"
  by (simp add: parser_dt_def parser_example_ok)

subsection \<open>Addresses\<close>

definition address_examples :: "getaddrinfo \<Rightarrow> getnameinfo \<Rightarrow> cpp_error + unit" where
  "address_examples gai gni =
     bindE (Address_named gai ''www.google.com'' ''https'') (\<lambda>google_webserver.
     bindE (Address_numeric gai ''18.71.0.151'' 53) (\<lambda>a_dns_server.
     bindE (ipv4_numeric a_dns_server) (\<lambda>a_dns_server_numeric.
     bindE (Address_port gni google_webserver) (\<lambda>port.
       if port \<noteq> 443 \<or> a_dns_server_numeric \<noteq> 0x12470097 then Inl (RuntimeError ''unexpected value'') else Inr ()))))"

text \<open>The program with what it prints on the error stream.\<close>

definition address_dt ::
  "(int \<Rightarrow> string) \<Rightarrow> (int \<Rightarrow> string) \<Rightarrow> getaddrinfo \<Rightarrow> getnameinfo \<Rightarrow> exit_status \<times> string" where
  "address_dt strerror gai_strerror gai gni =
     (case address_examples gai gni of
        Inr _ \<Rightarrow> (EXIT_SUCCESS, [])
      | Inl (UndefinedBehaviour w) \<Rightarrow> (UNDEFINED, [])
      | Inl e \<Rightarrow> (EXIT_FAILURE, ''This test requires Internet access and working DNS.\<newline>'' @
          ''Error: '' @ exception_what strerror gai_strerror e @ ''\<newline>''))"

text \<open>
  What the resolver does with an IPv4 address in numbers and dots and a port number, getaddrinfo(3): no
  lookup, and the \<open>sockaddr_in\<close> of the two.
\<close>

definition dotted :: "uint32_t \<Rightarrow> string" where
  "dotted ip = to_string_nat (unat (drop_bit 24 ip AND 0xff)) @ ''.'' @ to_string_nat (unat (drop_bit 16 ip AND 0xff)) @ ''.'' @
     to_string_nat (unat (drop_bit 8 ip AND 0xff)) @ ''.'' @ to_string_nat (unat (ip AND 0xff))"

definition sockaddr_in :: "uint32_t \<Rightarrow> uint16_t \<Rightarrow> bytes" where
  "sockaddr_in ip port = [2, 0, ucast (drop_bit 8 port), ucast port] @ ipv4_bytes ip @ replicate 8 0"

definition numeric_law :: "getaddrinfo \<Rightarrow> uint32_t \<Rightarrow> uint16_t \<Rightarrow> bool" where
  "numeric_law gai ip port \<longleftrightarrow>
     gai (dotted ip) (to_string_nat (unat port)) (make_hints (AI_NUMERICHOST OR AI_NUMERICSERV) AF_INET) =
       (0, Some (sockaddr_in ip port, 16))"

lemma c_str_number [simp]: "c_str (to_string_nat n) = to_string_nat n" "c_str (to_string_nat n @ s) = to_string_nat n @ c_str s"
proof -
  have "\<not> is_digit (CHR 0x00)" by (simp add: is_digit_def)
  then have "c \<noteq> CHR 0x00" if "c \<in> set (to_string_nat n)" for c
    using digits10_chars [of c n] that by (auto simp: to_string_nat_def)
  then show "c_str (to_string_nat n) = to_string_nat n" "c_str (to_string_nat n @ s) = to_string_nat n @ c_str s"
    by (simp_all add: c_str_def)
qed

lemma c_str_dotted [simp]: "c_str (dotted ip) = dotted ip"
proof -
  have dot: "c_str (CHR ''.'' # s) = CHR ''.'' # c_str s" for s by (simp add: c_str_def)
  show ?thesis by (simp add: dotted_def dot)
qed

lemma numeric_address:
  assumes "numeric_law gai ip port"
  shows "\<exists>a. Address_numeric gai (dotted ip) port = Inr a \<and> ipv4_numeric a = Inr ip"
proof -
  have "Address_of_raw (sockaddr_in ip port) 16 =
      Inr \<lparr>addr_size = 16, addr_storage = sockaddr_in ip port @ replicate 112 0\<rparr>"
    by (simp add: Address_of_raw_def STORAGE_SIZE_def sockaddr_in_def)
  moreover have "ipv4_numeric \<lparr>addr_size = 16, addr_storage = sockaddr_in ip port @ replicate 112 0\<rparr> = Inr ip"
    by (simp add: ipv4_numeric_def sockaddr_in_def ipv4_bytes_def ss_family_def AF_INET_def SOCKADDR_IN_SIZE_def be32toh_bytes)
  ultimately show ?thesis using assms by (simp add: Address_numeric_def Address_resolve_def numeric_law_def)
qed

text \<open>With a name server that knows the two names, the program succeeds and prints nothing.\<close>

theorem address_dt_ok:
  assumes "numeric_law gai 0x12470097 53" and "Address_named gai ''www.google.com'' ''https'' = Inr google_webserver"
    and "Address_port gni google_webserver = Inr 443"
  shows "address_dt strerror gai_strerror gai gni = (EXIT_SUCCESS, [])"
proof -
  have "dotted 0x12470097 = ''18.71.0.151''" by code_simp
  then show ?thesis
    using numeric_address [OF assms(1)] assms(2,3) by (auto simp: address_dt_def address_examples_def)
qed

subsection \<open>Sockets\<close>

definition portnum :: "uint32_t \<Rightarrow> uint16_t" where
  "portnum rd = ucast (rd mod 50000 + 1025)"

definition check_received :: "bytes \<Rightarrow> bytes \<Rightarrow> ('m, unit) io" where
  "check_received recvd recvd2 =
     (if recvd \<noteq> str_bytes ''hi there'' \<or> recvd2 \<noteq> str_bytes ''hi yourself''
      then throwIO (RuntimeError ''wrong data received'') else returnIO ())"

definition socket_example_1 ::
  "'k fd_calls \<Rightarrow> 'k socket_calls \<Rightarrow> getaddrinfo \<Rightarrow> uint32_t \<Rightarrow> ('k machine, unit) io" where
  "socket_example_1 K N gai rd =
     (let local = liftE (Address_numeric gai ''127.0.0.1'' (portnum rd)); mtu = 65536
      in bindIO (UDPSocket_new N) (\<lambda>sock1. scoped K sock1 (
         bindIO local (\<lambda>address.
         bindIO (Socket_bind N sock1 address) (\<lambda>_.
         bindIO (UDPSocket_new N) (\<lambda>sock2. scoped K sock2 (
         bindIO local (\<lambda>address.
         bindIO (UDPSocket_sendto N sock2 address (BufferViewList_of_string (str_bytes ''hi there''))) (\<lambda>_.
         bindIO (UDPSocket_recv N sock1 mtu) (\<lambda>recvd.
         bindIO (Socket_connect N sock1 (source_address recvd)) (\<lambda>_.
         bindIO (UDPSocket_send N sock1 (BufferViewList_of_string (str_bytes ''hi yourself''))) (\<lambda>_.
         bindIO (UDPSocket_recv N sock2 mtu) (\<lambda>recvd2.
           check_received (dg_payload recvd) (dg_payload recvd2))))))))))))))"

definition socket_example_2 ::
  "'k fd_calls \<Rightarrow> 'k socket_calls \<Rightarrow> getaddrinfo \<Rightarrow> uint32_t \<Rightarrow> ('k machine, unit) io" where
  "socket_example_2 K N gai rd =
     (let local = liftE (Address_numeric gai ''127.0.0.1'' (portnum rd))
      in bindIO (TCPSocket_new N) (\<lambda>sock1. scoped K sock1 (
         bindIO local (\<lambda>address.
         bindIO (Socket_bind N sock1 address) (\<lambda>_.
         bindIO (TCPSocket_listen N sock1 1) (\<lambda>_.
         bindIO (TCPSocket_new N) (\<lambda>sock2. scoped K sock2 (
         bindIO local (\<lambda>address.
         bindIO (Socket_connect N sock2 address) (\<lambda>_.
         bindIO (TCPSocket_accept K N sock1) (\<lambda>sock3. scoped K sock3 (
         bindIO (FileDescriptor_write_string K sock3 (str_bytes ''hi there'') True) (\<lambda>_.
         bindIO (FileDescriptor_read K sock2 npos) (\<lambda>recvd.
         bindIO (FileDescriptor_write_string K sock2 (str_bytes ''hi yourself'') True) (\<lambda>_.
         bindIO (FileDescriptor_read K sock3 npos) (\<lambda>recvd2.
         bindIO (FileDescriptor_close K sock1) (\<lambda>_.
         bindIO (FileDescriptor_close K sock2) (\<lambda>_.
         bindIO (Socket_shutdown N sock3 SHUT_RDWR) (\<lambda>_.
           check_received recvd recvd2)))))))))))))))))))"

text \<open>\<open>socketpair\<close> is socketpair(2), which gives the two numbers through its last argument.\<close>

definition socket_example_3 ::
  "'k fd_calls \<Rightarrow> 'k socket_calls \<Rightarrow> (int \<Rightarrow> int \<Rightarrow> int \<Rightarrow> ('k, int \<times> int) syscall) \<Rightarrow> ('k machine, unit) io" where
  "socket_example_3 K N socketpair =
     bindIO (checked ''socketpair'' (socketpair AF_UNIX SOCK_STREAM 0)) (\<lambda>(_, fd0, fd1).
     bindIO (bindIO (FileDescriptor_new fd0) (\<lambda>fd. LocalStreamSocket_of_fd K N fd)) (\<lambda>pipe1. scoped K pipe1 (
     bindIO (bindIO (FileDescriptor_new fd1) (\<lambda>fd. LocalStreamSocket_of_fd K N fd)) (\<lambda>pipe2. scoped K pipe2 (
     bindIO (FileDescriptor_write_string K pipe1 (str_bytes ''hi there'') True) (\<lambda>_.
     bindIO (FileDescriptor_read K pipe2 npos) (\<lambda>recvd.
     bindIO (FileDescriptor_write_string K pipe2 (str_bytes ''hi yourself'') True) (\<lambda>_.
     bindIO (FileDescriptor_read K pipe1 npos) (\<lambda>recvd2.
       check_received recvd recvd2)))))))))"

text \<open>\<open>random_device\<close> makes a random device and takes one number from it.\<close>

definition socket_examples ::
  "'k fd_calls \<Rightarrow> 'k socket_calls \<Rightarrow> getaddrinfo \<Rightarrow> ('k machine, uint32_t) io \<Rightarrow>
     (int \<Rightarrow> int \<Rightarrow> int \<Rightarrow> ('k, int \<times> int) syscall) \<Rightarrow> ('k machine, unit) io" where
  "socket_examples K N gai random_device socketpair =
     bindIO random_device (\<lambda>rd.
     bindIO (socket_example_1 K N gai rd) (\<lambda>_.
     bindIO random_device (\<lambda>rd.
     bindIO (socket_example_2 K N gai rd) (\<lambda>_.
       socket_example_3 K N socketpair))))"

definition socket_dt ::
  "'k fd_calls \<Rightarrow> 'k socket_calls \<Rightarrow> getaddrinfo \<Rightarrow> ('k machine, uint32_t) io \<Rightarrow>
     (int \<Rightarrow> int \<Rightarrow> int \<Rightarrow> ('k, int \<times> int) syscall) \<Rightarrow> 'k machine \<Rightarrow> exit_status \<times> 'k machine" where
  "socket_dt K N gai random_device socketpair m =
     (case socket_examples K N gai random_device socketpair m of
        (Inr _, m) \<Rightarrow> (EXIT_SUCCESS, m)
      | (Inl (UndefinedBehaviour w), m) \<Rightarrow> (UNDEFINED, m)
      | (Inl e, m) \<Rightarrow> (EXIT_FAILURE, m))"

lemma leak_free_check [leak_free_intros]: "leak_free c (check_received recvd recvd2)"
  unfolding check_received_def by (intro leak_free_intros)

lemma creates_local_socket:
  "(c \<longrightarrow> close_law K) \<Longrightarrow> creates c (bindIO (FileDescriptor_new fd) (\<lambda>fd. LocalStreamSocket_of_fd K N fd))"
  unfolding LocalStreamSocket_of_fd_def by (intro creates_of_fd creates_fd)

lemma leak_free_examples:
  assumes "c \<longrightarrow> close_law K"
  shows "leak_free c (socket_example_1 K N gai rd)" "leak_free c (socket_example_2 K N gai rd)"
    "leak_free c (socket_example_3 K N socketpair)"
  unfolding socket_example_1_def socket_example_2_def socket_example_3_def Let_def
  by (intro leak_free_scope leak_free_intros assms creates_sockets creates_accept creates_local_socket)+

text \<open>The port number is not one of the privileged ones and was not cut to 16 bits.\<close>

lemma portnum_range: "1025 \<le> unat (portnum rd) \<and> unat (portnum rd) = unat rd mod 50000 + 1025"
proof -
  have "unat (rd mod 50000 + 1025) = unat rd mod 50000 + 1025"
    by (simp add: unat_word_ariths unat_mod)
  then show ?thesis by (simp add: portnum_def unsigned_ucast_eq take_bit_nat_eq_self)
qed

text \<open>
  (C32) The socket examples do not leak descriptor objects. Whatever the kernel answers, failures of every
  call included, and wherever an exception ends the program, every \<open>FileDescriptor\<close> made on the way, by the
  constructors, by \<open>accept\<close> and around the numbers of socketpair(2), is given up by its last owner at the
  end, and none that existed before is given up. If moreover close(2) always succeeds, each of them is
  closed. The random device is assumed to make none of its own. A number of socketpair(2) that no object
  holds yet is not covered: the second one stays open when the first socket cannot be made.
\<close>
theorem socket_examples_do_not_leak:
  assumes "\<And>m r m'. random_device m = (r, m') \<Longrightarrow> wrappers m' = wrappers m"
    and "socket_dt K N gai random_device socketpair m = (status, m')"
  shows "length (wrappers m) \<le> length (wrappers m') \<and>
    (\<forall>i < length (wrappers m). use_count (wrapper i m') = use_count (wrapper i m)) \<and>
    (\<forall>w \<in> set (drop (length (wrappers m)) (wrappers m')). use_count w = 0 \<and> (close_law K \<longrightarrow> fd_closed w))"
proof -
  have "leak_free (close_law K) random_device" using assms(1) by (auto simp: leak_free_def)
  then have "leak_free (close_law K) (socket_examples K N gai random_device socketpair)"
    unfolding socket_examples_def by (intro leak_free_bind leak_free_examples) simp_all
  then have "owned (close_law K) (wrappers m) (wrappers m')"
    using assms(2) unfolding leak_free_def socket_dt_def by (auto split: prod.splits sum.splits cpp_error.splits)
  then show ?thesis by (auto simp: owned_def in_set_conv_nth)
qed

text \<open>A run in which the resolver fails, over a kernel whose close(2) succeeds and over one whose close(2) fails.\<close>

theorem socket_examples_do_not_leak_witness:
  "\<exists>m' m''. socket_dt pipe_calls sample_sockets (\<lambda>_ _ _. (- 2, None)) (returnIO 4) (\<lambda>d t p k. ((0, 0, 3, 4), k))
      (pipe_machine []) = (EXIT_FAILURE, m') \<and> length (wrappers m') = 2 \<and>
    (\<forall>w \<in> set (drop 1 (wrappers m')). use_count w = 0 \<and> fd_closed w) \<and>
    socket_dt (pipe_calls\<lparr>sys_close := \<lambda>fd k. ((- 1, 5, ()), k)\<rparr>) sample_sockets (\<lambda>_ _ _. (- 2, None)) (returnIO 4)
      (\<lambda>d t p k. ((0, 0, 3, 4), k)) (pipe_machine []) = (EXIT_FAILURE, m'') \<and> length (wrappers m'') = 2 \<and>
    (\<forall>w \<in> set (drop 1 (wrappers m'')). use_count w = 0)"
proof -
  let ?run = "\<lambda>K. socket_dt K sample_sockets (\<lambda>_ _ _. (- 2, None)) (returnIO 4) (\<lambda>d t p k. ((0, 0, 3, 4), k)) (pipe_machine [])"
  let ?K = "pipe_calls\<lparr>sys_close := \<lambda>fd k. ((- 1, 5, ()), k)\<rparr>"
  have "fst (?run pipe_calls) = EXIT_FAILURE" "length (wrappers (snd (?run pipe_calls))) = 2"
    "fst (?run ?K) = EXIT_FAILURE" "length (wrappers (snd (?run ?K))) = 2" by code_simp+
  then obtain m' m'' where run: "?run pipe_calls = (EXIT_FAILURE, m')" "length (wrappers m') = 2"
      "?run ?K = (EXIT_FAILURE, m'')" "length (wrappers m'') = 2"
    by (metis prod.collapse)
  note t = socket_examples_do_not_leak [of "returnIO 4"]
  have 1: "\<forall>w \<in> set (drop 1 (wrappers m')). use_count w = 0 \<and> fd_closed w"
    using t [OF _ run(1)] pipe_close by (simp add: pipe_machine_def)
  have 2: "\<forall>w \<in> set (drop 1 (wrappers m'')). use_count w = 0"
    using t [OF _ run(3)] by (simp add: pipe_machine_def)
  show ?thesis using run 1 2 by blast
qed

end
