(* ===== verification/Hex_Dump.thy ===== *)
theory Hex_Dump
  imports Text_Format
begin

unbundle bit_operations_syntax

text \<open>
  \<open>hexdump\<close> (libsponge/util/util.cc). Of the standard output the model has the text printed so far, the
  number base of its format flags and its fill character, the other flags being at their defaults; of a
  \<open>stringstream\<close> the text and the position where the next character is put, which is 0 for one made or
  reset with a text.
\<close>

record ostream =
  os_text :: string
  os_base :: nat
  os_fill :: char

record stringstream =
  ss_text :: string
  ss_put :: nat

definition insert_text :: "string \<Rightarrow> ostream \<Rightarrow> ostream" where
  "insert_text s os = os\<lparr>os_text := os_text os @ s\<rparr>"

definition insert_number :: "nat \<Rightarrow> nat \<Rightarrow> ostream \<Rightarrow> ostream" where
  "insert_number width n os = insert_text (setw width (os_fill os) (digits (os_base os) n)) os"

definition ss_reset :: "string \<Rightarrow> stringstream" where
  "ss_reset s = \<lparr>ss_text = s, ss_put = 0\<rparr>"

definition ss_insert :: "char \<Rightarrow> stringstream \<Rightarrow> stringstream" where
  "ss_insert c ss = \<lparr>ss_text = take (ss_put ss) (ss_text ss) @ [c] @ drop (Suc (ss_put ss)) (ss_text ss), ss_put = Suc (ss_put ss)\<rparr>"

definition isprint :: "byte \<Rightarrow> bool" where
  "isprint b \<longleftrightarrow> 0x20 \<le> b \<and> b \<le> 0x7e"

definition shown_char :: "byte \<Rightarrow> char" where
  "shown_char b = (if isprint b then char_of (unat b) else CHR ''.'')"

text \<open>The body of the loop of \<open>hexdump\<close>.\<close>

definition hexdump_step :: "string \<Rightarrow> byte \<Rightarrow> ostream \<times> stringstream \<times> nat \<Rightarrow> ostream \<times> stringstream \<times> nat" where
  "hexdump_step indent_string b = (\<lambda>(os, pchars, printed).
     let (os, pchars) =
       (if printed AND 0xf = 0 then
          let (os, pchars) = (if printed \<noteq> 0 then (insert_text ''\<newline>'' (insert_text (ss_text pchars) (insert_text ''    '' os)), ss_reset '' '')
                              else (os, pchars))
          in (insert_text '':    '' (insert_number 8 printed (insert_text indent_string os)), pchars)
        else if printed AND 1 = 0 then (insert_text '' '' os, pchars)
        else (os, pchars))
     in (insert_number 2 (unat b) os, ss_insert (shown_char b) pchars, printed + 1))"

text \<open>\<open>printed\<close> is an \<open>int\<close> that counts the bytes, so more than \<open>2\<^sup>3\<^sup>1 - 1\<close> of them are undefined behaviour.\<close>

definition hexdump :: "bytes \<Rightarrow> nat \<Rightarrow> ostream \<Rightarrow> cpp_error + ostream" where
  "hexdump data indent os =
     (if 2 ^ 31 \<le> length data then Inl (UndefinedBehaviour ''printed overflows'')
      else let flags = os_base os;
               indent_string = replicate indent CHR '' '';
               os = os\<lparr>os_base := 16, os_fill := CHR ''0''\<rparr>;
               (os, pchars, printed) = fold (hexdump_step indent_string) data (os, ss_reset '' '', 0);
               print_rem = (16 - (printed AND 0xf)) mod 16;
               os = insert_text (ss_text pchars) (insert_text (replicate (2 * print_rem + print_rem div 2 + 4) CHR '' '') os);
               os = insert_text ''\<newline>'' (insert_text ''\<newline>'' os)
           in Inr (os\<lparr>os_base := flags\<rparr>))"

subsection \<open>The layout\<close>

text \<open>
  The lines of a dump: the offset in eight digits, the bytes in pairs padded to thirty-nine columns, and
  the same bytes as characters.
\<close>

fun columns :: "nat \<Rightarrow> bytes \<Rightarrow> string" where
  "columns j [] = []"
| "columns j (b # bs) = (if 0 < j \<and> even j then '' '' else []) @ setw 2 CHR ''0'' (hex (unat b)) @ columns (Suc j) bs"

definition line_head :: "nat \<Rightarrow> nat \<Rightarrow> string" where
  "line_head indent offset = replicate indent CHR '' '' @ setw 8 CHR ''0'' (hex offset) @ '':    ''"

definition dump_line :: "nat \<Rightarrow> nat \<Rightarrow> bytes \<Rightarrow> string" where
  "dump_line indent offset chunk =
     line_head indent offset @ columns 0 chunk @ replicate (39 - length (columns 0 chunk)) CHR '' '' @ ''    '' @ map shown_char chunk"

fun dump_lines :: "nat \<Rightarrow> nat \<Rightarrow> bytes \<Rightarrow> string" where
  "dump_lines indent offset data =
     (if length data \<le> 16 then dump_line indent offset data
      else dump_line indent offset (take 16 data) @ ''\<newline>'' @ dump_lines indent (offset + 16) (drop 16 data))"

declare dump_lines.simps [simp del]

lemma and_15: "(n :: nat) AND 15 = n mod 16"
  using take_bit_eq_mask [of 4 n] by (simp add: take_bit_eq_mod mask_eq_exp_minus_1)

lemma and_1: "(n :: nat) AND 1 = n mod 2"
  by (simp add: and_one_eq)

lemma digits_two: "n < 256 \<Longrightarrow> length (digits 16 n) \<le> 2"
  using less_mult_imp_div_less [of n 16 16] by (simp add: digits.simps [of 16 n] digits.simps [of 16 "n div 16"])

lemma length_hex_byte [simp]: "length (setw 2 c (hex (unat (b :: byte)))) = 2"
proof -
  have "unat b < 256" using unsigned_less [of b] by simp
  then show ?thesis using digits_two [of "unat b"] by (simp add: setw_def hex_def)
qed

lemma length_columns_from: "0 < j \<Longrightarrow> length (columns j bs) + Suc j div 2 = 2 * length bs + (Suc j + length bs) div 2"
proof (induction j bs rule: columns.induct)
  case (2 j b bs)
  then show ?case by (cases "even j") (auto elim!: evenE oddE)
qed simp

lemma length_columns: "bs \<noteq> [] \<Longrightarrow> length (columns 0 bs) = 2 * length bs + (length bs - 1) div 2"
  using length_columns_from [of 1 "tl bs"] by (cases bs) auto

lemma column_padding:
  assumes "bs \<noteq> []" and "length bs \<le> 16"
  shows "39 - length (columns 0 bs) = 2 * (16 - length bs) + (16 - length bs) div 2"
  using assms length_columns [OF assms(1)] by (cases bs) (auto simp: div_le_mono)

subsection \<open>The loop\<close>

lemma insert_simps [simp]:
  "os_text (insert_text s os) = os_text os @ s" "os_base (insert_text s os) = os_base os" "os_fill (insert_text s os) = os_fill os"
  "insert_text t (insert_text s os) = insert_text (s @ t) os" "insert_text [] os = os"
  by (simp_all add: insert_text_def)

lemma ss_insert_end [simp]:
  "ss_insert c \<lparr>ss_text = s, ss_put = length s\<rparr> = \<lparr>ss_text = s @ [c], ss_put = length (s @ [c])\<rparr>"
  "ss_insert c (ss_reset '' '') = \<lparr>ss_text = [c], ss_put = length [c]\<rparr>"
  by (simp_all add: ss_insert_def ss_reset_def)

text \<open>The rest of a line, and a whole line; a line starts with the end of the one before it.\<close>

lemma rest_of_line:
  assumes "os_base os = 16" and "os_fill os = CHR ''0''"
  shows "0 < printed mod 16 \<Longrightarrow> printed mod 16 + length bs \<le> 16 \<Longrightarrow>
    fold (hexdump_step ind) bs (os, \<lparr>ss_text = s, ss_put = length s\<rparr>, printed) =
      (insert_text (columns (printed mod 16) bs) os, \<lparr>ss_text = s @ map shown_char bs, ss_put = length (s @ map shown_char bs)\<rparr>,
       printed + length bs)"
  using assms
proof (induction bs arbitrary: os s printed)
  case (Cons b bs)
  let ?j = "printed mod 16"
  let ?os = "insert_text ((if even ?j then '' '' else []) @ setw 2 CHR ''0'' (hex (unat b))) os"
  have even: "printed mod 2 = 0 \<longleftrightarrow> even ?j" by presburger
  have step: "hexdump_step ind b (os, \<lparr>ss_text = s, ss_put = length s\<rparr>, printed) =
      (?os, \<lparr>ss_text = s @ [shown_char b], ss_put = length (s @ [shown_char b])\<rparr>, printed + 1)"
    using Cons.prems by (simp add: hexdump_step_def and_15 and_1 even insert_number_def hex_def del: length_append)
  show ?case
  proof (cases bs)
    case Nil
    then show ?thesis using step Cons.prems by simp
  next
    case (Cons c cs)
    then have "(printed + 1) mod 16 = Suc ?j" using Cons.prems(2) by (simp add: mod_Suc)
    then show ?thesis
      using Cons.IH [of "printed + 1" ?os "s @ [shown_char b]"] step Cons.prems by (simp del: length_append)
  qed
qed simp

definition flush_line :: "nat \<Rightarrow> stringstream \<Rightarrow> string" where
  "flush_line printed pchars = (if printed = 0 then [] else ''    '' @ ss_text pchars @ ''\<newline>'')"

lemma whole_line:
  assumes "os_base os = 16" and "os_fill os = CHR ''0''" and "printed mod 16 = 0"
    and "chunk \<noteq> []" and "length chunk \<le> 16" and "printed = 0 \<Longrightarrow> pchars = ss_reset '' ''"
  shows "fold (hexdump_step (replicate indent CHR '' '')) chunk (os, pchars, printed) =
    (insert_text (flush_line printed pchars @ line_head indent printed @ columns 0 chunk) os,
     \<lparr>ss_text = map shown_char chunk, ss_put = length chunk\<rparr>, printed + length chunk)"
proof -
  obtain b bs where chunk: "chunk = b # bs" using assms(4) by (cases chunk) auto
  let ?os = "insert_text (flush_line printed pchars @ line_head indent printed @ setw 2 CHR ''0'' (hex (unat b))) os"
  have step: "hexdump_step (replicate indent CHR '' '') b (os, pchars, printed) =
      (?os, \<lparr>ss_text = [shown_char b], ss_put = length [shown_char b]\<rparr>, printed + 1)"
    using assms(1-3,6) by (simp add: hexdump_step_def and_15 insert_number_def hex_def flush_line_def line_head_def)
  have "(printed + 1) mod 16 = 1" using assms(3) by (simp add: mod_Suc)
  then show ?thesis
    using rest_of_line [of ?os "printed + 1" bs "replicate indent CHR '' ''" "[shown_char b]"] step assms(1,2,5) chunk by simp
qed

definition last_spaces :: "nat \<Rightarrow> string" where
  "last_spaces printed = (let r = (16 - printed mod 16) mod 16 in replicate (2 * r + r div 2 + 4) CHR '' '')"

lemma four_spaces: "replicate 4 CHR '' '' = ''    ''"
  by (simp add: numeral_eq_Suc)

lemma hexdump_loop:
  assumes "os_base os = 16" and "os_fill os = CHR ''0''" and "printed mod 16 = 0" and "data \<noteq> []"
    and "printed = 0 \<Longrightarrow> pchars = ss_reset '' ''"
  shows "\<exists>os' pchars'. fold (hexdump_step (replicate indent CHR '' '')) data (os, pchars, printed) = (os', pchars', printed + length data) \<and>
    os_text os' @ last_spaces (printed + length data) @ ss_text pchars' =
      os_text os @ flush_line printed pchars @ dump_lines indent printed data \<and> os_fill os' = CHR ''0''"
  using assms
proof (induction indent printed data arbitrary: os pchars rule: dump_lines.induct)
  case (1 indent printed data)
  show ?case
  proof (cases "length data \<le> 16")
    case True
    obtain k where "printed = 16 * k" using 1(4) by (auto simp: mod_0_imp_dvd elim!: dvdE)
    moreover have "0 < length data" using 1(5) by simp
    ultimately have r: "(16 - (printed + length data) mod 16) mod 16 = 16 - length data"
      using True by (cases "length data = 16") simp_all
    have "last_spaces (printed + length data) = replicate (39 - length (columns 0 data)) CHR '' '' @ ''    ''"
      unfolding last_spaces_def r column_padding [OF 1(5) True] Let_def replicate_add four_spaces ..
    then show ?thesis
      using whole_line [OF 1(2-5) True 1(6)] True 1(3) by (simp add: dump_lines.simps [of indent printed data] dump_line_def)
  next
    case False
    let ?c = "take 16 data" and ?d = "drop 16 data"
    let ?os = "insert_text (flush_line printed pchars @ line_head indent printed @ columns 0 ?c) os"
      and ?pc = "\<lparr>ss_text = map shown_char ?c, ss_put = length ?c\<rparr>"
    have c: "length ?c = 16" "?c \<noteq> []" "?d \<noteq> []" using False by auto
    have line: "fold (hexdump_step (replicate indent CHR '' '')) ?c (os, pchars, printed) = (?os, ?pc, printed + 16)"
      using whole_line [OF 1(2-4) c(2) _ 1(6)] c(1) by simp
    have split: "fold (hexdump_step (replicate indent CHR '' '')) data (os, pchars, printed) =
        fold (hexdump_step (replicate indent CHR '' '')) ?d (?os, ?pc, printed + 16)"
      using fold_append [of "hexdump_step (replicate indent CHR '' '')" ?c ?d] line by (simp del: fold_append)
    have len: "printed + 16 + length ?d = printed + length data" using False by simp
    have "length (columns 0 ?c) = 39" using length_columns [OF c(2)] c(1) by simp
    then have "os_text ?os @ flush_line (printed + 16) ?pc @ dump_lines indent (printed + 16) ?d =
        os_text os @ flush_line printed pchars @ dump_lines indent printed data"
      using False by (simp add: dump_lines.simps [of indent printed data] dump_line_def flush_line_def)
    then show ?thesis
      using 1(1) [OF False, of ?os ?pc] 1(2-4) c(3) unfolding split len by simp
  qed
qed

subsection \<open>Properties\<close>

text \<open>
  (C35) \<open>hexdump\<close> prints the lines of the dump, sixteen bytes to a line, the columns of the last and shorter
  line aligned with those above, and restores the number base of the stream.
\<close>
theorem hexdump_spec:
  assumes "data \<noteq> []" and "length data < 2 ^ 31"
  shows "\<exists>os'. hexdump data indent os = Inr os' \<and> os_base os' = os_base os \<and>
    os_text os' = os_text os @ dump_lines indent 0 data @ ''\<newline>\<newline>''"
proof -
  let ?os = "os\<lparr>os_base := 16, os_fill := CHR ''0''\<rparr>"
  obtain os' pchars' where "fold (hexdump_step (replicate indent CHR '' '')) data (?os, ss_reset '' '', 0) = (os', pchars', length data)"
      "os_text os' @ last_spaces (length data) @ ss_text pchars' = os_text os @ dump_lines indent 0 data"
    using hexdump_loop [of ?os 0 data "ss_reset '' ''" indent] assms(1) by (auto simp: flush_line_def)
  then show ?thesis using assms(2) by (simp add: hexdump_def and_15 last_spaces_def Let_def)
qed

theorem hexdump_spec_witness:
  "\<exists>os'. hexdump [0x48, 0x69, 0x0a] 2 \<lparr>os_text = [], os_base = 10, os_fill = CHR '' ''\<rparr> = Inr os' \<and>
     os_base os' = 10 \<and> os_text os' = ''  00000000:    4869 0a                                    Hi.\<newline>\<newline>''"
proof -
  have "dump_lines 2 0 [0x48, 0x69, 0x0a] = ''  00000000:    4869 0a                                    Hi.''" by code_simp
  then show ?thesis
    using hexdump_spec [of "[0x48, 0x69, 0x0a]" 2 "\<lparr>os_text = [], os_base = 10, os_fill = CHR '' ''\<rparr>"] by simp
qed

text \<open>
  The fill character is not part of the flags that \<open>hexdump\<close> saves: after it the stream pads with zeros.
\<close>

theorem hexdump_leaves_fill:
  "hexdump data indent os = Inr os' \<Longrightarrow> data \<noteq> [] \<Longrightarrow> os_fill os' = CHR ''0''"
  using hexdump_loop [of "os\<lparr>os_base := 16, os_fill := CHR ''0''\<rparr>" 0 data "ss_reset '' ''" indent]
  by (auto simp: hexdump_def Let_def split: if_splits)

end
