(* ===== verification/Timestamps.thy ===== *)
theory Timestamps
  imports Sponge_Prelude
begin

text \<open>
  \<open>timestamp_ms\<close> (libsponge/util/util.cc). The steady clock is a parameter that gives nanoseconds; the
  state is the local static \<open>program_start\<close>, which the first call sets, and the clock.
\<close>

type_synonym 'k clock = "'k \<Rightarrow> int \<times> 'k"

text \<open>\<open>duration_cast\<close> truncates; the result is converted to an unsigned number.\<close>

definition milliseconds :: "int \<Rightarrow> int" where
  "milliseconds ns = (if ns < 0 then - ((- ns) div 1000000) else ns div 1000000)"

definition timestamp_ms :: "'k clock \<Rightarrow> int option \<times> 'k \<Rightarrow> uint64_t \<times> int option \<times> 'k" where
  "timestamp_ms clock_now = (\<lambda>(start, k).
     let (program_start, k) = (case start of Some t \<Rightarrow> (t, k) | None \<Rightarrow> clock_now k);
         (now, k) = clock_now k
     in (of_int (milliseconds (now - program_start)), Some program_start, k))"

fun timestamps :: "'k clock \<Rightarrow> nat \<Rightarrow> int option \<times> 'k \<Rightarrow> uint64_t list" where
  "timestamps clock_now 0 s = []"
| "timestamps clock_now (Suc n) s = (case timestamp_ms clock_now s of (t, s') \<Rightarrow> t # timestamps clock_now n s')"

text \<open>
  A steady clock never goes back; \<open>reading\<close> is what it would show, in the 63 bits of its representation.
\<close>

definition steady :: "'k clock \<Rightarrow> ('k \<Rightarrow> int) \<Rightarrow> bool" where
  "steady clock_now reading \<longleftrightarrow>
     (\<forall>k t k'. clock_now k = (t, k') \<longrightarrow> reading k \<le> t \<and> t \<le> reading k' \<and> 0 \<le> reading k \<and> t < 2 ^ 63)"

lemma timestamp_ms_started:
  assumes "steady clock_now reading" and "0 \<le> t0" and "t0 \<le> reading k"
    and "timestamp_ms clock_now (Some t0, k) = (v, s')"
  shows "\<exists>now k'. s' = (Some t0, k') \<and> reading k \<le> now \<and> now \<le> reading k' \<and> v = of_int ((now - t0) div 1000000) \<and> now < 2 ^ 63"
proof -
  obtain now k' where c: "clock_now k = (now, k')" by (cases "clock_now k")
  then have "reading k \<le> now \<and> now \<le> reading k' \<and> now < 2 ^ 63" using assms(1) by (auto simp: steady_def)
  then show ?thesis using assms(3,4) c by (auto simp: timestamp_ms_def milliseconds_def Let_def)
qed

lemma of_int_ms_mono:
  assumes "0 \<le> a" and "a \<le> b" and "b < 2 ^ 63"
  shows "(of_int (a div 1000000) :: uint64_t) \<le> of_int (b div 1000000)"
proof -
  have "a div 1000000 \<le> b div 1000000" using assms(2) by (rule zdiv_mono1) simp
  moreover have "b div 1000000 < 2 ^ 64" using assms by (simp add: div_less_iff_less_mult)
  moreover have "0 \<le> a div 1000000" using assms(1) by simp
  ultimately show ?thesis by (simp add: word_le_def uint_word_of_int_eq take_bit_int_eq_self)
qed

lemma timestamps_started:
  assumes "steady clock_now reading" and "0 \<le> t0"
  shows "t0 \<le> reading k \<Longrightarrow> sorted_wrt (\<le>) (timestamps clock_now n (Some t0, k)) \<and>
    (\<forall>v \<in> set (timestamps clock_now n (Some t0, k)). \<exists>now. reading k \<le> now \<and> now < 2 ^ 63 \<and> v = of_int ((now - t0) div 1000000))"
proof (induction n arbitrary: k)
  case (Suc n)
  obtain v s' where ts: "timestamp_ms clock_now (Some t0, k) = (v, s')" by (cases "timestamp_ms clock_now (Some t0, k)")
  then obtain now k' where s': "s' = (Some t0, k')" "reading k \<le> now" "now \<le> reading k'" "v = of_int ((now - t0) div 1000000)" "now < 2 ^ 63"
    using timestamp_ms_started [OF assms Suc.prems] by blast
  have ih: "sorted_wrt (\<le>) (timestamps clock_now n (Some t0, k'))"
      "\<forall>v \<in> set (timestamps clock_now n (Some t0, k')). \<exists>now. reading k' \<le> now \<and> now < 2 ^ 63 \<and> v = of_int ((now - t0) div 1000000)"
    using Suc.IH [of k'] s'(2,3) Suc.prems by auto
  have "v \<le> w" if w: "w \<in> set (timestamps clock_now n (Some t0, k'))" for w
  proof -
    obtain later where "reading k' \<le> later" "later < 2 ^ 63" "w = of_int ((later - t0) div 1000000)" using ih(2) w by blast
    then show ?thesis using s' Suc.prems assms(2) of_int_ms_mono [of "now - t0" "later - t0"] by simp
  qed
  moreover have "\<forall>v \<in> set (timestamps clock_now n (Some t0, k')). \<exists>now. reading k \<le> now \<and> now < 2 ^ 63 \<and> v = of_int ((now - t0) div 1000000)"
    using ih(2) s'(2,3) by (meson order_trans)
  ultimately show ?case using ts s' ih(1) by auto
qed simp

subsection \<open>Properties\<close>

text \<open>
  Timestamps never go back, from the first call of the program on, and the first one is the time
  between the two readings of the clock in the first call. So they count from that call, where the
  documentation says from the start of the program.
\<close>
theorem timestamps_monotone:
  assumes "steady clock_now reading"
  shows "sorted_wrt (\<le>) (timestamps clock_now n (None, k))"
proof (cases n)
  case (Suc n)
  obtain t0 k0 where c0: "clock_now k = (t0, k0)" by (cases "clock_now k")
  then have "0 \<le> reading k \<and> reading k \<le> t0 \<and> t0 \<le> reading k0" using assms unfolding steady_def by blast
  then have t0: "0 \<le> t0" "t0 \<le> reading k0" by auto
  have "timestamp_ms clock_now (None, k) = timestamp_ms clock_now (Some t0, k0)" by (simp add: timestamp_ms_def c0)
  then have "timestamps clock_now (Suc n) (None, k) = timestamps clock_now (Suc n) (Some t0, k0)" by simp
  then show ?thesis unfolding Suc using timestamps_started [OF assms t0, of "Suc n"] by metis
qed simp

theorem timestamps_monotone_witness:
  "timestamps (\<lambda>k. (int k * 1500000, k + 1)) 3 (None, 7) = [1, 3, 4] \<and>
   sorted_wrt (\<le>) (timestamps (\<lambda>k :: nat. (int (min k 1000) * 1500000, k + 1)) 3 (None, 7))"
proof
  show "timestamps (\<lambda>k. (int k * 1500000, k + 1)) 3 (None, 7) = [1, 3, 4]" by code_simp
  show "sorted_wrt (\<le>) (timestamps (\<lambda>k :: nat. (int (min k 1000) * 1500000, k + 1)) 3 (None, 7))"
    by (rule timestamps_monotone [of _ "\<lambda>k. int (min k 1000) * 1500000"]) (auto simp: steady_def min_def)
qed

end
