(* ===== verification/Random_Generator.thy ===== *)
theory Random_Generator
  imports System_Calls
begin

text \<open>
  \<open>get_random_generator\<close> (libsponge/util/util.cc): a Mersenne twister seeded with as many random words as
  its state has. \<open>std::seed_seq\<close> and the seeding of \<open>std::mt19937\<close> are written out as the C++ standard
  gives them; the random device, which may throw, is a parameter.
\<close>

unbundle bit_operations_syntax

definition state_size :: nat where
  "state_size = 624"

subsection \<open>Seed sequences\<close>

definition seed_T :: "uint32_t \<Rightarrow> uint32_t" where
  "seed_T x = x XOR drop_bit 27 x"

text \<open>\<open>seed_at\<close> and \<open>seed_put\<close> access the array being filled with indices taken modulo its length.\<close>

definition seed_at :: "uint32_t list \<Rightarrow> nat \<Rightarrow> uint32_t" where
  "seed_at a k = a ! (k mod length a)"

definition seed_put :: "nat \<Rightarrow> uint32_t \<Rightarrow> uint32_t list \<Rightarrow> uint32_t list" where
  "seed_put k x a = a[k mod length a := x]"

definition seed_t :: "nat \<Rightarrow> nat" where
  "seed_t n = (if n \<ge> 623 then 11 else if n \<ge> 68 then 7 else if n \<ge> 39 then 5 else if n \<ge> 7 then 3 else (n - 1) div 2)"

definition seed_first :: "uint32_t list \<Rightarrow> nat \<Rightarrow> nat \<Rightarrow> uint32_t list \<Rightarrow> nat \<Rightarrow> uint32_t list" where
  "seed_first v p q a k =
     (let n = length a; s = length v;
          r1 = 1664525 * seed_T (seed_at a k XOR seed_at a (k + p) XOR seed_at a (k + n - 1));
          r2 = r1 + (if k = 0 then of_nat s else if k \<le> s then of_nat (k mod n) + v ! (k - 1) else of_nat (k mod n));
          a = seed_put (k + p) (seed_at a (k + p) + r1) a;
          a = seed_put (k + q) (seed_at a (k + q) + r2) a
      in seed_put k r2 a)"

definition seed_second :: "nat \<Rightarrow> nat \<Rightarrow> uint32_t list \<Rightarrow> nat \<Rightarrow> uint32_t list" where
  "seed_second p q a k =
     (let n = length a;
          r3 = 1566083941 * seed_T (seed_at a k + seed_at a (k + p) + seed_at a (k + n - 1));
          r4 = r3 - of_nat (k mod n);
          a = seed_put (k + p) (seed_at a (k + p) XOR r3) a;
          a = seed_put (k + q) (seed_at a (k + q) XOR r4) a
      in seed_put k r4 a)"

definition seed_seq_generate :: "uint32_t list \<Rightarrow> nat \<Rightarrow> uint32_t list" where
  "seed_seq_generate v n =
     (if n = 0 then []
      else let s = length v; t = seed_t n; p = (n - t) div 2; q = p + t; m = max (s + 1) n;
               a = replicate n 0x8b8b8b8b;
               a = foldl (seed_first v p q) a [0..<m]
           in foldl (seed_second p q) a [m..<m + n])"

subsection \<open>The generator\<close>

text \<open>A generator that has produced nothing yet. An all-zero state, of which only the top bit of the first word counts, is avoided.\<close>

record mt19937 =
  mt_x :: "uint32_t list"
  mt_p :: nat

definition mt19937_seeded :: "uint32_t list \<Rightarrow> mt19937" where
  "mt19937_seeded v =
     (let a = seed_seq_generate v state_size;
          a = (if drop_bit 31 (a ! 0) = 0 \<and> (\<forall>x \<in> set (tl a). x = 0) then a[0 := 2 ^ 31] else a)
      in \<lparr>mt_x = a, mt_p = state_size\<rparr>)"

text \<open>\<open>std::generate\<close>: one call of the device per element.\<close>

fun generate :: "nat \<Rightarrow> ('m, uint32_t) io \<Rightarrow> ('m, uint32_t list) io" where
  "generate 0 rd = returnIO []"
| "generate (Suc n) rd = bindIO rd (\<lambda>x. bindIO (generate n rd) (\<lambda>xs. returnIO (x # xs)))"

definition get_random_generator :: "('m, 'd) io \<Rightarrow> ('d \<Rightarrow> ('m, uint32_t) io) \<Rightarrow> ('m, mt19937) io" where
  "get_random_generator random_device call =
     bindIO random_device (\<lambda>rd.
     bindIO (generate state_size (call rd)) (\<lambda>seed_data.
       returnIO (mt19937_seeded seed_data)))"

lemma length_seed_put [simp]: "length (seed_put k x a) = length a"
  by (simp add: seed_put_def)

lemma length_seed [simp]: "length (seed_first v p q a k) = length a" "length (seed_second p q a k) = length a"
  by (simp_all add: seed_first_def seed_second_def Let_def)

lemma length_seed_foldl [simp]:
  "length (foldl (seed_first v p q) a ks) = length a" "length (foldl (seed_second p q) a ks) = length a"
  by (induction ks arbitrary: a) simp_all

lemma length_generate [simp]: "length (seed_seq_generate v n) = n"
  by (simp add: seed_seq_generate_def Let_def)

definition mt_ok :: "mt19937 \<Rightarrow> bool" where
  "mt_ok g \<longleftrightarrow> length (mt_x g) = state_size \<and> (bit (mt_x g ! 0) 31 \<or> (\<exists>x \<in> set (tl (mt_x g)). x \<noteq> 0))"

lemma drop_bit_top: "drop_bit 31 (w :: uint32_t) = 0 \<longleftrightarrow> \<not> bit w 31"
proof
  show "\<not> bit w 31" if "drop_bit 31 w = 0"
    using arg_cong [OF that, of "\<lambda>x. bit x 0"] by (simp add: bit_simps)
  show "drop_bit 31 w = 0" if "\<not> bit w 31"
  proof (rule bit_word_eqI)
    show "bit (drop_bit 31 w) n = bit 0 n" for n
      using that bit_imp_le_length [of w "31 + n"] by (cases n) (auto simp: bit_simps)
  qed
qed

lemma seeded_ok: "mt_ok (mt19937_seeded v)"
proof -
  have "length (seed_seq_generate v state_size) = state_size" by simp
  then show ?thesis
    by (auto simp: mt19937_seeded_def mt_ok_def Let_def drop_bit_top state_size_def bit_exp_iff nth_list_update)
qed

text \<open>The numbers a device gives in successive calls, none of which throws.\<close>

inductive device_reads :: "('m, uint32_t) io \<Rightarrow> 'm \<Rightarrow> uint32_t list \<Rightarrow> 'm \<Rightarrow> bool" for rd where
  reads_none: "device_reads rd m [] m"
| reads_one: "rd m = (Inr x, m1) \<Longrightarrow> device_reads rd m1 xs m' \<Longrightarrow> device_reads rd m (x # xs) m'"

inductive_simps device_reads_simps: "device_reads rd m [] m'" "device_reads rd m (x # xs) m'"

lemma generate_reads: "generate n rd m = (Inr xs, m') \<longleftrightarrow> length xs = n \<and> device_reads rd m xs m'"
proof (induction n arbitrary: m xs)
  case 0
  then show ?case by (auto simp: device_reads_simps)
next
  case (Suc n)
  show ?case
  proof (cases xs)
    case Nil
    then show ?thesis by (auto simp: bindIO_eq)
  next
    case (Cons x ys)
    then show ?thesis using Suc by (auto simp: bindIO_eq device_reads_simps)
  qed
qed

text \<open>
  \<open>get_random_generator\<close> returns exactly when the device opens and gives 624 numbers without throwing;
  the generator is then seeded with these numbers, in order, and with nothing else, and its state is never
  the degenerate one, all zeros but for 31 bits that do not count, from which a Mersenne twister
  produces only zeros.
\<close>
theorem get_random_generator_spec:
  "get_random_generator random_device call m = (Inr g, m') \<longleftrightarrow>
     (\<exists>rd m1 seed_data. random_device m = (Inr rd, m1) \<and> length seed_data = 624 \<and>
        device_reads (call rd) m1 seed_data m' \<and> g = mt19937_seeded seed_data \<and>
        length (mt_x g) = 624 \<and> (bit (mt_x g ! 0) 31 \<or> (\<exists>x \<in> set (tl (mt_x g)). x \<noteq> 0)))"
  using seeded_ok by (auto simp: get_random_generator_def bindIO_eq generate_reads mt_ok_def state_size_def)

end
