(* ===== verification/Spec2Isabelle.thy ===== *)
theory Spec2Isabelle
  imports Tcp_Wire Tcp_Config Header_Text Event_Loop Webget Doctests Hex_Dump Timestamps Random_Generator
begin

text \<open>
  A verification of libsponge, a TCP implementation in C++ (src/libsponge), and of the program webget
  that uses its sockets (src/apps/webget.cc).

  \<^bold>\<open>The program.\<close> Two groups of classes. The first is the protocol: an application writes into the
  \<open>ByteStream\<close> of a \<open>TCPSender\<close>, which cuts it into \<open>TCPSegment\<close>s numbered with \<open>WrappingInt32\<close>s, keeps what
  is not acknowledged and sends it again when a timer expires; a \<open>TCPReceiver\<close> passes the payloads to a
  \<open>StreamReassembler\<close>, which writes what has become contiguous into another \<open>ByteStream\<close>, from which the
  other application reads; it answers with an acknowledgment number and a window. Segments are written
  and read with \<open>NetUnparser\<close>, \<open>NetParser\<close>, \<open>Buffer\<close>s and the \<open>InternetChecksum\<close>. The second group wraps the
  operating system: \<open>FileDescriptor\<close>, the socket classes, \<open>Address\<close>, TUN devices and the \<open>EventLoop\<close>.

  \<^bold>\<open>How it is modelled.\<close> One theory per component, in the order in which they use each other. A class is a
  record with the members of the class, a method a function from the object to the object it leaves.
  Unsigned integers are words of their width and wrap. Exceptions, and operations the language leaves
  undefined, are values of \<^typ>\<open>cpp_error\<close>. The loops of the sources are functions of their own, with
  termination proofs where the recursion is not structural; the names are those of the sources, with the
  class as a prefix where a name would clash.

  \<^item> \<open>Sponge_Prelude\<close>: integers, bytes, exceptions, the part of \<open>std::string\<close> in use, facts on words and lists.
  \<^item> \<open>Std_Map\<close>: \<open>std::map\<close> as a key-sorted association list, and the contract \<open>ordered_map\<close> it meets.
  \<^item> \<open>Byte_Stream\<close> (byte_stream.cc): the class, and the contract \<open>byte_channel\<close>: a bounded lossless FIFO.
  \<^item> \<open>Stream_Reassembler\<close> (stream_reassembler.cc): \<open>push_substring\<close> with its window, its two loops and its end;
    the contract \<open>reassembly\<close> in terms of the set of received positions; well-formedness under any input.
  \<^item> \<open>Wrapping_Integers\<close> (wrapping_integers.cc): \<open>wrap\<close> and \<open>unwrap\<close>, the contract \<open>seqno_codec\<close>.
  \<^item> \<open>Buffers\<close> (util/buffer.cc): three classes that meet one contract, \<open>prefix_view\<close>.
  \<^item> \<open>Net_Parser\<close> (util/parser.cc), \<open>Internet_Checksum\<close> (util/util.cc), \<open>Tcp_Segment\<close> (tcp_header.cc, tcp_segment.cc):
    the wire format, its round trip, what parsing does with any input, and the checksum against its
    definition as a one's complement sum.
  \<^item> \<open>Tcp_Receiver\<close> (tcp_receiver.cc), \<open>Tcp_Sender\<close> (tcp_sender.cc), \<open>Tcp_State\<close> (tcp_state.cc): the handlers, and
    invariants over all runs, which are inductive predicates.
  \<^item> \<open>Tcp_Network\<close>, \<open>Tcp_Progress\<close>: a sender and a receiver joined by a network that may lose, repeat and reorder
    segments and acknowledgments, for good when it loses them; the invariant that ties the two together, and a
    variant that decreases
    along a schedule that ends with the transfer complete. This composition is not code of the repository,
    which has no connection class yet; it only calls the methods of the two classes.
  \<^item> \<open>Tcp_Wire\<close>: the same two ends joined by a network of byte strings, through the serializer, the checksum
    and the parser, and a bisimulation with the network of segments.
  \<^item> \<open>Tcp_Config\<close> (tcp_config.hh), \<open>Text_Format\<close>, \<open>Header_Text\<close> (\<open>to_string\<close>, \<open>summary\<close> and \<open>operator<<\<close>): the default
    configuration, and headers as text.
  \<^item> \<open>System_Calls\<close> (\<open>SystemCall\<close> and the exceptions of util/util.cc): a state and exception monad over a kernel
    that is a parameter.
  \<^item> \<open>File_Descriptor\<close> (util/file_descriptor.cc), \<open>Event_Loop\<close> (util/eventloop.cc), \<open>Net_Address\<close> (util/address.cc),
    \<open>Sockets\<close> (util/socket.cc, util/tun.cc), \<open>Webget\<close> (apps/webget.cc): descriptors live in a store of shared
    wrappers with their use counts. The system calls, the resolver and the callbacks of the event loop are
    parameters; what a theorem needs of them, for example that writev(2) appends a prefix of what it is given to
    what was sent, is a hypothesis with a name (\<open>writev_law\<close>, \<open>read_law\<close>, \<open>close_law\<close>, \<open>http_laws\<close>, \<open>callbacks_ok\<close>,
    \<open>logs_calls\<close>), which a sample kernel meets. \<open>http_laws\<close> also says what is assumed of a web server: that its
    answer depends on its address and the request only, and ends.
  \<^item> \<open>Descriptor_Scopes\<close>: local variables that hold descriptors, and a calculus in which code that uses them
    is shown not to leak any.
  \<^item> \<open>Hex_Dump\<close>, \<open>Timestamps\<close>, \<open>Random_Generator\<close> (util/util.cc): \<open>hexdump\<close> against a line by line description of its
    output, \<open>timestamp_ms\<close> over a steady clock, and \<open>get_random_generator\<close> with the seeding of a Mersenne
    twister as the C++ standard has it, over a random device that is a parameter.
  \<^item> \<open>Doctests\<close> (doctests/): the examples of the documentation. The parser example holds for all values, the
    address example succeeds with a working resolver, and the socket examples give up every descriptor object
    they make, over any kernel, and close it where close(2) succeeds.

  \<^bold>\<open>What is shown.\<close> For each component that its operations keep its invariant, what every branch of every
  handler does, and that it returns or how it fails; round trips; equivalence with a specification where
  the code is an optimised form of one. For a connection, in this theory: the receiving application reads a
  prefix of what was written, nothing is taken as acknowledged that has not arrived, \<open>FIN_ACKED\<close> means that
  everything has arrived, and from every reachable state the transfer can still be completed; all of this
  also when segments travel as bytes, since the wire format is transparent. For the
  system layer: writing sends exactly the bytes in finitely many calls, rules and descriptors are neither
  leaked nor released twice, webget ends and prints what the server answers to its request. Where the
  code does something other than it means to, a theorem shows in which cases.

  \<^bold>\<open>Bounds.\<close> A stream is shorter than \<open>2\<^sup>3\<^sup>1 - 2\<close> bytes in theorems on a whole connection, so that
  acknowledgments are never ambiguous, and stream length plus capacity is below \<open>2\<^sup>6\<^sup>4\<close>, so that positions do
  not wrap; the checksum of the pseudo-header, the sum of
  a few 16-bit words, is below \<open>2\<^sup>3\<^sup>0\<close>; payloads and buffers are shorter than \<open>2\<^sup>6\<^sup>4\<close> bytes. No definition uses fuel. The loop of webget,
  whose end depends on the peer, is a partial function, and that it ends is part of its theorem.

  \<^bold>\<open>Not modelled.\<close> The diagnostics that \<open>TCPReceiver\<close>, \<open>TCPSender\<close> and the destructor of \<open>FDWrapper\<close> print;
  running out of memory; the numbers a seeded generator goes on to produce, which nothing under src/libsponge
  uses; the tests; and the files that CMake generates under src/build, which are not part of the program.
  The random device that picks an initial sequence number is a parameter of the constructor of
  \<open>TCPSender\<close>.
\<close>

abbreviation new_conn :: "WrappingInt32 \<Rightarrow> size_t \<Rightarrow> uint16_t \<Rightarrow> size_t \<Rightarrow> conn" where
  "new_conn isn send_capacity retx_timeout recv_capacity \<equiv>
     conn_new (TCPSender_new send_capacity retx_timeout (Some isn) 0) recv_capacity"

text \<open>
  (C4) A connection delivers a prefix of the sent stream, and never acknowledges what is not
  delivered. Whatever the network loses, repeats and reorders, and whatever windows are advertised,
  the bytes the receiving application has read, followed by those it can read, are the first k bytes
  of the stream the sending application writes; the sender has sent all of them, and every stream
  byte that the sender takes as acknowledged is among them.
\<close>
theorem connection_delivers_prefix:
  assumes "conn_run S (new_conn isn send_capacity retx_timeout recv_capacity) c"
    and "length S + 2 < 2 ^ 31" and "length S + unat recv_capacity < 2 ^ 64" and "0 < recv_capacity"
  shows "\<exists>k. c_read c @ bts (stream_out (c_rx c)) = take k S \<and>
    k \<le> unat (bytes_read (tx_stream (c_tx c))) \<and> k \<le> length S \<and>
    unat (ack_s (c_tx c)) \<le> k + (if input_ended (stream_out (c_rx c)) then 2 else 1)"
proof -
  let ?k = "unat (write_ptr (reassembler (c_rx c)))"
  note inv = conn_run_inv [OF assms]
  have tx: "tx_inv S (c_tx c)" and ack: "unat (ack_s (c_tx c)) \<le> rx_pos c"
    and rx: "rx_inv S isn (c_syn c) (c_rx c)" and behind: "rx_behind S c"
    using inv by (simp_all add: conn_inv_def)
  note sr = rx_inv_sr [OF rx]
  have le: "?k \<le> length S" using carries_le [OF sr_inv_carries [OF sr]] by (simp add: sr_inv_wp [OF sr])
  have "?k \<le> unat (read_count (tx_stream (c_tx c)))"
  proof (cases "?k = 0")
    case False
    then have "?k - 1 \<in> received (reassembler (c_rx c))" by (simp add: received_def)
    then have lt: "?k < unat (next_seqno (c_tx c))" using behind False by (force simp: rx_behind_def)
    then have "next_seqno (c_tx c) \<noteq> 0" by auto
    then show ?thesis using tx lt le by (auto simp: tx_inv_def split: if_splits)
  qed simp
  then show ?thesis
    using conn_delivered [OF inv] ack le
    by (intro exI [of _ ?k]) (auto simp: bytes_read_def rx_pos_def split: if_splits)
qed

lemma sample_completion:
  "\<exists>c. conn_run [7, 8] (new_conn (WrappingInt32 0) 1 1000 1) c \<and> sender_state_summary (c_tx c) = FIN_ACKED \<and>
     receiver_state_summary (c_rx c) = FIN_RECV \<and> c_read c = [7, 8]"
  by (rule completion_reachable [OF live_inv_new]) simp_all

theorem connection_delivers_prefix_witness:
  "\<exists>c k. conn_run [7, 8] (new_conn (WrappingInt32 0) 1 1000 1) c \<and> sender_state_summary (c_tx c) = FIN_ACKED \<and>
     c_read c @ bts (stream_out (c_rx c)) = take k [7, 8] \<and> k \<le> unat (bytes_read (tx_stream (c_tx c)))"
proof -
  obtain c where c: "conn_run [7, 8] (new_conn (WrappingInt32 0) 1 1000 1) c" "sender_state_summary (c_tx c) = FIN_ACKED"
    using sample_completion by blast
  then show ?thesis using connection_delivers_prefix [OF c(1)] by fastforce
qed

text \<open>
  (C3) When the sender's state reads \<open>FIN_ACKED\<close>, the transfer is complete: the receiver's state
  reads \<open>FIN_RECV\<close>, and what its application has read and can read is the whole stream. The sender
  decides this from byte counts and acknowledgments alone.
\<close>
theorem connection_fin_acked:
  assumes "conn_run S (new_conn isn send_capacity retx_timeout recv_capacity) c"
    and "length S + 2 < 2 ^ 31" and "length S + unat recv_capacity < 2 ^ 64" and "0 < recv_capacity"
    and "sender_state_summary (c_tx c) = FIN_ACKED"
  shows "receiver_state_summary (c_rx c) = FIN_RECV \<and> c_read c @ bts (stream_out (c_rx c)) = S"
proof -
  note inv = conn_run_inv [OF assms(1-4)]
  show ?thesis using conn_complete [OF inv conn_fin_acked [OF inv assms(5)]] by simp
qed

theorem connection_fin_acked_witness:
  "\<exists>c. conn_run [7, 8] (new_conn (WrappingInt32 0) 1 1000 1) c \<and> sender_state_summary (c_tx c) = FIN_ACKED \<and>
     receiver_state_summary (c_rx c) = FIN_RECV \<and> c_read c @ bts (stream_out (c_rx c)) = [7, 8]"
proof -
  obtain c where c: "conn_run [7, 8] (new_conn (WrappingInt32 0) 1 1000 1) c" "sender_state_summary (c_tx c) = FIN_ACKED"
    using sample_completion by blast
  then show ?thesis using connection_fin_acked [OF c(1) _ _ _ c(2)] by fastforce
qed

text \<open>
  A connection never gets stuck. From every state it can reach, however the network and the
  applications behaved so far, states in which the network has lost everything in transit included, it
  can still be completed: a run exists to a state in which the
  sender's state reads \<open>FIN_ACKED\<close>, the receiver's \<open>FIN_RECV\<close>, and the receiving application has
  read the whole stream. Both capacities may be as small as one byte.
\<close>
theorem connection_can_complete:
  assumes "conn_run S (new_conn isn send_capacity retx_timeout recv_capacity) c"
    and "length S + 2 < 2 ^ 31" and "length S + unat recv_capacity < 2 ^ 64"
    and "0 < recv_capacity" and "0 < send_capacity"
  shows "\<exists>c'. conn_run S c c' \<and> sender_state_summary (c_tx c') = FIN_ACKED \<and>
    receiver_state_summary (c_rx c') = FIN_RECV \<and> c_read c' = S"
  using assms by (intro completion_reachable [OF conn_run_live [OF _ live_inv_new]])

theorem connection_can_complete_witness:
  "\<exists>c. conn_run [7, 8] (new_conn (WrappingInt32 0) 1 1000 1) c \<and>
     sender_state_summary (c_tx c) = FIN_ACKED \<and> c_read c = [7, 8]"
  using connection_can_complete [OF conn_init [of "[7, 8]" "new_conn (WrappingInt32 0) 1 1000 1"]] by fastforce

subsection \<open>Over bytes\<close>

abbreviation new_wconn :: "WrappingInt32 \<Rightarrow> size_t \<Rightarrow> uint16_t \<Rightarrow> size_t \<Rightarrow> wconn" where
  "new_wconn isn send_capacity retx_timeout recv_capacity \<equiv>
     wconn_new (TCPSender_new send_capacity retx_timeout (Some isn) 0) recv_capacity"

text \<open>
  (C2) The wire format is transparent. A connection in which every segment and every acknowledgment is
  serialized, travels as bytes and is parsed, with the checksum verified, at the other end takes its sender, its
  receiver and its reader through exactly the same states as the connection in which segments arrive as
  they were sent; so what holds of the one holds of the other. The ports, the acknowledgment numbers
  and windows that data segments carry, and the data that acknowledgments carry, are arbitrary.
\<close>
theorem wire_refines_connection:
  assumes "length S + 2 < 2 ^ 31" and "length S + unat recv_capacity < 2 ^ 64" and "0 < recv_capacity"
    and "unat dlc < 2 ^ 30"
  shows "(\<exists>b. wire_run dlc S (new_wconn isn send_capacity retx_timeout recv_capacity) b \<and>
      w_tx b = s \<and> w_rx b = r \<and> w_read b = x) \<longleftrightarrow>
    (\<exists>c. conn_run S (new_conn isn send_capacity retx_timeout recv_capacity) c \<and>
      c_tx c = s \<and> c_rx c = r \<and> c_read c = x)"
  using assms by (rule wire_states)

theorem wire_refines_connection_witness:
  "\<exists>b. wire_run 17 [7, 8] (new_wconn (WrappingInt32 0) 1 1000 1) b \<and> sender_state_summary (w_tx b) = FIN_ACKED \<and>
     w_read b = [7, 8]"
proof -
  obtain c where "conn_run [7, 8] (new_conn (WrappingInt32 0) 1 1000 1) c" "sender_state_summary (c_tx c) = FIN_ACKED"
    "c_read c = [7, 8]"
    using sample_completion by blast
  then show ?thesis
    using wire_refines_connection [where S = "[7, 8]" and recv_capacity = 1 and dlc = 17 and isn = "WrappingInt32 0" and
        send_capacity = 1 and retx_timeout = 1000 and s = "c_tx c" and r = "c_rx c" and x = "[7, 8]"]
    by force
qed

text \<open>
  (C1) A connection over bytes never gets stuck. From every state it can reach, whatever byte strings
  were lost for good, repeated or reordered and whatever the applications did so far, a run exists to a
  state in
  which the sender's state reads \<open>FIN_ACKED\<close>, the receiver's \<open>FIN_RECV\<close>, and the receiving application has
  read the whole stream. Sender, serializer, checksum, parser, receiver, reassembler and both streams take
  part in it.
\<close>
theorem wire_can_complete:
  assumes "wire_run dlc S (new_wconn isn send_capacity retx_timeout recv_capacity) b"
    and "length S + 2 < 2 ^ 31" and "length S + unat recv_capacity < 2 ^ 64"
    and "0 < recv_capacity" and "0 < send_capacity" and "unat dlc < 2 ^ 30"
  shows "\<exists>b'. wire_run dlc S b b' \<and> sender_state_summary (w_tx b') = FIN_ACKED \<and>
    receiver_state_summary (w_rx b') = FIN_RECV \<and> w_read b' = S"
  using assms by (rule wire_completion)

theorem wire_can_complete_witness:
  "\<exists>b. wire_run 17 [7, 8] (new_wconn (WrappingInt32 0) 1 1000 1) b \<and>
     sender_state_summary (w_tx b) = FIN_ACKED \<and> w_read b = [7, 8]"
  using wire_can_complete [OF wire_init [of 17 "[7, 8]" "new_wconn (WrappingInt32 0) 1 1000 1"]] by fastforce

end
